(* ===== verification/Prelude.thy ===== *)
theory Prelude
  imports Main "HOL-Library.Word" "HOL-Library.Monad_Syntax"
begin

text \<open>
  What the components share: the C integer types as words, the kernel's
  \<^verbatim>\<open>ASSERT\<close>/\<^verbatim>\<open>panic\<close> as failure in the option monad, and generic lemmas on
  lists, alignment and words.  A computation of type \<open>'a option\<close> is one that
  may end in a kernel panic (\<open>None\<close>); a C pointer that may be \<open>NULL\<close> is an
  option inside it.
\<close>

unbundle bit_operations_syntax

section \<open>C integer types\<close>

text \<open>The typedefs of \<^verbatim>\<open>src/include/common.h\<close>.\<close>

type_synonym u8 = "8 word"
type_synonym u16 = "16 word"
type_synonym u32 = "32 word"
type_synonym u64 = "64 word"

section \<open>Panics\<close>

text \<open>\<^verbatim>\<open>ASSERT(cond)\<close> of \<^verbatim>\<open>src/include/debug.h\<close>: the kernel panics when the
  condition does not hold.\<close>

definition ASSERT :: "bool \<Rightarrow> unit option" where
  "ASSERT c = (if c then Some () else None)"

lemma bind_ASSERT [simp]: "Option.bind (ASSERT c) f = (if c then f () else None)"
  by (simp add: ASSERT_def)

lemma ASSERT_Some [simp]: "ASSERT c = Some u \<longleftrightarrow> c"
  by (simp add: ASSERT_def)

section \<open>Aligned blocks of numbers\<close>

lemma aligned_blocks_nested:
  fixes g h x :: nat
  assumes "2 ^ j dvd g" "2 ^ k dvd h" "j \<le> k"
    and "x \<in> {g..<g + 2 ^ j}" "x \<in> {h..<h + 2 ^ k}"
  shows "{g..<g + 2 ^ j} \<subseteq> {h..<h + 2 ^ k}"
proof -
  define d :: nat where "d = 2 ^ (k - j)"
  have k: "(2::nat) ^ k = 2 ^ j * d"
    using \<open>j \<le> k\<close> by (simp add: d_def flip: power_add)
  obtain a where a: "g = 2 ^ j * a" using assms(1) by (elim dvdE)
  obtain b where b: "h = 2 ^ j * d * b" using assms(2) k by (metis dvdE)
  have pos: "(0::nat) < 2 ^ j" by simp
  have "2 ^ j * (d * b) < 2 ^ j * Suc a"
    using assms(4,5) a b by (simp add: algebra_simps)
  then have "d * b \<le> a" using pos by (metis less_Suc_eq_le mult_less_cancel1)
  moreover have "2 ^ j * a < 2 ^ j * (d * Suc b)"
    using assms(4,5) a b k by (simp add: algebra_simps)
  then have "Suc a \<le> d * Suc b" using pos by (metis Suc_leI mult_less_cancel1)
  ultimately have "2 ^ j * (d * b) \<le> 2 ^ j * a" "2 ^ j * Suc a \<le> 2 ^ j * (d * Suc b)"
    by (simp_all only: mult_le_mono2)
  then show ?thesis using a b k by (auto simp: algebra_simps)
qed

section \<open>Lists\<close>

lemma length_filter_upd:
  "i < length xs \<Longrightarrow>
    length (filter P (xs[i := y])) + (if P (xs ! i) then 1 else 0) = length (filter P xs) + (if P y then 1 else 0)"
proof (induction xs arbitrary: i)
  case (Cons x xs)
  then show ?case by (cases i) auto
qed simp

lemma length_filter_0: "length (filter P xs) = 0 \<longleftrightarrow> (\<forall>i<length xs. \<not> P (xs ! i))"
  by (auto simp: filter_empty_conv all_set_conv_all_nth)

lemma length_filter_1:
  assumes "length (filter P xs) = 1" "i < length xs" "P (xs ! i)" "j < length xs" "P (xs ! j)"
  shows "j = i"
proof (rule ccontr)
  assume "j \<noteq> i"
  have "i \<in> {k. k < length xs \<and> P (xs ! k)}" "j \<in> {k. k < length xs \<and> P (xs ! k)}" using assms by auto
  moreover have "card {k. k < length xs \<and> P (xs ! k)} = 1" using assms(1) by (simp add: length_filter_conv_card)
  ultimately show False using \<open>j \<noteq> i\<close> by (metis card_1_singletonE singletonD)
qed

section \<open>Rounding of words\<close>

text \<open>\<^verbatim>\<open>ROUND_UP\<close> and \<^verbatim>\<open>ROUND_DOWN\<close> of \<^verbatim>\<open>src/include/common.h\<close>, for a power of two \<open>n\<close>;
  \<^verbatim>\<open>PGROUNDUP\<close> and \<^verbatim>\<open>PGROUNDDOWN\<close> of \<^verbatim>\<open>src/include/lib/riscv.h\<close> are the same with
  \<^verbatim>\<open>PGSIZE\<close>.\<close>

definition ROUND_UP :: "u64 \<Rightarrow> u64 \<Rightarrow> u64" where
  "ROUND_UP x n = (x + n - 1) AND NOT (n - 1)"

definition ROUND_DOWN :: "u64 \<Rightarrow> u64 \<Rightarrow> u64" where
  "ROUND_DOWN x n = x AND NOT (n - 1)"

lemma and_not_mask_shift: "(x :: 'a::len word) AND NOT (mask k) = push_bit k (drop_bit k x)"
  by (rule bit_word_eqI) (auto simp: bit_simps)

lemma unat_shift_back: "unat (push_bit k (drop_bit k (x :: 'a::len word))) = unat x div 2 ^ k * 2 ^ k"
proof -
  have "unat x div 2 ^ k * 2 ^ k \<le> unat x" by simp
  also have "\<dots> < 2 ^ LENGTH('a)" by (rule unsigned_less)
  finally have "unat x div 2 ^ k * 2 ^ k < 2 ^ LENGTH('a)" .
  then have "take_bit LENGTH('a) (unat x div 2 ^ k * 2 ^ k) = unat x div 2 ^ k * 2 ^ k"
    by (rule take_bit_nat_eq_self)
  moreover have "take_bit LENGTH('a) (unat x) = unat x" by (rule take_bit_nat_eq_self) (rule unsigned_less)
  ultimately show ?thesis
    unfolding unsigned_push_bit_eq unsigned_drop_bit_eq
    by (simp only: drop_bit_eq_div push_bit_eq_mult)
qed

lemma unat_push_bit_1: "m < 64 \<Longrightarrow> unat (push_bit m (1 :: u64)) = 2 ^ m"
proof -
  assume "m < 64"
  then have "(2::nat) ^ m < 2 ^ 64" by (intro power_strict_increasing) auto
  then have "take_bit 64 ((2::nat) ^ m) = 2 ^ m" by (rule take_bit_nat_eq_self)
  moreover have "unat (push_bit m (1 :: u64)) = take_bit 64 (push_bit m (unat (1 :: u64)))"
    by (simp only: unsigned_push_bit_eq) simp
  ultimately show ?thesis by (simp only: push_bit_eq_mult unsigned_1) simp
qed

lemma unat_ROUND_DOWN: "n = 2 ^ k \<Longrightarrow> unat (ROUND_DOWN x n) = unat x div 2 ^ k * 2 ^ k"
  using and_not_mask_shift [of x k] unat_shift_back [of k x]
  by (simp add: ROUND_DOWN_def mask_eq_exp_minus_1)

lemma ROUND_UP_eq: "ROUND_UP x n = ROUND_DOWN (x + (n - 1)) n"
  by (simp add: ROUND_UP_def ROUND_DOWN_def algebra_simps)

text \<open>A C \<^verbatim>\<open>int\<close>: the atomic operations wrap around, ordinary arithmetic must stay in range.\<close>

definition wrap32 :: "int \<Rightarrow> int" where
  "wrap32 x = signed_take_bit 31 x"

definition int_ok :: "int \<Rightarrow> bool" where
  "int_ok x \<longleftrightarrow> - (2 ^ 31) \<le> x \<and> x < 2 ^ 31"

lemma wrap32_id: "int_ok x \<Longrightarrow> wrap32 x = x"
  by (simp add: wrap32_def int_ok_def signed_take_bit_int_eq_self)

end
