(* ===== verification/Cstring.thy ===== *)
theory Cstring
  imports Prelude "HOL-Library.Sublist"
begin

text \<open>
  The kernel's string library (\<^verbatim>\<open>src/src/lib/string.c\<close>, \<^verbatim>\<open>src/src/lib/ctype.c\<close>,
  \<^verbatim>\<open>src/include/lib/ctype.h\<close>) on byte memory.  A pointer is an address; memory is a
  function from addresses to bytes, so that reads and writes that overlap, and writes past a
  buffer, are what they are in C.  \<^verbatim>\<open>char\<close> is unsigned on RISC-V.  A loop that only a NUL
  byte ends is a \<open>partial_function\<close>: its value is \<open>None\<close> when there is none.
\<close>

type_synonym mem = "nat \<Rightarrow> u8"

section \<open>Blocks of bytes\<close>

primrec memset_loop :: "mem \<Rightarrow> nat \<Rightarrow> u8 \<Rightarrow> nat \<Rightarrow> nat \<Rightarrow> mem" where
  "memset_loop m dst c i 0 = m"
| "memset_loop m dst c i (Suc n) = memset_loop (m(dst + i := c)) dst c (Suc i) n"

definition memset :: "mem \<Rightarrow> nat \<Rightarrow> int \<Rightarrow> nat \<Rightarrow> mem" where
  "memset m dst c n = memset_loop m dst (of_int c) 0 n"

primrec memcmp :: "mem \<Rightarrow> nat \<Rightarrow> nat \<Rightarrow> nat \<Rightarrow> int" where
  "memcmp m s1 s2 0 = 0"
| "memcmp m s1 s2 (Suc n) =
     (if m s1 \<noteq> m s2 then uint (m s1) - uint (m s2) else memcmp m (Suc s1) (Suc s2) n)"

text \<open>The two loops of \<^verbatim>\<open>memmove\<close>: upwards, and downwards for a destination inside the
  source.\<close>

primrec copy_up :: "mem \<Rightarrow> nat \<Rightarrow> nat \<Rightarrow> nat \<Rightarrow> mem" where
  "copy_up m d s 0 = m"
| "copy_up m d s (Suc n) = copy_up (m(d := m s)) (Suc d) (Suc s) n"

primrec copy_down :: "mem \<Rightarrow> nat \<Rightarrow> nat \<Rightarrow> nat \<Rightarrow> mem" where
  "copy_down m d s 0 = m"
| "copy_down m d s (Suc n) = copy_down (m(d + n := m (s + n))) d s n"

definition memmove :: "mem \<Rightarrow> nat \<Rightarrow> nat \<Rightarrow> nat \<Rightarrow> mem" where
  "memmove m dst src n =
     (if n = 0 then m
      else if src < dst \<and> dst < src + n then copy_down m dst src n
      else copy_up m dst src n)"

definition memcpy :: "mem \<Rightarrow> nat \<Rightarrow> nat \<Rightarrow> nat \<Rightarrow> mem" where
  "memcpy m dst src n = memmove m dst src n"

section \<open>Strings\<close>

primrec strncmp :: "mem \<Rightarrow> nat \<Rightarrow> nat \<Rightarrow> nat \<Rightarrow> int" where
  "strncmp m p q 0 = 0"
| "strncmp m p q (Suc n) =
     (if m p \<noteq> 0 \<and> m p = m q then strncmp m (Suc p) (Suc q) n
      else uint (m p) - uint (m q))"

primrec zero_fill :: "mem \<Rightarrow> nat \<Rightarrow> nat \<Rightarrow> mem" where
  "zero_fill m s 0 = m"
| "zero_fill m s (Suc n) = zero_fill (m(s := 0)) (Suc s) n"

primrec strncpy_loop :: "mem \<Rightarrow> nat \<Rightarrow> nat \<Rightarrow> nat \<Rightarrow> mem" where
  "strncpy_loop m s t 0 = m"
| "strncpy_loop m s t (Suc n) =
     (let m1 = m(s := m t) in
      if m t \<noteq> 0 then strncpy_loop m1 (Suc s) (Suc t) n else zero_fill m1 (Suc s) n)"

definition strncpy :: "mem \<Rightarrow> nat \<Rightarrow> nat \<Rightarrow> int \<Rightarrow> mem" where
  "strncpy m s t n = strncpy_loop m s t (nat n)"

text \<open>The copying loop of \<^verbatim>\<open>safestrcpy\<close> also leaves the final value of \<^verbatim>\<open>s\<close>, where the
  terminating NUL goes.\<close>

primrec safestrcpy_loop :: "mem \<Rightarrow> nat \<Rightarrow> nat \<Rightarrow> nat \<Rightarrow> mem \<times> nat" where
  "safestrcpy_loop m s t 0 = (m, s)"
| "safestrcpy_loop m s t (Suc n) =
     (let m1 = m(s := m t) in
      if m t \<noteq> 0 then safestrcpy_loop m1 (Suc s) (Suc t) n else (m1, Suc s))"

definition safestrcpy :: "mem \<Rightarrow> nat \<Rightarrow> nat \<Rightarrow> int \<Rightarrow> mem" where
  "safestrcpy m s t n =
     (if n \<le> 0 then m else let (m1, s1) = safestrcpy_loop m s t (nat n) in m1(s1 := 0))"

partial_function (option) strlen_from :: "mem \<Rightarrow> nat \<Rightarrow> nat \<Rightarrow> nat option" where
  "strlen_from m s n = (if m (s + n) = 0 then Some n else strlen_from m s (Suc n))"

definition strlen :: "mem \<Rightarrow> nat \<Rightarrow> nat option" where
  "strlen m s = strlen_from m s 0"

primrec strnlen :: "mem \<Rightarrow> nat \<Rightarrow> nat \<Rightarrow> nat" where
  "strnlen m s 0 = 0"
| "strnlen m s (Suc count) = (if m s \<noteq> 0 then Suc (strnlen m (Suc s) count) else 0)"

partial_function (option) strchr :: "mem \<Rightarrow> nat \<Rightarrow> u8 \<Rightarrow> nat option option" where
  "strchr m str c =
     (if m str \<noteq> 0 then if m str = c then Some (Some str) else strchr m (Suc str) c
      else if c = 0 then Some (Some str) else Some None)"

text \<open>\<open>str_split\<close> returns the new memory and \<open>1\<close>, or \<open>-1\<close> when the character is absent.\<close>

definition str_split :: "mem \<Rightarrow> nat \<Rightarrow> u8 \<Rightarrow> nat \<Rightarrow> nat \<Rightarrow> (mem \<times> int) option" where
  "str_split m str ch str1 str2 = do {
     r \<leftarrow> strchr m str ch;
     case r of
       None \<Rightarrow> Some (m, - 1)
     | Some p \<Rightarrow> do {
         let m1 = strncpy m str1 str (int (p - str));
         l \<leftarrow> strlen m1 str;
         Some (strncpy m1 str2 (Suc p) (int l - 1 - int (p - str)), 1)
       }
   }"

partial_function (option) strcat_copy :: "mem \<Rightarrow> nat \<Rightarrow> nat \<Rightarrow> mem option" where
  "strcat_copy m p src =
     (if m src \<noteq> 0 then strcat_copy (m(p := m src)) (Suc p) (Suc src) else Some (m(p := 0)))"

definition strcat :: "mem \<Rightarrow> nat \<Rightarrow> nat \<Rightarrow> mem option" where
  "strcat m dest src = do {
     n \<leftarrow> strlen m dest;
     strcat_copy m (dest + n) src
   }"

text \<open>The inner loop of \<^verbatim>\<open>strstr\<close> leaves the position in the needle.\<close>

partial_function (option) strstr_match :: "mem \<Rightarrow> nat \<Rightarrow> nat \<Rightarrow> nat option" where
  "strstr_match m h n = (if m h = m n \<and> m n \<noteq> 0 then strstr_match m (Suc h) (Suc n) else Some n)"

partial_function (option) strstr_loop :: "mem \<Rightarrow> nat \<Rightarrow> nat \<Rightarrow> nat option option" where
  "strstr_loop m haystack needle =
     (if m haystack \<noteq> 0 then do {
        n \<leftarrow> strstr_match m haystack needle;
        if m n = 0 then Some (Some haystack) else strstr_loop m (Suc haystack) needle
      } else Some None)"

definition strstr :: "mem \<Rightarrow> nat \<Rightarrow> nat \<Rightarrow> nat option option" where
  "strstr m haystack needle =
     (if m needle = 0 then Some (Some haystack) else strstr_loop m haystack needle)"

partial_function (option) strcmp :: "mem \<Rightarrow> nat \<Rightarrow> nat \<Rightarrow> int option" where
  "strcmp m l r =
     (if m l = m r \<and> m l \<noteq> 0 then strcmp m (Suc l) (Suc r) else Some (uint (m l) - uint (m r)))"

definition is_suffix :: "mem \<Rightarrow> nat \<Rightarrow> nat \<Rightarrow> bool option" where
  "is_suffix m str suf = do {
     str_len \<leftarrow> strlen m str;
     suffix_len \<leftarrow> strlen m suf;
     if suffix_len > str_len then Some False
     else do {
       r \<leftarrow> strcmp m (str + (str_len - suffix_len)) suf;
       Some (r = 0)
     }
   }"

section \<open>Character classes\<close>

abbreviation "CT_U \<equiv> 0x01 :: u8"
abbreviation "CT_L \<equiv> 0x02 :: u8"
abbreviation "CT_D \<equiv> 0x04 :: u8"
abbreviation "CT_C \<equiv> 0x08 :: u8"
abbreviation "CT_P \<equiv> 0x10 :: u8"
abbreviation "CT_S \<equiv> 0x20 :: u8"
abbreviation "CT_X \<equiv> 0x40 :: u8"
abbreviation "CT_SP \<equiv> 0x80 :: u8"

definition ctype_table :: "u8 list" where
  "ctype_table = [0] @
     replicate 9 CT_C @ replicate 5 (CT_C OR CT_S) @ replicate 18 CT_C @
     [CT_S OR CT_SP] @ replicate 15 CT_P @ replicate 10 CT_D @ replicate 7 CT_P @
     replicate 6 (CT_U OR CT_X) @ replicate 20 CT_U @ replicate 6 CT_P @
     replicate 6 (CT_L OR CT_X) @ replicate 20 CT_L @ replicate 4 CT_P @ [CT_C] @ replicate 128 0"

definition ctype_of :: "u8 \<Rightarrow> u8" where
  "ctype_of c = ctype_table ! Suc (unat c)"

definition isalnum :: "u8 \<Rightarrow> bool" where "isalnum c \<longleftrightarrow> ctype_of c AND (CT_U OR CT_L OR CT_D) \<noteq> 0"
definition isalpha :: "u8 \<Rightarrow> bool" where "isalpha c \<longleftrightarrow> ctype_of c AND (CT_U OR CT_L) \<noteq> 0"
definition isdigit :: "u8 \<Rightarrow> bool" where "isdigit c \<longleftrightarrow> ctype_of c AND CT_D \<noteq> 0"
definition islower :: "u8 \<Rightarrow> bool" where "islower c \<longleftrightarrow> ctype_of c AND CT_L \<noteq> 0"
definition isupper :: "u8 \<Rightarrow> bool" where "isupper c \<longleftrightarrow> ctype_of c AND CT_U \<noteq> 0"
definition isspace :: "u8 \<Rightarrow> bool" where "isspace c \<longleftrightarrow> ctype_of c AND CT_S \<noteq> 0"
definition isxdigit :: "u8 \<Rightarrow> bool" where "isxdigit c \<longleftrightarrow> ctype_of c AND (CT_D OR CT_X) \<noteq> 0"

definition tolower :: "u8 \<Rightarrow> u8" where "tolower c = (if isupper c then c + 32 else c)"
definition toupper :: "u8 \<Rightarrow> u8" where "toupper c = (if islower c then c - 32 else c)"

partial_function (option) str_toupper :: "mem \<Rightarrow> nat \<Rightarrow> mem option" where
  "str_toupper m str = (if m str \<noteq> 0 then str_toupper (m(str := toupper (m str))) (Suc str) else Some m)"

partial_function (option) str_tolower :: "mem \<Rightarrow> nat \<Rightarrow> mem option" where
  "str_tolower m str = (if m str \<noteq> 0 then str_tolower (m(str := tolower (m str))) (Suc str) else Some m)"

section \<open>Correctness\<close>

text \<open>\<open>cstr m s xs\<close>: the NUL-terminated string at \<open>s\<close> has the characters \<open>xs\<close>.\<close>

fun cstr :: "mem \<Rightarrow> nat \<Rightarrow> u8 list \<Rightarrow> bool" where
  "cstr m s [] \<longleftrightarrow> m s = 0"
| "cstr m s (x # xs) \<longleftrightarrow> m s = x \<and> x \<noteq> 0 \<and> cstr m (Suc s) xs"

lemma cstr_cong: "(\<And>i. i \<le> length xs \<Longrightarrow> m' (s + i) = m (s + i)) \<Longrightarrow> cstr m' s xs = cstr m s xs"
proof (induction xs arbitrary: s)
  case Nil
  then show ?case using Nil [of 0] by simp
next
  case (Cons x xs)
  have "cstr m' (Suc s) xs = cstr m (Suc s) xs"
    using Cons.prems [of "Suc i" for i] by (intro Cons.IH) simp
  then show ?case using Cons.prems [of 0] by simp
qed

lemma cstr_nth: "cstr m s xs \<longleftrightarrow> (\<forall>i<length xs. m (s + i) = xs ! i \<and> xs ! i \<noteq> 0) \<and> m (s + length xs) = 0"
  by (induction xs arbitrary: s) (auto simp: less_Suc_eq_0_disj)

lemma cstr_drop: "cstr m s xs \<Longrightarrow> i \<le> length xs \<Longrightarrow> cstr m (s + i) (drop i xs)"
proof (induction i arbitrary: s xs)
  case (Suc i)
  then show ?case using Suc.IH [of "Suc s" "tl xs"] by (cases xs) auto
qed simp

lemma cstr_nonzero: "cstr m s xs \<Longrightarrow> 0 \<notin> set xs"
  by (induction xs arbitrary: s) auto

lemma memset_loop_eq: "memset_loop m dst c i n x = (if dst + i \<le> x \<and> x < dst + i + n then c else m x)"
  by (induction n arbitrary: m i) auto

lemma memset_eq: "memset m dst c n x = (if dst \<le> x \<and> x < dst + n then of_int c else m x)"
  by (simp add: memset_def memset_loop_eq)

lemma memcmp_eq_0: "memcmp m s1 s2 n = 0 \<longleftrightarrow> (\<forall>i<n. m (s1 + i) = m (s2 + i))"
  by (induction n arbitrary: s1 s2) (auto simp: less_Suc_eq_0_disj word_uint_eq_iff)

lemma copy_up_eq:
  "d \<le> s \<or> s + n \<le> d \<Longrightarrow> copy_up m d s n x = (if d \<le> x \<and> x < d + n then m (s + (x - d)) else m x)"
proof (induction n arbitrary: m d s)
  case (Suc n)
  have "copy_up (m(d := m s)) (Suc d) (Suc s) n x =
      (if Suc d \<le> x \<and> x < Suc d + n then (m(d := m s)) (Suc s + (x - Suc d)) else (m(d := m s)) x)"
    using Suc.prems by (intro Suc.IH) auto
  moreover have "Suc s + (x - Suc d) = s + (x - d)" if "Suc d \<le> x" using that by arith
  ultimately show ?case using Suc.prems by auto
qed auto

lemma copy_down_eq:
  "s \<le> d \<Longrightarrow> copy_down m d s n x = (if d \<le> x \<and> x < d + n then m (s + (x - d)) else m x)"
proof (induction n arbitrary: m)
  case (Suc n)
  then show ?case by (auto simp: Suc.IH)
qed auto

lemma memmove_eq: "memmove m d s n x = (if d \<le> x \<and> x < d + n then m (s + (x - d)) else m x)"
  by (auto simp: memmove_def copy_down_eq copy_up_eq)

lemma strlen_from_eq: "cstr m (s + n) xs \<Longrightarrow> strlen_from m s n = Some (n + length xs)"
  by (induction xs arbitrary: n) (subst strlen_from.simps; simp)+

lemma strlen_eq: "cstr m s xs \<Longrightarrow> strlen m s = Some (length xs)"
  using strlen_from_eq [of m s 0 xs] by (simp add: strlen_def)

lemma strnlen_eq: "cstr m s xs \<Longrightarrow> strnlen m s n = min n (length xs)"
proof (induction n arbitrary: s xs)
  case (Suc n)
  then show ?case by (cases xs) auto
qed simp

lemma strchr_eq: "cstr m s xs \<Longrightarrow> c \<noteq> 0 \<Longrightarrow>
    strchr m s c = Some (if c \<in> set xs then Some (s + length (takeWhile (\<lambda>x. x \<noteq> c) xs)) else None)"
  by (induction xs arbitrary: s) (auto simp: strchr.simps)

lemma strcmp_eq: "cstr m l xs \<Longrightarrow> cstr m r ys \<Longrightarrow>
    \<exists>d. strcmp m l r = Some d \<and> (d = 0 \<longleftrightarrow> xs = ys) \<and> (d < 0 \<longleftrightarrow> ord_class.lexordp xs ys)"
proof (induction xs arbitrary: l r ys)
  case Nil
  then show ?case by (cases ys) (auto simp: strcmp.simps uint_0_iff word_less_def order.strict_iff_order)
next
  case (Cons x xs)
  then show ?case
    by (cases ys) (auto simp: strcmp.simps word_less_def word_uint_eq_iff order.strict_iff_order)
qed

lemma is_suffix_eq:
  assumes "cstr m s xs" "cstr m t ys"
  shows "is_suffix m s t = Some (suffix ys xs)"
proof (cases "length ys \<le> length xs")
  case True
  have "cstr m (s + (length xs - length ys)) (drop (length xs - length ys) xs)"
    using cstr_drop [OF assms(1)] by simp
  then obtain d where "strcmp m (s + (length xs - length ys)) t = Some d"
    "d = 0 \<longleftrightarrow> drop (length xs - length ys) xs = ys" using strcmp_eq assms(2) by blast
  moreover have "drop (length xs - length ys) xs = ys \<longleftrightarrow> suffix ys xs"
    using True by (auto simp: suffix_def append_eq_conv_conj) (metis append_take_drop_id)
  ultimately show ?thesis using True by (simp add: is_suffix_def strlen_eq [OF assms(1)] strlen_eq [OF assms(2)])
next
  case False
  then have "\<not> suffix ys xs" using suffix_length_le by blast
  then show ?thesis using False by (simp add: is_suffix_def strlen_eq [OF assms(1)] strlen_eq [OF assms(2)])
qed

lemma strstr_match_eq: "cstr m h hs \<Longrightarrow> cstr m n ns \<Longrightarrow>
    \<exists>k. strstr_match m h n = Some k \<and> (m k = 0 \<longleftrightarrow> prefix ns hs)"
proof (induction ns arbitrary: h n hs)
  case Nil
  then show ?case by (simp add: strstr_match.simps)
next
  case (Cons x xs)
  then show ?case by (cases hs) (auto simp: strstr_match.simps)
qed

text \<open>What \<open>strstr\<close> promises: the first position at which the needle is a prefix of the rest.\<close>

definition first_sub :: "u8 list \<Rightarrow> u8 list \<Rightarrow> nat \<Rightarrow> nat option \<Rightarrow> bool" where
  "first_sub hs ns h r \<longleftrightarrow>
     (case r of
        None \<Rightarrow> \<not> sublist ns hs
      | Some p \<Rightarrow> \<exists>i. p = h + i \<and> prefix ns (drop i hs) \<and> (\<forall>j<i. \<not> prefix ns (drop j hs)))"

lemma first_sub_here: "prefix ns hs \<Longrightarrow> first_sub hs ns h (Some h)"
  by (auto simp: first_sub_def)

lemma first_sub_later:
  assumes "first_sub xs ns (Suc h) r" "\<not> prefix ns (x # xs)"
  shows "first_sub (x # xs) ns h r"
proof (cases r)
  case None
  then show ?thesis using assms by (simp add: first_sub_def sublist_Cons_right)
next
  case (Some p)
  then obtain i where "p = Suc h + i" "prefix ns (drop i xs)" "\<forall>j<i. \<not> prefix ns (drop j xs)"
    using assms(1) by (auto simp: first_sub_def)
  then have "p = h + Suc i" "prefix ns (drop (Suc i) (x # xs))" "\<forall>j<Suc i. \<not> prefix ns (drop j (x # xs))"
    using assms(2) by (auto simp: less_Suc_eq_0_disj)
  then show ?thesis using Some unfolding first_sub_def by (simp only: option.case) blast
qed

lemma strstr_loop_eq:
  assumes "cstr m n ns" "ns \<noteq> []" "cstr m h hs"
  shows "\<exists>r. strstr_loop m h n = Some r \<and> first_sub hs ns h r"
  using assms(3)
proof (induction hs arbitrary: h)
  case Nil
  then show ?case using assms(2) by (simp add: strstr_loop.simps first_sub_def)
next
  case (Cons x xs)
  obtain k where k: "strstr_match m h n = Some k" "m k = 0 \<longleftrightarrow> prefix ns (x # xs)"
    using strstr_match_eq [OF Cons.prems assms(1)] by blast
  obtain r where r: "strstr_loop m (Suc h) n = Some r" "first_sub xs ns (Suc h) r" using Cons by auto
  have "strstr_loop m h n = (if prefix ns (x # xs) then Some (Some h) else Some r)"
    using k r(1) Cons.prems by (simp add: strstr_loop.simps)
  then show ?case using first_sub_here first_sub_later [OF r(2)] by auto
qed

lemma strstr_eq:
  assumes "cstr m h hs" "cstr m n ns"
  shows "\<exists>r. strstr m h n = Some r \<and> first_sub hs ns h r"
proof (cases ns)
  case Nil
  then show ?thesis using assms(2) first_sub_here [of "[]" hs h] by (simp add: strstr_def)
next
  case (Cons x xs)
  then show ?thesis using strstr_loop_eq [OF assms(2) _ assms(1)] assms(2) by (simp add: strstr_def)
qed

text \<open>\<open>safestrcpy\<close>: the bytes written are the copied ones and one NUL after them.\<close>

lemma safestrcpy_loop_eq:
  assumes "t + length xs \<le> s \<or> s + length xs \<le> t" "\<And>i. i < length xs \<Longrightarrow> m (t + i) = xs ! i" "0 \<notin> set xs"
  shows "safestrcpy_loop m s t (length xs) = ((\<lambda>x. if s \<le> x \<and> x < s + length xs then xs ! (x - s) else m x),
    s + length xs)"
  using assms
proof (induction xs arbitrary: m s t)
  case Nil
  then show ?case by (auto simp: fun_eq_iff)
next
  case (Cons x xs)
  have x: "m t = x" "x \<noteq> 0" using Cons.prems(2) [of 0] Cons.prems(3) by auto
  have *: "safestrcpy_loop (m(s := x)) (Suc s) (Suc t) (length xs) =
      ((\<lambda>y. if Suc s \<le> y \<and> y < Suc s + length xs then xs ! (y - Suc s) else (m(s := x)) y), Suc s + length xs)"
    using Cons.prems(1,3) Cons.prems(2) [of "Suc i" for i] by (intro Cons.IH) auto
  have "(if Suc s \<le> y \<and> y < Suc s + length xs then xs ! (y - Suc s) else (m(s := x)) y) =
      (if s \<le> y \<and> y < s + length (x # xs) then (x # xs) ! (y - s) else m y)" for y
    by (cases "y = s") (auto simp: nth_Cons')
  with * x show ?case by simp
qed

text \<open>C27.  \<open>memmove\<close> copies the bytes the source had at the call, for every overlap of the two
  ranges, and writes nothing outside the destination.\<close>

theorem memmove_correct:
  "memmove m dst src n x = (if dst \<le> x \<and> x < dst + n then m (src + (x - dst)) else m x)"
  by (rule memmove_eq)

text \<open>\<open>strstr\<close> ends on NUL-terminated strings and returns the first occurrence of the needle,
  or \<open>NULL\<close> exactly when the needle does not occur.\<close>

theorem strstr_first:
  assumes "cstr m h hs" "cstr m n ns"
  shows "\<exists>r. strstr m h n = Some r \<and>
    (case r of
       None \<Rightarrow> \<not> sublist ns hs
     | Some p \<Rightarrow> \<exists>i. p = h + i \<and> prefix ns (drop i hs) \<and> (\<forall>j<i. \<not> prefix ns (drop j hs)))"
  using strstr_eq [OF assms] unfolding first_sub_def .

definition demo_mem :: "u8 list \<Rightarrow> mem" where
  "demo_mem bs a = (if a < length bs then bs ! a else 0)"

theorem strstr_first_witness:
  "strstr (demo_mem [97, 98, 97, 99, 0, 97, 99, 0]) 0 5 = Some (Some 2)"
proof -
  let ?hs = "[97, 98, 97, 99] :: u8 list"
  obtain r where r: "strstr (demo_mem [97, 98, 97, 99, 0, 97, 99, 0]) 0 5 = Some r"
    "case r of None \<Rightarrow> \<not> sublist [97, 99] ?hs
     | Some p \<Rightarrow> \<exists>i. p = 0 + i \<and> prefix [97, 99] (drop i ?hs) \<and> (\<forall>j<i. \<not> prefix [97, 99] (drop j ?hs))"
    using strstr_first [of "demo_mem [97, 98, 97, 99, 0, 97, 99, 0]" 0 ?hs 5 "[97, 99]"]
    by (auto simp: demo_mem_def)
  have "sublist [97, 99] ?hs" unfolding sublist_def by (rule exI [where x = "[97, 98]"]) simp
  with r(2) obtain i where i: "r = Some i" "prefix [97, 99] (drop i ?hs)" "\<forall>j<i. \<not> prefix [97, 99] (drop j ?hs)"
    by (cases r) auto
  have "i \<le> 2" using i(3) by (cases "2 < i") auto
  then have "i = 2" using i(2) by (auto simp: le_Suc_eq numeral_2_eq_2)
  then show ?thesis using r(1) i(1) by simp
qed

text \<open>C28.  \<open>safestrcpy\<close> with a source of at least \<open>n\<close> characters copies \<open>n\<close> of them and then
  clears the byte after them: it writes \<open>n + 1\<close> bytes, one more than the \<open>n\<close> its callers pass as
  the size of the destination.\<close>

theorem safestrcpy_writes_past:
  assumes "0 < n" "t + n \<le> s \<or> s + n \<le> t" "\<And>i. i < n \<Longrightarrow> m (t + i) \<noteq> 0"
  shows "safestrcpy m s t (int n) x =
    (if s \<le> x \<and> x < s + n then m (t + (x - s)) else if x = s + n then 0 else m x)"
proof -
  define xs where "xs = map (\<lambda>i. m (t + i)) [0..<n]"
  have z: "0 \<notin> set xs" using assms(3) by (force simp: xs_def)
  have "safestrcpy_loop m s t n = ((\<lambda>x. if s \<le> x \<and> x < s + n then xs ! (x - s) else m x), s + n)"
    using safestrcpy_loop_eq [OF _ _ z, of t s m] assms(2) by (simp add: xs_def)
  then show ?thesis using assms(1) by (auto simp: safestrcpy_def xs_def)
qed

theorem safestrcpy_writes_past_witness:
  "safestrcpy (demo_mem [97, 98, 99, 0, 7, 7, 7, 7]) 4 0 3 7 = 0 \<and>
   demo_mem [97, 98, 99, 0, 7, 7, 7, 7] 7 = 7"
proof -
  have "demo_mem [97, 98, 99, 0, 7, 7, 7, 7] (0 + i) \<noteq> 0" if "i < 3" for i
    using that by (auto simp: demo_mem_def less_Suc_eq numeral_3_eq_3)
  then show ?thesis
    using safestrcpy_writes_past [of 3 0 4 "demo_mem [97, 98, 99, 0, 7, 7, 7, 7]" 7] by (simp add: demo_mem_def)
qed

end
