(* ===== verification/Spinlock.thy ===== *)
theory Spinlock
  imports Prelude
begin

text \<open>
  Spin locks and interrupt nesting (\<^verbatim>\<open>src/src/atomic/spinlock.c\<close>,
  \<^verbatim>\<open>src/include/kernel/cpu.h\<close>).  A hart is a number; its interrupt-enable bit
  (\<^verbatim>\<open>sstatus.SIE\<close>) is the field \<open>intr\<close> beside the per-CPU fields the code keeps.
  The sequential operations describe one hart that finds the lock free; the step
  relation \<open>lock_step\<close> interleaves any number of harts at the granularity of the
  code's memory accesses, spinning included.
\<close>

section \<open>Interrupt nesting\<close>

text \<open>\<open>noff\<close> is an \<^verbatim>\<open>int\<close> in the source and an integer here: it counts the calls of \<^verbatim>\<open>push_off\<close> that one hart
  has open, which its stack bounds far below \<open>2 ^ 31\<close>.\<close>

record thread_cpu =
  noff :: int
  intena :: bool
  intr :: bool

definition push_off :: "thread_cpu \<Rightarrow> thread_cpu" where
  "push_off c =
     (let old = intr c;
          c1 = c\<lparr>intr := False\<rparr>;
          c2 = (if noff c1 = 0 then c1\<lparr>intena := old\<rparr> else c1)
      in c2\<lparr>noff := noff c2 + 1\<rparr>)"

definition pop_off :: "thread_cpu \<Rightarrow> thread_cpu option" where
  "pop_off c =
     (if intr c then None
      else if noff c < 1 then None
      else let c1 = c\<lparr>noff := noff c - 1\<rparr>
           in Some (if noff c1 = 0 \<and> intena c1 then c1\<lparr>intr := True\<rparr> else c1))"

text \<open>The nesting is sound: it is never negative, and interrupts are off inside it.\<close>

definition cpu_ok :: "thread_cpu \<Rightarrow> bool" where
  "cpu_ok c \<longleftrightarrow> 0 \<le> noff c \<and> (0 < noff c \<longrightarrow> \<not> intr c)"

lemma push_off_sel [simp]:
  "noff (push_off c) = noff c + 1" "\<not> intr (push_off c)"
  "intena (push_off c) = (if noff c = 0 then intr c else intena c)"
  by (simp_all add: push_off_def Let_def)

lemma cpu_ok_push_off [simp]: "cpu_ok c \<Longrightarrow> cpu_ok (push_off c)"
  by (simp add: cpu_ok_def)

lemma pop_off_ok:
  assumes "cpu_ok c" "0 < noff c"
  shows "\<exists>c'. pop_off c = Some c' \<and> cpu_ok c' \<and> noff c' = noff c - 1"
  using assms by (auto simp: pop_off_def cpu_ok_def Let_def)

text \<open>A matched pair changes nothing but the scratch field \<open>intena\<close>, and that only
  outside every nesting.\<close>

lemma pop_push_off:
  assumes "cpu_ok c"
  shows "pop_off (push_off c) = Some (c\<lparr>intena := (if noff c = 0 then intr c else intena c)\<rparr>)"
  using assms by (cases c) (auto simp: pop_off_def push_off_def cpu_ok_def Let_def)

section \<open>The lock, one hart at a time\<close>

record spinlock =
  locked :: bool
  lk_cpu :: "nat option"

definition initlock :: spinlock where
  "initlock = \<lparr>locked = False, lk_cpu = None\<rparr>"

definition holding :: "nat \<Rightarrow> spinlock \<Rightarrow> bool" where
  "holding i lk \<longleftrightarrow> locked lk \<and> lk_cpu lk = Some i"

text \<open>\<open>acquire\<close> has no result (\<open>None\<close>) both when the code panics and when it would
  spin for ever because no other hart runs to release the lock.\<close>

definition acquire :: "nat \<Rightarrow> spinlock \<Rightarrow> thread_cpu \<Rightarrow> (spinlock \<times> thread_cpu) option" where
  "acquire i lk c = do {
     let c1 = push_off c;
     ASSERT (\<not> holding i lk);
     ASSERT (\<not> locked lk);
     Some (lk\<lparr>locked := True, lk_cpu := Some i\<rparr>, c1)
   }"

definition release :: "nat \<Rightarrow> spinlock \<Rightarrow> thread_cpu \<Rightarrow> (spinlock \<times> thread_cpu) option" where
  "release i lk c = do {
     ASSERT (holding i lk);
     c1 \<leftarrow> pop_off c;
     Some (lk\<lparr>lk_cpu := None, locked := False\<rparr>, c1)
   }"

lemma release_acquire:
  assumes "cpu_ok c" "\<not> locked lk"
  shows "\<exists>c1. acquire i lk c = Some (lk\<lparr>locked := True, lk_cpu := Some i\<rparr>, push_off c) \<and>
    release i (lk\<lparr>locked := True, lk_cpu := Some i\<rparr>) (push_off c) =
      Some (lk\<lparr>locked := False, lk_cpu := None\<rparr>, c\<lparr>intena := (if noff c = 0 then intr c else intena c)\<rparr>)"
  using assms by (simp add: acquire_def release_def holding_def pop_push_off)

section \<open>Any number of harts\<close>

text \<open>The program counter of a hart inside \<open>_acquire\<close> and \<open>_release\<close>: one constructor
  per point between two shared accesses.\<close>

datatype lock_pc =
    Idle        \<comment> \<open>outside the lock\<close>
  | AcqCheck    \<comment> \<open>after \<open>push_off\<close>, before the \<open>holding\<close> check\<close>
  | AcqSpin     \<comment> \<open>in the test-and-set loop\<close>
  | AcqOwn      \<comment> \<open>the swap returned 0, \<open>lk->cpu\<close> not yet written\<close>
  | Crit        \<comment> \<open>in the critical section\<close>
  | RelCpu      \<comment> \<open>\<open>holding\<close> checked, \<open>lk->cpu\<close> not yet cleared\<close>
  | RelUnlock   \<comment> \<open>\<open>lk->cpu\<close> cleared, lock still taken\<close>
  | RelPop      \<comment> \<open>lock given up, before \<open>pop_off\<close>\<close>
  | Panicked

record lock_sys =
  lk :: spinlock
  pcs :: "nat \<Rightarrow> lock_pc"
  cpus :: "nat \<Rightarrow> thread_cpu"

inductive lock_step :: "lock_sys \<Rightarrow> lock_sys \<Rightarrow> bool" where
  acq_push: "pcs s i = Idle \<Longrightarrow>
    lock_step s (s\<lparr>pcs := (pcs s)(i := AcqCheck), cpus := (cpus s)(i := push_off (cpus s i))\<rparr>)"
| acq_check: "pcs s i = AcqCheck \<Longrightarrow>
    lock_step s (s\<lparr>pcs := (pcs s)(i := if holding i (lk s) then Panicked else AcqSpin)\<rparr>)"
| acq_swap: "pcs s i = AcqSpin \<Longrightarrow>
    lock_step s (s\<lparr>pcs := (pcs s)(i := if locked (lk s) then AcqSpin else AcqOwn),
                   lk := (lk s)\<lparr>locked := True\<rparr>\<rparr>)"
| acq_own: "pcs s i = AcqOwn \<Longrightarrow>
    lock_step s (s\<lparr>pcs := (pcs s)(i := Crit), lk := (lk s)\<lparr>lk_cpu := Some i\<rparr>\<rparr>)"
| rel_check: "pcs s i = Crit \<Longrightarrow>
    lock_step s (s\<lparr>pcs := (pcs s)(i := if holding i (lk s) then RelCpu else Panicked)\<rparr>)"
| rel_cpu: "pcs s i = RelCpu \<Longrightarrow>
    lock_step s (s\<lparr>pcs := (pcs s)(i := RelUnlock), lk := (lk s)\<lparr>lk_cpu := None\<rparr>\<rparr>)"
| rel_unlock: "pcs s i = RelUnlock \<Longrightarrow>
    lock_step s (s\<lparr>pcs := (pcs s)(i := RelPop), lk := (lk s)\<lparr>locked := False\<rparr>\<rparr>)"
| rel_pop: "pcs s i = RelPop \<Longrightarrow>
    lock_step s (case pop_off (cpus s i) of
        None \<Rightarrow> s\<lparr>pcs := (pcs s)(i := Panicked)\<rparr>
      | Some c \<Rightarrow> s\<lparr>pcs := (pcs s)(i := Idle), cpus := (cpus s)(i := c)\<rparr>)"

inductive lock_reach :: "lock_sys \<Rightarrow> bool" where
  start: "(\<And>i. cpu_ok (cpus s i)) \<Longrightarrow> (\<And>i. pcs s i = Idle) \<Longrightarrow> lk s = initlock \<Longrightarrow> lock_reach s"
| step: "lock_reach s \<Longrightarrow> lock_step s t \<Longrightarrow> lock_reach t"

text \<open>The owner of the lock is the hart whose swap returned 0 and that has not given
  it up yet.\<close>

definition owns :: "lock_pc \<Rightarrow> bool" where
  "owns pc \<longleftrightarrow> pc \<in> {AcqOwn, Crit, RelCpu, RelUnlock}"

definition lock_inv :: "lock_sys \<Rightarrow> nat option \<Rightarrow> bool" where
  "lock_inv s ow \<longleftrightarrow>
     (\<forall>i. owns (pcs s i) \<longleftrightarrow> ow = Some i) \<and>
     (locked (lk s) \<longleftrightarrow> ow \<noteq> None) \<and>
     (\<forall>i. lk_cpu (lk s) = Some i \<longleftrightarrow> pcs s i \<in> {Crit, RelCpu}) \<and>
     (\<forall>i. pcs s i \<noteq> Panicked) \<and>
     (\<forall>i. cpu_ok (cpus s i) \<and> (pcs s i \<noteq> Idle \<longrightarrow> 0 < noff (cpus s i)))"

lemma lock_invI:
  assumes "\<And>i. owns (pcs s i) \<longleftrightarrow> ow = Some i" "locked (lk s) \<longleftrightarrow> ow \<noteq> None"
    "\<And>i. lk_cpu (lk s) = Some i \<longleftrightarrow> pcs s i \<in> {Crit, RelCpu}" "\<And>i. pcs s i \<noteq> Panicked"
    "\<And>i. cpu_ok (cpus s i)" "\<And>i. pcs s i \<noteq> Idle \<Longrightarrow> 0 < noff (cpus s i)"
  shows "lock_inv s ow"
  using assms by (simp add: lock_inv_def)

lemma lock_invD:
  assumes "lock_inv s ow"
  shows "owns (pcs s i) \<longleftrightarrow> ow = Some i" "locked (lk s) \<longleftrightarrow> ow \<noteq> None"
    "lk_cpu (lk s) = Some i \<longleftrightarrow> pcs s i \<in> {Crit, RelCpu}" "pcs s i \<noteq> Panicked"
    "cpu_ok (cpus s i)" "pcs s i \<noteq> Idle \<Longrightarrow> 0 < noff (cpus s i)"
  using assms by (simp_all add: lock_inv_def)

lemma owns_simps [simp]:
  "\<not> owns Idle" "\<not> owns AcqCheck" "\<not> owns AcqSpin" "owns AcqOwn" "owns Crit" "owns RelCpu"
  "owns RelUnlock" "\<not> owns RelPop"
  by (simp_all add: owns_def)

lemma lock_inv_step:
  assumes "lock_step s t" "lock_inv s ow"
  shows "\<exists>ow'. lock_inv t ow'"
proof -
  note D = lock_invD [OF assms(2)]
  have owner: "ow = Some i" if "owns (pcs s i)" for i using that D(1) by simp
  have free: "ow \<noteq> Some i" if "\<not> owns (pcs s i)" for i using that D(1) by simp
  have others: "pcs s j \<noteq> Crit" "pcs s j \<noteq> RelCpu" if "owns (pcs s i)" "j \<noteq> i" for i j
    using owner [of j] owner [of i] that by auto
  show ?thesis
    using assms(1)
  proof (cases rule: lock_step.cases)
    case (acq_push i)
    have "lock_inv t ow"
      by (rule lock_invI) (use acq_push D free [of i] in \<open>auto simp: cpu_ok_def split: if_splits\<close>)
    then show ?thesis ..
  next
    case (acq_check i)
    have "\<not> holding i (lk s)" using acq_check D(3) [of i] by (simp add: holding_def)
    then have "lock_inv t ow"
      by (intro lock_invI) (use acq_check D free [of i] in \<open>auto split: if_splits\<close>)
    then show ?thesis ..
  next
    case (acq_swap i)
    have "lock_inv t (if locked (lk s) then ow else Some i)"
      by (rule lock_invI) (use acq_swap D free [of i] in \<open>auto split: if_splits\<close>)
    then show ?thesis ..
  next
    case (acq_own i)
    have ow: "ow = Some i" using acq_own by (intro owner) simp
    then have "lock_inv t ow"
      by (intro lock_invI) (use acq_own D others [of i] in \<open>auto split: if_splits\<close>)
    then show ?thesis ..
  next
    case (rel_check i)
    have "ow = Some i" using rel_check by (intro owner) simp
    then have "holding i (lk s)" using rel_check D(2) D(3) [of i] by (simp add: holding_def)
    then have "lock_inv t ow"
      by (intro lock_invI) (use rel_check D \<open>ow = Some i\<close> in \<open>auto split: if_splits\<close>)
    then show ?thesis ..
  next
    case (rel_cpu i)
    have "ow = Some i" using rel_cpu by (intro owner) simp
    then have "lock_inv t ow"
      by (intro lock_invI) (use rel_cpu D others [of i] in \<open>auto split: if_splits\<close>)
    then show ?thesis ..
  next
    case (rel_unlock i)
    have "ow = Some i" using rel_unlock by (intro owner) simp
    then have "lock_inv t None"
      by (intro lock_invI) (use rel_unlock D in \<open>auto split: if_splits\<close>)
    then show ?thesis ..
  next
    case (rel_pop i)
    obtain c' where c': "pop_off (cpus s i) = Some c'" "cpu_ok c'"
      using pop_off_ok [OF D(5) D(6), of i] rel_pop by auto
    then have "lock_inv t ow"
      by (intro lock_invI) (use rel_pop D free [of i] in \<open>auto split: if_splits\<close>)
    then show ?thesis ..
  qed
qed

lemma lock_reach_inv: "lock_reach s \<Longrightarrow> \<exists>ow. lock_inv s ow"
proof (induction rule: lock_reach.induct)
  case (start s)
  then have "lock_inv s None" by (simp add: lock_inv_def initlock_def)
  then show ?case ..
next
  case (step s t)
  then show ?case by (blast intro: lock_inv_step)
qed

text \<open>A run of one hart from a quiet start up to its critical section.\<close>

definition quiet :: lock_sys where
  "quiet = \<lparr>lk = initlock, pcs = (\<lambda>_. Idle), cpus = (\<lambda>_. \<lparr>noff = 0, intena = False, intr = True\<rparr>)\<rparr>"

definition one_crit :: lock_sys where
  "one_crit = quiet\<lparr>lk := \<lparr>locked = True, lk_cpu = Some 0\<rparr>, pcs := (pcs quiet)(0 := Crit),
     cpus := (cpus quiet)(0 := push_off (cpus quiet 0))\<rparr>"

lemma one_crit_reachable: "lock_reach one_crit"
proof -
  define s1 where "s1 = quiet\<lparr>pcs := (pcs quiet)(0 := AcqCheck), cpus := (cpus quiet)(0 := push_off (cpus quiet 0))\<rparr>"
  define s2 where "s2 = s1\<lparr>pcs := (pcs quiet)(0 := AcqSpin)\<rparr>"
  define s3 where "s3 = s2\<lparr>pcs := (pcs quiet)(0 := AcqOwn), lk := \<lparr>locked = True, lk_cpu = None\<rparr>\<rparr>"
  have 0: "lock_reach quiet" by (rule lock_reach.start) (simp_all add: quiet_def cpu_ok_def)
  have "lock_step quiet s1"
    using lock_step.acq_push [where s = quiet and i = 0] by (simp add: s1_def quiet_def)
  with 0 have 1: "lock_reach s1" by (rule lock_reach.step)
  have "lock_step s1 s2"
    using lock_step.acq_check [where s = s1 and i = 0]
    by (simp add: s2_def s1_def quiet_def initlock_def holding_def)
  with 1 have 2: "lock_reach s2" by (rule lock_reach.step)
  have "lock_step s2 s3"
    using lock_step.acq_swap [where s = s2 and i = 0]
    by (simp add: s3_def s2_def s1_def quiet_def initlock_def)
  with 2 have 3: "lock_reach s3" by (rule lock_reach.step)
  have "lock_step s3 one_crit"
    using lock_step.acq_own [where s = s3 and i = 0]
    by (simp add: one_crit_def s3_def s2_def s1_def quiet_def)
  with 3 show ?thesis by (rule lock_reach.step)
qed

text \<open>C4.  Mutual exclusion: in every reachable state of any number of harts contending for
  the lock, at most one is in its critical section, that hart runs with interrupts off, and no
  hart has panicked in \<open>_acquire\<close>, \<open>_release\<close> or \<open>pop_off\<close>.\<close>

theorem spinlock_mutual_exclusion:
  assumes "lock_reach s"
  shows "(\<forall>i. pcs s i \<noteq> Panicked) \<and> (\<forall>i j. pcs s i = Crit \<and> pcs s j = Crit \<longrightarrow> i = j) \<and>
    (\<forall>i. pcs s i = Crit \<longrightarrow> holding i (lk s) \<and> \<not> intr (cpus s i))"
proof -
  obtain ow where inv: "lock_inv s ow" using lock_reach_inv [OF assms] by blast
  note D = lock_invD [OF inv]
  have "i = j" if "pcs s i = Crit" "pcs s j = Crit" for i j using D(1) [of i] D(1) [of j] that by simp
  moreover have "\<not> intr (cpus s i)" if "pcs s i = Crit" for i using D(5) [of i] D(6) [of i] that by (simp add: cpu_ok_def)
  moreover have "holding i (lk s)" if "pcs s i = Crit" for i
    using D(1) [of i] D(2) D(3) [of i] that by (simp add: holding_def)
  ultimately show ?thesis using D(4) by blast
qed

theorem spinlock_mutual_exclusion_witness:
  "lock_reach one_crit \<and> pcs one_crit 0 = Crit \<and> pcs one_crit 1 \<noteq> Crit \<and> pcs one_crit 1 \<noteq> Panicked \<and> \<not> intr (cpus one_crit 0)"
proof -
  have c: "pcs one_crit 0 = Crit" by (simp add: one_crit_def)
  note m = spinlock_mutual_exclusion [OF one_crit_reachable]
  have "pcs one_crit 1 \<noteq> Crit" using m c by (metis zero_neq_one)
  then show ?thesis using m c one_crit_reachable by blast
qed

end
