(* ===== verification/Buddy.thy ===== *)
theory Buddy
  imports Spinlock
begin

text \<open>
  The buddy allocator (\<^verbatim>\<open>src/include/memory/buddy.h\<close>, \<^verbatim>\<open>src/src/mm/buddy.c\<close>): the model.

  A \<^verbatim>\<open>struct page *\<close> is the index of the page in the metadata array that starts at
  \<^verbatim>\<open>pagemeta_start\<close>; the array itself is a function from indices, passed along
  explicitly because every pool updates its own slice of it.  An intrusive free list is the
  list of the indices it links, the first entry first.  Offsets and sizes are 64-bit words,
  with the code's exclusive-or on them.
\<close>

section \<open>Data\<close>

definition PGSIZE :: u64 where "PGSIZE = 4096"

definition BUDDY_MAX_ORDER :: nat where "BUDDY_MAX_ORDER = 13"

definition START_MEM :: u64 where "START_MEM = 0x82800000"

definition PHYSTOP :: u64 where "PHYSTOP = 0x80000000 + 1024 * 1024 * 128"

text \<open>The QEMU build sets \<^verbatim>\<open>-DNCPU=2\<close>.\<close>

definition NCPU :: nat where "NCPU = 2"

definition NPAGES :: nat where "NPAGES = unat ((PHYSTOP - START_MEM) div PGSIZE)"

definition PAGES_PER_CPU :: nat where "PAGES_PER_CPU = NPAGES div NCPU"

text \<open>\<^verbatim>\<open>sizeof(struct page)\<close> on RV64, from the fields below (two ints, two list pointers, a
  24-byte spinlock, a padded counter, two words and a pointer).\<close>

definition sizeof_page :: nat where "sizeof_page = 80"

record page =
  allocated :: bool
  order :: nat
  pg_lock :: spinlock
  refcnt :: int
  flags :: u64
  pg_mapping :: u64
  pg_index :: u64

record free_list =
  lists :: "nat list"
  num :: int

record phys_mem_pool =
  start_addr :: u64
  mem_size :: u64
  page_metadata :: nat
  pool_lock :: spinlock
  freelists :: "nat \<Rightarrow> free_list"

type_synonym pagemeta = "nat \<Rightarrow> page"

text \<open>\<^verbatim>\<open>page_to_pa\<close> and \<^verbatim>\<open>pa_to_page\<close>, with the assertion of the latter.\<close>

definition page_to_pa :: "nat \<Rightarrow> u64" where
  "page_to_pa p = of_nat p * PGSIZE + START_MEM"

definition pa_to_page :: "u64 \<Rightarrow> nat option" where
  "pa_to_page pa = do {
     ASSERT ((pa - START_MEM) mod PGSIZE = 0);
     Some (unat ((pa - START_MEM) div PGSIZE))
   }"

section \<open>Free lists\<close>

text \<open>\<open>list_add\<close> on the list of order \<open>k\<close> with its counter, and \<open>list_del\<close> of an entry of it.\<close>

definition freelist_add :: "phys_mem_pool \<Rightarrow> nat \<Rightarrow> nat \<Rightarrow> phys_mem_pool" where
  "freelist_add pool k p =
     (let fl = freelists pool k in
      pool\<lparr>freelists := (freelists pool)(k := fl\<lparr>lists := p # lists fl, num := num fl + 1\<rparr>)\<rparr>)"

definition freelist_del :: "phys_mem_pool \<Rightarrow> nat \<Rightarrow> nat \<Rightarrow> phys_mem_pool" where
  "freelist_del pool k p =
     (let fl = freelists pool k in
      pool\<lparr>freelists := (freelists pool)(k := fl\<lparr>lists := remove1 p (lists fl), num := num fl - 1\<rparr>)\<rparr>)"

section \<open>Buddies\<close>

definition page_to_offset :: "phys_mem_pool \<Rightarrow> nat \<Rightarrow> u64" where
  "page_to_offset pool p = of_nat (p - page_metadata pool) * PGSIZE"

definition offset_to_page :: "phys_mem_pool \<Rightarrow> u64 \<Rightarrow> nat option" where
  "offset_to_page pool off = do {
     ASSERT (off mod PGSIZE = 0);
     Some (unat (off div PGSIZE) + page_metadata pool)
   }"

definition get_buddy :: "phys_mem_pool \<Rightarrow> pagemeta \<Rightarrow> nat \<Rightarrow> nat option option" where
  "get_buddy pool pgs p = do {
     ASSERT (order (pgs p) < BUDDY_MAX_ORDER);
     let this_off = page_to_offset pool p;
     let buddy_off = this_off XOR push_bit (order (pgs p) + 12) 1;
     if mem_size pool \<le> buddy_off then Some None
     else do {
       b \<leftarrow> offset_to_page pool buddy_off;
       Some (Some b)
     }
   }"

lemma get_buddy_order: "get_buddy pool pgs p = Some bo \<Longrightarrow> order (pgs p) < BUDDY_MAX_ORDER"
  by (simp add: get_buddy_def split: if_splits)

section \<open>Splitting and merging\<close>

text \<open>The loop of \<^verbatim>\<open>split_page\<close>: halve the block and put the upper half on its list until
  the block has the wanted order.  A \<^verbatim>\<open>NULL\<close> buddy would be dereferenced: no result.\<close>

function split_page_loop :: "phys_mem_pool \<Rightarrow> pagemeta \<Rightarrow> nat \<Rightarrow> nat \<Rightarrow> (phys_mem_pool \<times> pagemeta) option" where
  "split_page_loop pool pgs ord p =
     (if ord < order (pgs p) then do {
        let pgs1 = pgs(p := (pgs p)\<lparr>order := order (pgs p) - 1\<rparr>);
        bo \<leftarrow> get_buddy pool pgs1 p;
        buddy \<leftarrow> bo;
        ASSERT (\<not> allocated (pgs1 buddy));
        let pgs2 = pgs1(buddy := (pgs1 buddy)\<lparr>order := order (pgs1 p)\<rparr>);
        split_page_loop (freelist_add pool (order (pgs2 buddy)) buddy) pgs2 ord p
      } else Some (pool, pgs))"
  by pat_completeness auto
termination
  by (relation "measure (\<lambda>(pool, pgs, ord, p). order (pgs p))") auto

function merge_page :: "phys_mem_pool \<Rightarrow> pagemeta \<Rightarrow> nat \<Rightarrow> (phys_mem_pool \<times> pagemeta \<times> nat) option" where
  "merge_page pool pgs p =
     (if order (pgs p) = BUDDY_MAX_ORDER then Some (pool, pgs, p)
      else do {
        bo \<leftarrow> get_buddy pool pgs p;
        case bo of
          None \<Rightarrow> Some (pool, pgs, p)
        | Some buddy \<Rightarrow>
            if \<not> allocated (pgs buddy) \<and> order (pgs buddy) = order (pgs p) then
              let pool1 = freelist_del pool (order (pgs buddy)) buddy;
                  m = (if buddy < p then buddy else p);
                  pgs1 = pgs(m := (pgs m)\<lparr>order := order (pgs m) + 1\<rparr>)
              in merge_page pool1 pgs1 m
            else Some (pool, pgs, p)
      })"
  by pat_completeness auto
termination
  by (relation "measure (\<lambda>(pool, pgs, p). BUDDY_MAX_ORDER - order (pgs p))")
    (auto dest!: get_buddy_order)

definition split_page :: "phys_mem_pool \<Rightarrow> pagemeta \<Rightarrow> nat \<Rightarrow> nat \<Rightarrow> (phys_mem_pool \<times> pagemeta) option" where
  "split_page pool pgs ord p = do {
     ASSERT (ord < order (pgs p));
     split_page_loop pool pgs ord p
   }"

section \<open>Allocation and release\<close>

text \<open>The search loop takes the first entry of the first non-empty list and decrements the
  counter of the order the page records.\<close>

definition freelist_pop :: "phys_mem_pool \<Rightarrow> nat \<Rightarrow> phys_mem_pool" where
  "freelist_pop pool i =
     (let fl = freelists pool i in
      pool\<lparr>freelists := (freelists pool)(i := fl\<lparr>lists := tl (lists fl)\<rparr>)\<rparr>)"

definition freelist_num_dec :: "phys_mem_pool \<Rightarrow> nat \<Rightarrow> phys_mem_pool" where
  "freelist_num_dec pool k =
     (let fl = freelists pool k in
      pool\<lparr>freelists := (freelists pool)(k := fl\<lparr>num := num fl - 1\<rparr>)\<rparr>)"

fun find_free :: "phys_mem_pool \<Rightarrow> pagemeta \<Rightarrow> nat list \<Rightarrow> (phys_mem_pool \<times> nat) option" where
  "find_free pool pgs [] = None"
| "find_free pool pgs (i # is) =
     (case lists (freelists pool i) of
        [] \<Rightarrow> find_free pool pgs is
      | p # _ \<Rightarrow> Some (freelist_num_dec (freelist_pop pool i) (order (pgs p)), p))"

text \<open>The critical sections of \<^verbatim>\<open>buddy_get_pages\<close> and \<^verbatim>\<open>buddy_free_pages\<close>.\<close>

definition buddy_get_locked ::
  "phys_mem_pool \<Rightarrow> pagemeta \<Rightarrow> nat \<Rightarrow> (phys_mem_pool \<times> pagemeta \<times> nat option) option" where
  "buddy_get_locked pool pgs ord =
     (case find_free pool pgs [ord..<Suc BUDDY_MAX_ORDER] of
        None \<Rightarrow> Some (pool, pgs, None)
      | Some (pool1, p) \<Rightarrow> do {
          (pool2, pgs2) \<leftarrow>
            (if ord < order (pgs p) then split_page pool1 pgs ord p else Some (pool1, pgs));
          let pgs3 = pgs2(p := (pgs2 p)\<lparr>allocated := True\<rparr>);
          ASSERT (order (pgs3 p) = ord);
          Some (pool2, pgs3, Some p)
        })"

definition buddy_free_locked :: "phys_mem_pool \<Rightarrow> pagemeta \<Rightarrow> nat \<Rightarrow> (phys_mem_pool \<times> pagemeta) option" where
  "buddy_free_locked pool pgs p = do {
     let pgs1 = pgs(p := (pgs p)\<lparr>allocated := False\<rparr>);
     (pool2, pgs2, q) \<leftarrow>
       (if order (pgs1 p) < BUDDY_MAX_ORDER then merge_page pool pgs1 p else Some (pool, pgs1, p));
     Some (freelist_add pool2 (order (pgs2 q)) q, pgs2)
   }"

text \<open>The whole functions: the interrupt nesting the caller opened is closed first, and the
  pool's lock brackets the critical section.\<close>

definition buddy_get_pages ::
  "nat \<Rightarrow> thread_cpu \<Rightarrow> phys_mem_pool \<Rightarrow> pagemeta \<Rightarrow> nat \<Rightarrow>
     (thread_cpu \<times> phys_mem_pool \<times> pagemeta \<times> nat option) option" where
  "buddy_get_pages i c pool pgs ord = do {
     c1 \<leftarrow> pop_off c;
     ASSERT (ord \<le> BUDDY_MAX_ORDER);
     (lk1, c2) \<leftarrow> acquire i (pool_lock pool) c1;
     (pool2, pgs2, r) \<leftarrow> buddy_get_locked (pool\<lparr>pool_lock := lk1\<rparr>) pgs ord;
     (lk3, c3) \<leftarrow> release i (pool_lock pool2) c2;
     Some (c3, pool2\<lparr>pool_lock := lk3\<rparr>, pgs2, r)
   }"

definition buddy_free_pages ::
  "nat \<Rightarrow> thread_cpu \<Rightarrow> phys_mem_pool \<Rightarrow> pagemeta \<Rightarrow> nat \<Rightarrow>
     (thread_cpu \<times> phys_mem_pool \<times> pagemeta) option" where
  "buddy_free_pages i c pool pgs p = do {
     (lk1, c1) \<leftarrow> acquire i (pool_lock pool) c;
     (pool2, pgs2) \<leftarrow> buddy_free_locked (pool\<lparr>pool_lock := lk1\<rparr>) pgs p;
     (lk2, c2) \<leftarrow> release i (pool_lock pool2) c1;
     Some (c2, pool2\<lparr>pool_lock := lk2\<rparr>, pgs2)
   }"

section \<open>Initialisation\<close>

definition empty_free_list :: free_list where
  "empty_free_list = \<lparr>lists = [], num = 0\<rparr>"

definition zero_page :: page where
  "zero_page = \<lparr>allocated = False, order = 0, pg_lock = \<lparr>locked = False, lk_cpu = None\<rparr>,
     refcnt = 0, flags = 0, pg_mapping = 0, pg_index = 0\<rparr>"

text \<open>\<^verbatim>\<open>memset\<close> of the metadata slice, then the loop that marks every page allocated.\<close>

fun clear_metadata :: "pagemeta \<Rightarrow> nat list \<Rightarrow> pagemeta" where
  "clear_metadata pgs [] = pgs"
| "clear_metadata pgs (p # ps) = clear_metadata (pgs(p := zero_page)) ps"

fun mark_allocated :: "pagemeta \<Rightarrow> nat list \<Rightarrow> pagemeta" where
  "mark_allocated pgs [] = pgs"
| "mark_allocated pgs (p # ps) =
     mark_allocated (pgs(p := (pgs p)\<lparr>allocated := True, order := 0, pg_lock := initlock\<rparr>)) ps"

fun free_each :: "nat \<Rightarrow> thread_cpu \<Rightarrow> phys_mem_pool \<Rightarrow> pagemeta \<Rightarrow> nat list \<Rightarrow>
    (thread_cpu \<times> phys_mem_pool \<times> pagemeta) option" where
  "free_each i c pool pgs [] = Some (c, pool, pgs)"
| "free_each i c pool pgs (p # ps) = do {
     (c1, pool1, pgs1) \<leftarrow> buddy_free_pages i c pool pgs p;
     free_each i c1 pool1 pgs1 ps
   }"

text \<open>The sum of the free blocks: \<^verbatim>\<open>int\<close> products accumulated in a \<^verbatim>\<open>uint64\<close>.  The products are exact here;
  a pool of the kernel has 11264 pages, so that none of them comes near the range of an \<^verbatim>\<open>int\<close>.\<close>

fun sum_freelists :: "phys_mem_pool \<Rightarrow> nat list \<Rightarrow> u64 \<Rightarrow> u64" where
  "sum_freelists pool [] memsize = memsize"
| "sum_freelists pool (i # is) memsize =
     sum_freelists pool is (memsize + of_int (num (freelists pool i) * 4096 * 2 ^ i))"

text \<open>\<open>meta_addr\<close> is the address \<^verbatim>\<open>pagemeta_start\<close>, which follows from the linker symbol
  \<^verbatim>\<open>end\<close>.\<close>

definition init_buddy ::
  "nat \<Rightarrow> nat \<Rightarrow> thread_cpu \<Rightarrow> pagemeta \<Rightarrow> nat \<Rightarrow> u64 \<Rightarrow> nat \<Rightarrow>
     (thread_cpu \<times> phys_mem_pool \<times> pagemeta) option" where
  "init_buddy meta_addr i c pgs start_page start page_num = do {
     ASSERT (meta_addr + start_page * sizeof_page + page_num * sizeof_page < unat START_MEM);
     let pool = \<lparr>start_addr = start, mem_size = PGSIZE * of_nat page_num, page_metadata = start_page,
                 pool_lock = initlock, freelists = (\<lambda>_. empty_free_list)\<rparr>;
     let pgs1 = clear_metadata pgs [start_page..<start_page + page_num];
     let pgs2 = mark_allocated pgs1 [start_page..<start_page + page_num];
     (c3, pool3, pgs3) \<leftarrow> free_each i c pool pgs2 [start_page..<start_page + page_num];
     ASSERT (sum_freelists pool3 [0..<Suc BUDDY_MAX_ORDER] 0 = mem_size pool3);
     Some (c3, pool3, pgs3)
   }"

end
