(* ===== verification/Alloc_Spec.thy ===== *)
theory Alloc_Spec
  imports Prelude
begin

text \<open>
  The contract of a page allocator, as its clients rely on it: \<open>free\<close> is the set of free pages,
  \<open>live\<close> maps the first page of every block that the allocator regards as handed out to the block's
  order, \<open>base\<close> is the page that alignment is counted from.  The laws say what one request does;
  the lemmas of the locale follow for every sequence of requests, about the blocks that the clients
  were actually given.
\<close>

text \<open>A block is its first page and its order.\<close>

definition block_pages :: "nat \<times> nat \<Rightarrow> nat set" where
  "block_pages b = {fst b..<fst b + 2 ^ snd b}"

definition held_pages :: "(nat \<times> nat) list \<Rightarrow> nat set" where
  "held_pages bs = (\<Union>b\<in>set bs. block_pages b)"

primrec blocks_disjoint :: "(nat \<times> nat) list \<Rightarrow> bool" where
  "blocks_disjoint [] = True"
| "blocks_disjoint (b # bs) \<longleftrightarrow> block_pages b \<inter> held_pages bs = {} \<and> blocks_disjoint bs"

text \<open>A run of requests, with the list of the blocks the clients hold.  \<open>Get k\<close> asks for a block of
  order \<open>k\<close> and adds the block that the allocator returns; \<open>Put j\<close> gives back the \<open>j\<close>-th block held.\<close>

datatype alloc_req = Get nat | Put nat

fun alloc_run :: "('s \<Rightarrow> nat \<Rightarrow> ('s \<times> nat option) option) \<Rightarrow> ('s \<Rightarrow> nat \<Rightarrow> 's option) \<Rightarrow>
    's \<Rightarrow> (nat \<times> nat) list \<Rightarrow> alloc_req list \<Rightarrow> ('s \<times> (nat \<times> nat) list) option" where
  "alloc_run get put s held [] = Some (s, held)"
| "alloc_run get put s held (Get k # rs) = do {
     (s', r) \<leftarrow> get s k;
     alloc_run get put s' (case r of None \<Rightarrow> held | Some p \<Rightarrow> (p, k) # held) rs
   }"
| "alloc_run get put s held (Put j # rs) =
     (if j < length held then do {
        s' \<leftarrow> put s (fst (held ! j));
        alloc_run get put s' (take j held @ drop (Suc j) held) rs
      }
      else alloc_run get put s held rs)"

fun order_ok :: "nat \<Rightarrow> alloc_req \<Rightarrow> bool" where
  "order_ok m (Get k) \<longleftrightarrow> k \<le> m"
| "order_ok m (Put j) \<longleftrightarrow> True"

section \<open>Lists of blocks\<close>

lemma held_simps [simp]:
  "held_pages [] = {}" "held_pages (b # bs) = block_pages b \<union> held_pages bs"
  "held_pages (as @ bs) = held_pages as \<union> held_pages bs"
  by (auto simp: held_pages_def)

lemma blocks_disjoint_append [simp]:
  "blocks_disjoint (as @ bs) \<longleftrightarrow> blocks_disjoint as \<and> blocks_disjoint bs \<and> held_pages as \<inter> held_pages bs = {}"
  by (induction as) auto

lemma block_head: "fst b \<in> block_pages b"
  by (simp add: block_pages_def)

lemma disjoint_not_head: "block_pages b \<inter> held_pages bs = {} \<Longrightarrow> fst b \<notin> fst ` set bs"
proof
  assume d: "block_pages b \<inter> held_pages bs = {}" and "fst b \<in> fst ` set bs"
  then obtain c where "c \<in> set bs" "fst c = fst b" by auto
  then have "fst b \<in> held_pages bs" using block_head [of c] by (auto simp: held_pages_def)
  then show False using d block_head [of b] by auto
qed

lemma disjoint_distinct: "blocks_disjoint bs \<Longrightarrow> distinct (map fst bs)"
  by (induction bs) (auto dest: disjoint_not_head)

text \<open>Taking one block out of the middle.\<close>

lemma held_remove:
  assumes "blocks_disjoint (as @ b # bs)"
  shows "blocks_disjoint (as @ bs)" "held_pages (as @ b # bs) = held_pages (as @ bs) \<union> block_pages b"
    "block_pages b \<inter> held_pages (as @ bs) = {}"
    "map_of (as @ bs) = (map_of (as @ b # bs))(fst b := None)" "map_of (as @ b # bs) (fst b) = Some (snd b)"
proof -
  have d: "distinct (map fst (as @ b # bs))" by (rule disjoint_distinct [OF assms])
  show "blocks_disjoint (as @ bs)" "held_pages (as @ b # bs) = held_pages (as @ bs) \<union> block_pages b"
    "block_pages b \<inter> held_pages (as @ bs) = {}" using assms by auto
  have "map_of as (fst b) = None" "map_of bs (fst b) = None"
    using d by (auto simp: map_of_eq_None_iff)
  then show "map_of (as @ bs) = (map_of (as @ b # bs))(fst b := None)" "map_of (as @ b # bs) (fst b) = Some (snd b)"
    by (auto simp: fun_eq_iff map_add_def split: option.splits)
qed

section \<open>The contract\<close>

locale page_allocator =
  fixes inv :: "'s \<Rightarrow> bool"
    and free :: "'s \<Rightarrow> nat set"
    and live :: "'s \<Rightarrow> nat \<rightharpoonup> nat"
    and base :: "'s \<Rightarrow> nat"
    and max_order :: nat
    and get :: "'s \<Rightarrow> nat \<Rightarrow> ('s \<times> nat option) option"
    and put :: "'s \<Rightarrow> nat \<Rightarrow> 's option"
  assumes get_law: "inv s \<Longrightarrow> k \<le> max_order \<Longrightarrow>
      \<exists>s' r. get s k = Some (s', r) \<and> inv s' \<and> base s' = base s \<and>
        (case r of
           None \<Rightarrow> free s' = free s \<and> live s' = live s \<and>
             (\<forall>p. base s \<le> p \<longrightarrow> 2 ^ k dvd p - base s \<longrightarrow> \<not> block_pages (p, k) \<subseteq> free s)
         | Some p \<Rightarrow> block_pages (p, k) \<subseteq> free s \<and> free s' = free s - block_pages (p, k) \<and>
             base s \<le> p \<and> 2 ^ k dvd p - base s \<and> live s' = (live s)(p \<mapsto> k))"
    and put_law: "inv s \<Longrightarrow> live s p = Some k \<Longrightarrow>
      \<exists>s'. put s p = Some s' \<and> inv s' \<and> base s' = base s \<and> free s' = free s \<union> block_pages (p, k) \<and>
        live s' = (live s)(p := None)"
begin

text \<open>The allocator and its clients agree: what it regards as handed out is what they hold, and the
  blocks held are aligned, disjoint and not free.\<close>

definition agrees :: "'s \<Rightarrow> (nat \<times> nat) list \<Rightarrow> bool" where
  "agrees s held \<longleftrightarrow> inv s \<and> live s = map_of held \<and> blocks_disjoint held \<and> held_pages held \<inter> free s = {} \<and>
     (\<forall>(p, k)\<in>set held. base s \<le> p \<and> 2 ^ k dvd p - base s)"

lemma get_agrees:
  assumes a: "agrees s held" and k: "k \<le> max_order"
  shows "\<exists>s' r. get s k = Some (s', r) \<and> base s' = base s \<and>
    agrees s' (case r of None \<Rightarrow> held | Some p \<Rightarrow> (p, k) # held) \<and>
    free s' \<union> held_pages (case r of None \<Rightarrow> held | Some p \<Rightarrow> (p, k) # held) = free s \<union> held_pages held"
proof -
  have i: "inv s" and l: "live s = map_of held" and d: "blocks_disjoint held" and f: "held_pages held \<inter> free s = {}"
    and al: "\<forall>(p, k)\<in>set held. base s \<le> p \<and> 2 ^ k dvd p - base s" using a by (auto simp: agrees_def)
  from get_law [OF i k] obtain s' r where g: "get s k = Some (s', r)" "inv s'" "base s' = base s"
    "case r of None \<Rightarrow> free s' = free s \<and> live s' = live s \<and>
        (\<forall>p. base s \<le> p \<longrightarrow> 2 ^ k dvd p - base s \<longrightarrow> \<not> block_pages (p, k) \<subseteq> free s)
      | Some p \<Rightarrow> block_pages (p, k) \<subseteq> free s \<and> free s' = free s - block_pages (p, k) \<and>
             base s \<le> p \<and> 2 ^ k dvd p - base s \<and> live s' = (live s)(p \<mapsto> k)" by blast
  show ?thesis
  proof (cases r)
    case None
    then show ?thesis using g i l d f al by (intro exI [of _ s'] exI [of _ r]) (auto simp: agrees_def)
  next
    case (Some p)
    have "agrees s' ((p, k) # held)" using g Some l d f al by (auto simp: agrees_def)
    then show ?thesis using g Some by (intro exI [of _ s'] exI [of _ r]) auto
  qed
qed

lemma put_agrees:
  assumes a: "agrees s held" and j: "j < length held"
  shows "\<exists>s'. put s (fst (held ! j)) = Some s' \<and> base s' = base s \<and> agrees s' (take j held @ drop (Suc j) held) \<and>
    free s' \<union> held_pages (take j held @ drop (Suc j) held) = free s \<union> held_pages held"
proof -
  let ?b = "held ! j" and ?rest = "take j held @ drop (Suc j) held"
  have e: "held = take j held @ ?b # drop (Suc j) held" using j by (rule id_take_nth_drop)
  have i: "inv s" and l: "live s = map_of held" and d: "blocks_disjoint held" and f: "held_pages held \<inter> free s = {}"
    and al: "\<forall>(p, k)\<in>set held. base s \<le> p \<and> 2 ^ k dvd p - base s" using a by (auto simp: agrees_def)
  note h = held_remove [of "take j held" ?b "drop (Suc j) held", folded e, OF d]
  have "live s (fst ?b) = Some (snd ?b)" using l h(5) by simp
  from put_law [OF i this] obtain s' where p: "put s (fst ?b) = Some s'" "inv s'" "base s' = base s"
    "free s' = free s \<union> block_pages ?b" "live s' = (live s)(fst ?b := None)" by auto
  have "set ?rest \<subseteq> set held" using set_take_subset [of j held] set_drop_subset [of "Suc j" held] by auto
  then have al': "\<forall>(p, k)\<in>set ?rest. base s' \<le> p \<and> 2 ^ k dvd p - base s'" using al p(3) by auto
  have "live s' = map_of ?rest" using p(5) l h(4) by simp
  moreover have "held_pages ?rest \<inter> free s' = {}" using h(2,3) f p(4) by auto
  ultimately have "agrees s' ?rest" using p(2) h(1) al' unfolding agrees_def by blast
  moreover have "free s' \<union> held_pages ?rest = free s \<union> held_pages held" using h(2) p(4) by auto
  ultimately show ?thesis using p(1,3) by blast
qed

lemma run_agrees:
  assumes "agrees s held" "\<And>r. r \<in> set rs \<Longrightarrow> order_ok max_order r"
  shows "\<exists>s' held'. alloc_run get put s held rs = Some (s', held') \<and> agrees s' held' \<and> base s' = base s \<and>
    free s' \<union> held_pages held' = free s \<union> held_pages held"
  using assms
proof (induction rs arbitrary: s held)
  case (Cons r rs)
  have rs: "\<And>r. r \<in> set rs \<Longrightarrow> order_ok max_order r" using Cons.prems(2) by simp
  show ?case
  proof (cases r)
    case (Get k)
    then have "k \<le> max_order" using Cons.prems(2) by force
    from get_agrees [OF Cons.prems(1) this] obtain s1 x where g: "get s k = Some (s1, x)" "base s1 = base s"
      "agrees s1 (case x of None \<Rightarrow> held | Some p \<Rightarrow> (p, k) # held)"
      "free s1 \<union> held_pages (case x of None \<Rightarrow> held | Some p \<Rightarrow> (p, k) # held) = free s \<union> held_pages held" by blast
    show ?thesis using Cons.IH [OF g(3) rs] g(1,2,4) Get by simp
  next
    case (Put j)
    show ?thesis
    proof (cases "j < length held")
      case True
      from put_agrees [OF Cons.prems(1) this] obtain s1 where p: "put s (fst (held ! j)) = Some s1" "base s1 = base s"
        "agrees s1 (take j held @ drop (Suc j) held)"
        "free s1 \<union> held_pages (take j held @ drop (Suc j) held) = free s \<union> held_pages held" by blast
      have "alloc_run get put s held (r # rs) = alloc_run get put s1 (take j held @ drop (Suc j) held) rs"
        using Put True p(1) by simp
      then show ?thesis using Cons.IH [OF p(3) rs] p(2,4) by metis
    next
      case False
      then show ?thesis using Cons.IH [OF Cons.prems(1) rs] Put by simp
    qed
  qed
qed simp

text \<open>Any run from a state in which nothing is handed out, and the request after it.\<close>

lemma run_ok:
  assumes "inv s" "live s = Map.empty" "\<And>r. r \<in> set rs \<Longrightarrow> order_ok max_order r"
  shows "\<exists>s' held. alloc_run get put s [] rs = Some (s', held) \<and> inv s' \<and> base s' = base s \<and> blocks_disjoint held \<and>
    held_pages held \<inter> free s' = {} \<and> free s' \<union> held_pages held = free s \<and>
    (\<forall>(p, k)\<in>set held. base s \<le> p \<and> 2 ^ k dvd p - base s)"
proof -
  have "agrees s []" using assms(1,2) by (simp add: agrees_def)
  from run_agrees [OF this, of rs] assms(3) obtain s' held' where
    "alloc_run get put s [] rs = Some (s', held')" "agrees s' held'" "base s' = base s" "free s' \<union> held_pages held' = free s"
    by auto
  then show ?thesis unfolding agrees_def by auto
qed

end

end
