(* ===== verification/Buddy_Correct.thy ===== *)
theory Buddy_Correct
  imports Buddy Alloc_Spec
begin

text \<open>
  The buddy allocator: the invariant and its proofs.

  The pool is at every moment partitioned into aligned blocks of power-of-two sizes
  (\<open>heads_ok\<close>); the free lists hold exactly the free ones (\<open>lists_ok\<close>); no two free buddies of the
  same order coexist (\<open>coalesced\<close>).  During an operation one block may be in limbo, neither
  allocated nor on a list: the set \<open>X\<close>.  At the end the buddy allocator is an interpretation of
  the contract \<open>page_allocator\<close>.
\<close>

section \<open>Buddy arithmetic\<close>

definition buddy_idx :: "nat \<Rightarrow> nat \<Rightarrow> nat" where
  "buddy_idx k r = (if odd (r div 2 ^ k) then r - 2 ^ k else r + 2 ^ k)"

lemma xor_exp_eq: "(r::nat) XOR 2 ^ k = buddy_idx k r"
proof -
  have "r XOR 2 ^ k = flip_bit k r"
    by (simp add: flip_bit_eq_xor push_bit_eq_mult)
  also have "\<dots> = buddy_idx k r"
  proof (cases "bit r k")
    case True
    have "set_bit k (unset_bit k r) = r"
      using True by (intro bit_eqI) (auto simp: bit_simps)
    then have "unset_bit k r + 2 ^ k = r"
      by (simp add: set_bit_eq bit_unset_bit_iff)
    then show ?thesis using True
      by (simp add: buddy_idx_def flip_bit_eq_if bit_iff_odd)
  next
    case False
    then show ?thesis
      by (simp add: buddy_idx_def flip_bit_eq_if set_bit_eq bit_iff_odd)
  qed
  finally show ?thesis .
qed

lemma buddy_idx_aligned:
  assumes "2 ^ k dvd r"
  shows "2 ^ k dvd buddy_idx k r" "buddy_idx k r \<noteq> r" "buddy_idx k (buddy_idx k r) = r"
    "2 ^ Suc k dvd min r (buddy_idx k r)"
    "{r..<r + 2 ^ k} \<union> {buddy_idx k r..<buddy_idx k r + 2 ^ k}
       = {min r (buddy_idx k r)..<min r (buddy_idx k r) + 2 ^ Suc k}"
    "max r (buddy_idx k r) = min r (buddy_idx k r) + 2 ^ k"
proof -
  obtain a where a: "r = 2 ^ k * a" using assms by (elim dvdE)
  have pos: "(0::nat) < 2 ^ k" by simp
  have q: "r div 2 ^ k = a" using a by simp
  consider c where "a = 2 * c" | c where "a = Suc (2 * c)"
    by (metis evenE oddE Suc_eq_plus1)
  then have "2 ^ k dvd buddy_idx k r \<and> buddy_idx k r \<noteq> r \<and> buddy_idx k (buddy_idx k r) = r \<and>
    2 ^ Suc k dvd min r (buddy_idx k r) \<and>
    max r (buddy_idx k r) = min r (buddy_idx k r) + 2 ^ k"
  proof cases
    case 1
    then have "buddy_idx k r = 2 ^ k * Suc (2 * c)"
      using q a by (simp add: buddy_idx_def)
    moreover have "buddy_idx k (2 ^ k * Suc (2 * c)) = r"
      unfolding buddy_idx_def using a 1 by simp
    ultimately show ?thesis using a 1 pos by (simp add: min_def max_def)
  next
    case 2
    then have "buddy_idx k r = 2 ^ k * (2 * c)"
      using q a by (simp add: buddy_idx_def)
    moreover have "buddy_idx k (2 ^ k * (2 * c)) = r"
      unfolding buddy_idx_def using a 2 by simp
    ultimately show ?thesis using a 2 pos by (simp add: min_def max_def)
  qed
  then show "2 ^ k dvd buddy_idx k r" "buddy_idx k r \<noteq> r" "buddy_idx k (buddy_idx k r) = r"
    "2 ^ Suc k dvd min r (buddy_idx k r)"
    and m: "max r (buddy_idx k r) = min r (buddy_idx k r) + 2 ^ k" by auto
  show "{r..<r + 2 ^ k} \<union> {buddy_idx k r..<buddy_idx k r + 2 ^ k}
       = {min r (buddy_idx k r)..<min r (buddy_idx k r) + 2 ^ Suc k}"
    using m by (cases "r \<le> buddy_idx k r") (auto simp: min_def max_def)
qed
lemma buddy_offset_eq:
  assumes "r < 2 ^ 50" "k \<le> 13"
  shows "(of_nat r * 4096 :: u64) XOR push_bit (k + 12) 1 = of_nat (buddy_idx k r) * 4096"
    and "buddy_idx k r < 2 ^ 51" 
proof -
  have m: "of_nat x * 4096 = push_bit 12 (of_nat x :: u64)" for x
    by (simp add: push_bit_eq_mult)
  have p: "push_bit (k + 12) 1 = push_bit 12 (of_nat (2 ^ k) :: u64)"
    by (simp add: push_bit_eq_mult power_add)
  have "(of_nat r * 4096 :: u64) XOR push_bit (k + 12) 1
      = push_bit 12 (of_nat r XOR of_nat (2 ^ k))"
    by (simp only: m p push_bit_xor)
  also have "\<dots> = of_nat (buddy_idx k r) * 4096"
    unfolding xor_exp_eq [symmetric] of_nat_xor_eq by (simp only: push_bit_eq_mult) simp
  finally show "(of_nat r * 4096 :: u64) XOR push_bit (k + 12) 1 = of_nat (buddy_idx k r) * 4096" .
  have "(2::nat) ^ k \<le> 2 ^ 13" using assms(2) by (intro power_increasing) auto
  then show "buddy_idx k r < 2 ^ 51" using assms by (auto simp: buddy_idx_def)
qed

lemma unat_page_offset:
  assumes "r < 2 ^ 51"
  shows "unat (of_nat r * 4096 :: u64) = r * 4096"
  using assms by (simp add: unat_word_ariths unat_of_nat)

definition buddy_of :: "nat \<Rightarrow> nat \<Rightarrow> nat \<Rightarrow> nat" where
  "buddy_of base k h = base + buddy_idx k (h - base)"

definition blk :: "pagemeta \<Rightarrow> nat \<Rightarrow> nat set" where
  "blk pgs h = {h..<h + 2 ^ order (pgs h)}"

definition heads_ok :: "nat \<Rightarrow> nat \<Rightarrow> pagemeta \<Rightarrow> nat set \<Rightarrow> bool" where
  "heads_ok base n pgs H \<longleftrightarrow>
     (\<forall>h\<in>H. base \<le> h \<and> order (pgs h) \<le> BUDDY_MAX_ORDER \<and> 2 ^ order (pgs h) dvd h - base) \<and>
     (\<Union>h\<in>H. blk pgs h) = {base..<base + n} \<and>
     (\<forall>g\<in>H. \<forall>h\<in>H. blk pgs g \<inter> blk pgs h \<noteq> {} \<longrightarrow> g = h)"

lemma get_buddy_eq:
  assumes "page_metadata pool = base" "mem_size pool = of_nat n * 4096" "n \<le> 2 ^ 50"
    and "base \<le> p" "p < base + n" "order (pgs p) = k" "k < BUDDY_MAX_ORDER"
  shows "get_buddy pool pgs p =
    Some (if buddy_of base k p < base + n then Some (buddy_of base k p) else None)"
proof -
  define r where "r = p - base"
  have r: "r < 2 ^ 50" "r < n" using assms by (auto simp: r_def)
  have k: "k \<le> 13" using assms(7) by (simp add: BUDDY_MAX_ORDER_def)
  note off = buddy_offset_eq [OF r(1) k]
  have u: "unat (of_nat (buddy_idx k r) * 4096 :: u64) = buddy_idx k r * 4096"
    by (rule unat_page_offset [OF off(2)])
  have un: "unat (of_nat n * 4096 :: u64) = n * 4096"
    using assms(3) by (intro unat_page_offset) simp
  have le: "of_nat n * 4096 \<le> (of_nat (buddy_idx k r) * 4096 :: u64) \<longleftrightarrow> n \<le> buddy_idx k r"
    by (simp only: word_le_nat_alt u un) simp
  have md: "(of_nat (buddy_idx k r) * 4096 :: u64) mod 4096 = 0"
  proof -
    have "unat ((of_nat (buddy_idx k r) * 4096 :: u64) mod 4096) = 0"
      by (simp only: unat_mod u) simp
    then show ?thesis by (simp only: unat_eq_zero)
  qed
  have dv: "unat ((of_nat (buddy_idx k r) * 4096 :: u64) div 4096) = buddy_idx k r"
    by (simp only: unat_div u) simp
  show ?thesis
    using assms(6,7) le md dv off(1)
    by (simp add: get_buddy_def page_to_offset_def offset_to_page_def assms(1,2) PGSIZE_def
        buddy_of_def r_def [symmetric])
qed


lemma heads_okD:
  assumes "heads_ok base n pgs H" "h \<in> H"
  shows "base \<le> h" "order (pgs h) \<le> BUDDY_MAX_ORDER" "2 ^ order (pgs h) dvd h - base"
    "h \<in> blk pgs h" "blk pgs h \<subseteq> {base..<base + n}" "h + 2 ^ order (pgs h) \<le> base + n"
proof -
  show "base \<le> h" "order (pgs h) \<le> BUDDY_MAX_ORDER" "2 ^ order (pgs h) dvd h - base"
    and sub: "blk pgs h \<subseteq> {base..<base + n}"
    using assms by (auto simp: heads_ok_def)
  show "h \<in> blk pgs h" by (simp add: blk_def)
  obtain m where m: "(2::nat) ^ order (pgs h) = Suc m" using not0_implies_Suc by fastforce
  then have "h + m \<in> blk pgs h" by (simp add: blk_def)
  then have "h + m < base + n" using sub by auto
  then show "h + 2 ^ order (pgs h) \<le> base + n" using m by simp
qed

lemma heads_ok_unique:
  assumes "heads_ok base n pgs H" "g \<in> H" "h \<in> H" "x \<in> blk pgs g" "x \<in> blk pgs h"
  shows "g = h"
  using assms unfolding heads_ok_def by blast

lemma heads_ok_cover:
  assumes "heads_ok base n pgs H" "base \<le> x" "x < base + n"
  obtains h where "h \<in> H" "x \<in> blk pgs h"
proof -
  have "x \<in> (\<Union>h\<in>H. blk pgs h)" using assms by (simp add: heads_ok_def)
  then show ?thesis using that by blast
qed

lemma heads_ok_cong:
  assumes "heads_ok base n pgs H" "\<And>h. h \<in> H \<Longrightarrow> order (pgs' h) = order (pgs h)"
  shows "heads_ok base n pgs' H"
proof -
  have b: "h \<in> H \<Longrightarrow> blk pgs' h = blk pgs h" for h using assms(2) by (simp add: blk_def)
  then have "(\<Union>h\<in>H. blk pgs' h) = (\<Union>h\<in>H. blk pgs h)" by simp
  then show ?thesis using assms b by (simp add: heads_ok_def)
qed

text \<open>Two aligned blocks (relative to the pool's first page) that meet are nested.\<close>

lemma rel_blocks_nested:
  fixes g h x base :: nat
  assumes "2 ^ j dvd g - base" "2 ^ k dvd h - base" "j \<le> k" "base \<le> g" "base \<le> h"
    and "x \<in> {g..<g + 2 ^ j}" "x \<in> {h..<h + 2 ^ k}"
  shows "{g..<g + 2 ^ j} \<subseteq> {h..<h + 2 ^ k}"
proof -
  have "{g - base..<g - base + 2 ^ j} \<subseteq> {h - base..<h - base + 2 ^ k}"
    using assms by (intro aligned_blocks_nested [where x = "x - base"]) auto
  then have "h - base \<le> g - base" "g - base + 2 ^ j \<le> h - base + 2 ^ k"
    by (simp_all add: atLeastLessThan_subset_iff)
  then show ?thesis using assms(4,5) by auto
qed

lemma buddy_of_props:
  assumes "2 ^ k dvd h - base" "base \<le> h"
  shows "base \<le> buddy_of base k h" "2 ^ k dvd buddy_of base k h - base" "buddy_of base k h \<noteq> h"
    "buddy_of base k (buddy_of base k h) = h"
    "2 ^ Suc k dvd min h (buddy_of base k h) - base"
    "{h..<h + 2 ^ k} \<union> {buddy_of base k h..<buddy_of base k h + 2 ^ k}
       = {min h (buddy_of base k h)..<min h (buddy_of base k h) + 2 ^ Suc k}"
    "max h (buddy_of base k h) = min h (buddy_of base k h) + 2 ^ k"
proof -
  note b = buddy_idx_aligned [OF assms(1)]
  show "base \<le> buddy_of base k h" "2 ^ k dvd buddy_of base k h - base"
    "buddy_of base k (buddy_of base k h) = h"
    using b assms by (auto simp: buddy_of_def)
  show "buddy_of base k h \<noteq> h" using b(2) by (auto simp: buddy_of_def)
  have m: "min h (buddy_of base k h) - base = min (h - base) (buddy_idx k (h - base))"
    "base + min (h - base) (buddy_idx k (h - base)) = min h (buddy_of base k h)"
    using assms(2) by (auto simp: buddy_of_def min_def)
  show "2 ^ Suc k dvd min h (buddy_of base k h) - base" using b(4) m by simp
  show mx: "max h (buddy_of base k h) = min h (buddy_of base k h) + 2 ^ k"
    using b(6) m assms(2) by (auto simp: buddy_of_def max_def min_def split: if_splits)
  show "{h..<h + 2 ^ k} \<union> {buddy_of base k h..<buddy_of base k h + 2 ^ k}
       = {min h (buddy_of base k h)..<min h (buddy_of base k h) + 2 ^ Suc k}"
    using mx by (cases "h \<le> buddy_of base k h") (auto simp: min_def max_def)
qed

text \<open>The buddy of a block head that lies in the pool is itself a block head, of an
  order at most the same: no larger block can contain it.\<close>

lemma buddy_head:
  assumes ok: "heads_ok base n pgs H" and h: "h \<in> H" and k: "order (pgs h) = k" 
    and b: "b = buddy_of base k h" "b < base + n"
  shows "b \<in> H" "order (pgs b) \<le> k"
proof -
  note hd = heads_okD [OF ok h, unfolded k]
  note bp = buddy_of_props [OF hd(3,1)]
  obtain g where g: "g \<in> H" "b \<in> blk pgs g"
    using heads_ok_cover [OF ok _ b(2)] bp(1) b(1) by blast
  note gd = heads_okD [OF ok g(1)]
  have le: "order (pgs g) \<le> k"
  proof (rule ccontr)
    assume "\<not> order (pgs g) \<le> k"
    then have "{min h b..<min h b + 2 ^ Suc k} \<subseteq> {g..<g + 2 ^ order (pgs g)}"
      using bp(5) gd(1,3) g(2) bp(1,7) hd(1) b(1)
      by (intro rel_blocks_nested [where x = b and base = base]) (auto simp: blk_def min_def max_def)
    moreover have "h \<in> {min h b..<min h b + 2 ^ Suc k}"
      unfolding bp(6) [folded b(1), symmetric] by simp
    ultimately have "h \<in> blk pgs g" unfolding blk_def by blast
    then have "g = h" using heads_ok_unique [OF ok g(1) h] hd(4) by blast
    then show False using k \<open>\<not> order (pgs g) \<le> k\<close> by simp
  qed
  have "{g..<g + 2 ^ order (pgs g)} \<subseteq> {b..<b + 2 ^ k}"
    using gd(1,3) g(2) bp(1,2) b(1) le
    by (intro rel_blocks_nested [where x = b and base = base]) (auto simp: blk_def)
  then have "b = g" using g(2) by (auto simp: blk_def atLeastLessThan_subset_iff)
  then show "b \<in> H" "order (pgs b) \<le> k" using g(1) le by auto
qed


lemma merge_heads:
  assumes ok: "heads_ok base n pgs H" and h: "h \<in> H" "order (pgs h) = k" "k < BUDDY_MAX_ORDER"
    and b: "b = buddy_of base k h" "b \<in> H" "order (pgs b) = k"
    and m: "m = min h b" "m' = max h b"
    and pgs': "order (pgs' m) = Suc k" "\<And>x. x \<noteq> m \<Longrightarrow> order (pgs' x) = order (pgs x)"
  shows "heads_ok base n pgs' (H - {m'})" "blk pgs' m = blk pgs h \<union> blk pgs b"
proof -
  note hd = heads_okD [OF ok h(1), unfolded h(2)]
  note bp = buddy_of_props [OF hd(3,1), folded b(1), folded m]
  have mH: "m \<in> H" "m' \<in> H" "m \<noteq> m'" "{h, b} = {m, m'}"
    using h(1) b(2) m bp(3) by (auto simp: min_def max_def)
  show bm: "blk pgs' m = blk pgs h \<union> blk pgs b"
    using bp(6) h(2) b(3) pgs'(1) by (simp add: blk_def)
  have same: "blk pgs' g = blk pgs g" if "g \<noteq> m" for g using pgs'(2) [OF that] by (simp add: blk_def)
  have un: "(\<Union>g\<in>H - {m'}. blk pgs' g) = (\<Union>g\<in>H. blk pgs g)"
  proof -
    have "(\<Union>g\<in>H - {m'}. blk pgs' g) = blk pgs' m \<union> (\<Union>g\<in>H - {m, m'}. blk pgs' g)"
      using mH by auto
    also have "\<dots> = (blk pgs h \<union> blk pgs b) \<union> (\<Union>g\<in>H - {h, b}. blk pgs g)"
      using bm same mH(4) by auto
    finally show ?thesis using h(1) b(2) by auto
  qed
  have disj: "g = g'" if g: "g \<in> H - {m'}" "g' \<in> H - {m'}" and "x \<in> blk pgs' g" "x \<in> blk pgs' g'" for g g' x
    using that heads_ok_unique [OF ok] bm same mH(4) h(1) b(2)
    by (cases "g = m"; cases "g' = m") (auto simp: doubleton_eq_iff)
  have al: "2 ^ Suc k dvd m - base" "base \<le> m" using bp(1,5) hd(1) m by (auto simp: min_def)
  show "heads_ok base n pgs' (H - {m'})"
    unfolding heads_ok_def
  proof (intro conjI)
    show "(\<Union>g\<in>H - {m'}. blk pgs' g) = {base..<base + n}" using un ok by (simp add: heads_ok_def)
    show "\<forall>g\<in>H - {m'}. base \<le> g \<and> order (pgs' g) \<le> BUDDY_MAX_ORDER \<and> 2 ^ order (pgs' g) dvd g - base"
    proof
      fix g assume "g \<in> H - {m'}"
      then show "base \<le> g \<and> order (pgs' g) \<le> BUDDY_MAX_ORDER \<and> 2 ^ order (pgs' g) dvd g - base"
        using pgs' heads_okD(1-3) [OF ok, of g] al h(3) by (cases "g = m") auto
    qed
    show "\<forall>g\<in>H - {m'}. \<forall>h\<in>H - {m'}. blk pgs' g \<inter> blk pgs' h \<noteq> {} \<longrightarrow> g = h"
      using disj by blast
  qed
qed

lemma split_heads:
  assumes ok: "heads_ok base n pgs H" and h: "h \<in> H" "order (pgs h) = Suc k"
    and b: "b = buddy_of base k h"
    and pgs': "order (pgs' h) = k" "order (pgs' b) = k"
      "\<And>x. x \<noteq> h \<Longrightarrow> x \<noteq> b \<Longrightarrow> order (pgs' x) = order (pgs x)"
  shows "heads_ok base n pgs' (insert b H)" "b = h + 2 ^ k" "b \<notin> H"
    "blk pgs h = blk pgs' h \<union> blk pgs' b" "b \<in> blk pgs h" "blk pgs' h \<inter> blk pgs' b = {}"
proof -
  note hd = heads_okD [OF ok h(1), unfolded h(2)]
  have "even ((h - base) div 2 ^ k)" using hd(3) by auto
  then show bh: "b = h + 2 ^ k" using b hd(1) by (simp add: buddy_of_def buddy_idx_def)
  show bb: "blk pgs h = blk pgs' h \<union> blk pgs' b"
    using bh pgs' h(2) by (auto simp: blk_def)
  show bin: "b \<in> blk pgs h" using bh h(2) by (simp add: blk_def)
  show dis: "blk pgs' h \<inter> blk pgs' b = {}" using bh pgs' by (auto simp: blk_def)
  show nb: "b \<notin> H"
    using heads_ok_unique [OF ok _ h(1), of b b] bin bh by (auto simp: blk_def)
  have same: "blk pgs' g = blk pgs g" if "g \<noteq> h" "g \<noteq> b" for g
    using pgs'(3) [OF that] by (simp add: blk_def)
  have un: "(\<Union>g\<in>insert b H. blk pgs' g) = (\<Union>g\<in>H. blk pgs g)"
  proof -
    have "(\<Union>g\<in>insert b H. blk pgs' g) = blk pgs' b \<union> blk pgs' h \<union> (\<Union>g\<in>H - {h}. blk pgs' g)"
      using h(1) by auto
    also have "(\<Union>g\<in>H - {h}. blk pgs' g) = (\<Union>g\<in>H - {h}. blk pgs g)"
      using same nb by auto
    finally show ?thesis using bb h(1) by auto
  qed
  have hk: "2 ^ k dvd h - base" using hd(3) by (rule power_le_dvd) simp
  have bb': "b - base = (h - base) + 2 ^ k" using bh hd(1) by simp
  have "2 ^ k dvd b - base" unfolding bb' using hk by simp
  then have al: "2 ^ k dvd h - base" "2 ^ k dvd b - base" "base \<le> b"
    using hk hd(1) bh by auto
  have disj: "g = g'" if g: "g \<in> insert b H" "g' \<in> insert b H" and "x \<in> blk pgs' g" "x \<in> blk pgs' g'" for g g' x
  proof -
    have sub: "y \<in> blk pgs (if z = b then h else z) \<and> (if z = b then h else z) \<in> H"
      if "z \<in> insert b H" "y \<in> blk pgs' z" for y z
    proof (cases "z = b \<or> z = h")
      case True
      then show ?thesis using that(2) bb h(1) nb by auto
    next
      case False
      then show ?thesis using that same [of z] by simp
    qed
    have "(if g = b then h else g) = (if g' = b then h else g')"
      using sub [OF g(1) that(3)] sub [OF g(2) that(4)] heads_ok_unique [OF ok] by blast
    then show ?thesis using dis that(3,4) g nb by (auto split: if_splits)
  qed
  show "heads_ok base n pgs' (insert b H)"
    unfolding heads_ok_def
  proof (intro conjI)
    show "(\<Union>g\<in>insert b H. blk pgs' g) = {base..<base + n}" using un ok by (simp add: heads_ok_def)
    show "\<forall>g\<in>insert b H. base \<le> g \<and> order (pgs' g) \<le> BUDDY_MAX_ORDER \<and> 2 ^ order (pgs' g) dvd g - base"
    proof
      fix g assume "g \<in> insert b H"
      then show "base \<le> g \<and> order (pgs' g) \<le> BUDDY_MAX_ORDER \<and> 2 ^ order (pgs' g) dvd g - base"
        using pgs' heads_okD(1-3) [OF ok, of g] al hd(1,2) nb by (cases "g = h"; cases "g = b") auto
    qed
    show "\<forall>g\<in>insert b H. \<forall>h\<in>insert b H. blk pgs' g \<inter> blk pgs' h \<noteq> {} \<longrightarrow> g = h"
      using disj by blast
  qed
qed


definition lists_ok :: "phys_mem_pool \<Rightarrow> pagemeta \<Rightarrow> nat set \<Rightarrow> nat set \<Rightarrow> bool" where
  "lists_ok pool pgs H X \<longleftrightarrow>
     (\<forall>k \<le> BUDDY_MAX_ORDER.
        distinct (lists (freelists pool k)) \<and>
        set (lists (freelists pool k)) =
          {h \<in> H. \<not> allocated (pgs h) \<and> order (pgs h) = k \<and> h \<notin> X} \<and>
        num (freelists pool k) = int (length (lists (freelists pool k))))"

definition coalesced :: "nat \<Rightarrow> pagemeta \<Rightarrow> nat set \<Rightarrow> nat set \<Rightarrow> bool" where
  "coalesced base pgs H X \<longleftrightarrow>
     (\<forall>h \<in> H - X. \<forall>b \<in> H - X.
        \<not> allocated (pgs h) \<longrightarrow> \<not> allocated (pgs b) \<longrightarrow> order (pgs h) = order (pgs b) \<longrightarrow>
        order (pgs h) < BUDDY_MAX_ORDER \<longrightarrow> b \<noteq> buddy_of base (order (pgs h)) h)"

definition pool_wf :: "nat \<Rightarrow> nat set \<Rightarrow> nat set \<Rightarrow> phys_mem_pool \<Rightarrow> pagemeta \<Rightarrow> bool" where
  "pool_wf n H X pool pgs \<longleftrightarrow>
     n \<le> 2 ^ 50 \<and> mem_size pool = of_nat n * 4096 \<and>
     heads_ok (page_metadata pool) n pgs H \<and>
     lists_ok pool pgs H X \<and>
     coalesced (page_metadata pool) pgs H X \<and>
     (\<forall>p \<in> {page_metadata pool..<page_metadata pool + n}. allocated (pgs p) \<longrightarrow> p \<in> H)"

lemma freelist_add_sel [simp]:
  "start_addr (freelist_add pool k p) = start_addr pool"
  "mem_size (freelist_add pool k p) = mem_size pool"
  "page_metadata (freelist_add pool k p) = page_metadata pool"
  "pool_lock (freelist_add pool k p) = pool_lock pool"
  "freelists (freelist_add pool k p) j =
    (if j = k then (freelists pool k)\<lparr>lists := p # lists (freelists pool k), num := num (freelists pool k) + 1\<rparr>
     else freelists pool j)"
  by (simp_all add: freelist_add_def Let_def)

lemma freelist_del_sel [simp]:
  "start_addr (freelist_del pool k p) = start_addr pool"
  "mem_size (freelist_del pool k p) = mem_size pool"
  "page_metadata (freelist_del pool k p) = page_metadata pool"
  "pool_lock (freelist_del pool k p) = pool_lock pool"
  "freelists (freelist_del pool k p) j =
    (if j = k then (freelists pool k)\<lparr>lists := remove1 p (lists (freelists pool k)), num := num (freelists pool k) - 1\<rparr>
     else freelists pool j)"
  by (simp_all add: freelist_del_def Let_def)

text \<open>Taking a free head off its list puts it in limbo; putting a limbo head on the
  list of its order takes it out.\<close>

lemma lists_ok_del:
  assumes "lists_ok pool pgs H X" "h \<in> H" "\<not> allocated (pgs h)" "order (pgs h) = k" "h \<notin> X"
    "k \<le> BUDDY_MAX_ORDER"
  shows "lists_ok (freelist_del pool k h) pgs H (insert h X)"
proof -
  have "h \<in> set (lists (freelists pool k))" using assms by (auto simp: lists_ok_def)
  then have "int (length (remove1 h (lists (freelists pool k)))) = int (length (lists (freelists pool k))) - 1"
    using length_pos_if_in_set [of h] by (simp add: length_remove1 Suc_leI)
  then show ?thesis using assms unfolding lists_ok_def by auto
qed

lemma lists_ok_add:
  assumes "lists_ok pool pgs H (insert h X)" "h \<in> H" "\<not> allocated (pgs h)" "order (pgs h) = k" "h \<notin> X"
  shows "lists_ok (freelist_add pool k h) pgs H X"
  using assms unfolding lists_ok_def by auto


definition free_set :: "phys_mem_pool \<Rightarrow> nat set" where
  "free_set pool = (\<Union>k\<le>BUDDY_MAX_ORDER. \<Union>h\<in>set (lists (freelists pool k)). {h..<h + 2 ^ k})"

lemma free_set_eq:
  assumes "heads_ok base n pgs H" "lists_ok pool pgs H X"
  shows "free_set pool = (\<Union>h\<in>{h \<in> H. \<not> allocated (pgs h) \<and> h \<notin> X}. blk pgs h)"
  using assms(2) heads_okD(2) [OF assms(1)]
  by (auto simp: free_set_def lists_ok_def blk_def; blast)

text \<open>What the steps of the allocator leave alone: the other fields of every page,
  everything of the pages that head an allocated block, and the pages outside the pool.\<close>

definition same_but_order :: "nat set \<Rightarrow> pagemeta \<Rightarrow> pagemeta \<Rightarrow> bool" where
  "same_but_order R pgs pgs' \<longleftrightarrow>
     (\<forall>x. \<exists>k. pgs' x = (pgs x)\<lparr>order := k\<rparr>) \<and> (\<forall>x. allocated (pgs x) \<longrightarrow> pgs' x = pgs x) \<and>
     (\<forall>x. x \<notin> R \<longrightarrow> pgs' x = pgs x)"

definition pool_range :: "nat \<Rightarrow> phys_mem_pool \<Rightarrow> nat set" where
  "pool_range n pool = {page_metadata pool..<page_metadata pool + n}"

lemma same_but_order_refl [simp]: "same_but_order R pgs pgs"
proof -
  have "pgs x = (pgs x)\<lparr>order := order (pgs x)\<rparr>" for x by simp
  then show ?thesis unfolding same_but_order_def by blast
qed

lemma same_but_order_trans:
  assumes "same_but_order R a b" "same_but_order R b c"
  shows "same_but_order R a c"
proof -
  have "\<exists>k. c x = (a x)\<lparr>order := k\<rparr>" for x
  proof -
    obtain j k where "b x = (a x)\<lparr>order := j\<rparr>" "c x = (b x)\<lparr>order := k\<rparr>"
      using assms unfolding same_but_order_def by blast
    then have "c x = (a x)\<lparr>order := k\<rparr>" by simp
    then show ?thesis by blast
  qed
  moreover have "allocated (a x) \<Longrightarrow> c x = a x" "x \<notin> R \<Longrightarrow> c x = a x" for x
    using assms unfolding same_but_order_def by metis+
  ultimately show ?thesis unfolding same_but_order_def by blast
qed

lemma same_but_order_allocated:
  "same_but_order R pgs pgs' \<Longrightarrow> allocated (pgs' x) = allocated (pgs x)"
proof -
  assume "same_but_order R pgs pgs'"
  then obtain k where "pgs' x = (pgs x)\<lparr>order := k\<rparr>" unfolding same_but_order_def by blast
  then show ?thesis by simp
qed

lemma same_but_order_upd:
  assumes "\<not> allocated (pgs m)" "m \<in> R"
  shows "same_but_order R pgs (pgs(m := (pgs m)\<lparr>order := k\<rparr>))"
  unfolding same_but_order_def
proof (intro conjI allI impI)
  fix x
  show "\<exists>j. (pgs(m := (pgs m)\<lparr>order := k\<rparr>)) x = (pgs x)\<lparr>order := j\<rparr>"
    by (rule exI [where x = "if x = m then k else order (pgs x)"]) simp
qed (use assms in auto)

text \<open>What a whole allocation or release of block \<open>p\<close> leaves alone.\<close>

definition pages_frame :: "nat \<Rightarrow> nat set \<Rightarrow> pagemeta \<Rightarrow> pagemeta \<Rightarrow> bool" where
  "pages_frame p R pgs pgs' \<longleftrightarrow>
     (\<forall>x. \<exists>k a. pgs' x = (pgs x)\<lparr>order := k, allocated := a\<rparr>) \<and>
     (\<forall>x. x \<noteq> p \<longrightarrow> allocated (pgs' x) = allocated (pgs x)) \<and>
     (\<forall>x. x \<noteq> p \<longrightarrow> allocated (pgs x) \<longrightarrow> pgs' x = pgs x) \<and>
     (\<forall>x. x \<notin> R \<longrightarrow> pgs' x = pgs x)"

lemma pages_frameI:
  assumes "same_but_order R pgs pgs2" "p \<in> R"
  shows "pages_frame p R pgs (pgs2(p := (pgs2 p)\<lparr>allocated := c\<rparr>))"
  unfolding pages_frame_def
proof (intro conjI allI impI)
  fix x
  obtain k where k: "pgs2 x = (pgs x)\<lparr>order := k\<rparr>"
    using assms unfolding same_but_order_def by blast
  have "(pgs2(p := (pgs2 p)\<lparr>allocated := c\<rparr>)) x =
      (pgs x)\<lparr>order := k, allocated := (if x = p then c else allocated (pgs x))\<rparr>"
    using k by auto
  then show "\<exists>k a. (pgs2(p := (pgs2 p)\<lparr>allocated := c\<rparr>)) x = (pgs x)\<lparr>order := k, allocated := a\<rparr>"
    by blast
  assume "x \<noteq> p"
  then show "allocated ((pgs2(p := (pgs2 p)\<lparr>allocated := c\<rparr>)) x) = allocated (pgs x)"
    using k by simp
qed (use assms in \<open>auto simp: same_but_order_def\<close>)

lemma pages_frameI':
  assumes "same_but_order R (pgs(p := (pgs p)\<lparr>allocated := c\<rparr>)) pgs2" "p \<in> R"
  shows "pages_frame p R pgs pgs2"
  unfolding pages_frame_def
proof (intro conjI allI impI)
  fix x
  obtain k where k: "pgs2 x = ((pgs(p := (pgs p)\<lparr>allocated := c\<rparr>)) x)\<lparr>order := k\<rparr>"
    using assms unfolding same_but_order_def by blast
  then have "pgs2 x = (pgs x)\<lparr>order := k, allocated := (if x = p then c else allocated (pgs x))\<rparr>"
    by auto
  then show "\<exists>k a. pgs2 x = (pgs x)\<lparr>order := k, allocated := a\<rparr>" by blast
  assume "x \<noteq> p"
  then show "allocated (pgs2 x) = allocated (pgs x)" using k by simp
next
  fix x assume "x \<noteq> p" "allocated (pgs x)"
  then show "pgs2 x = pgs x" using assms(1) unfolding same_but_order_def
    by (metis fun_upd_other)
next
  fix x assume "x \<notin> R"
  then show "pgs2 x = pgs x" using assms unfolding same_but_order_def
    by (metis fun_upd_other)
qed

lemma merge_step:
  assumes wf: "pool_wf n H {p} pool pgs" and p: "p \<in> H" "\<not> allocated (pgs p)"
    and k: "order (pgs p) = k" "k < BUDDY_MAX_ORDER"
    and b: "b = buddy_of (page_metadata pool) k p" "b < page_metadata pool + n"
      "\<not> allocated (pgs b)" "order (pgs b) = k"
    and m: "m = min p b" "m' = max p b"
    and pool': "pool' = freelist_del pool k b"
    and pgs': "pgs' = pgs(m := (pgs m)\<lparr>order := Suc k\<rparr>)"
  shows "pool_wf n (H - {m'}) {m} pool' pgs'" "m \<in> H - {m'}" "\<not> allocated (pgs' m)"
    "free_set pool' \<union> blk pgs' m = free_set pool \<union> blk pgs p" "same_but_order (pool_range n pool) pgs pgs'"
proof -
  let ?base = "page_metadata pool"
  have wf': "n \<le> 2 ^ 50" "mem_size pool = of_nat n * 4096" "heads_ok ?base n pgs H"
    "lists_ok pool pgs H {p}" "coalesced ?base pgs H {p}"
    "\<forall>q \<in> {?base..<?base + n}. allocated (pgs q) \<longrightarrow> q \<in> H"
    using wf by (auto simp: pool_wf_def)
  note hd = heads_okD [OF wf'(3) p(1), unfolded k(1)]
  note bp = buddy_of_props [OF hd(3,1), folded b(1)]
  have bH: "b \<in> H" using buddy_head(1) [OF wf'(3) p(1) k(1) b(1,2)] .
  have mm: "{p, b} = {m, m'}" "m \<noteq> m'" "m \<in> H" "\<not> allocated (pgs m)" "order (pgs m) = k"
    "\<not> allocated (pgs m')"
    using m bp(3) p bH b(3,4) k(1) by (auto simp: min_def max_def)
  have ord: "order (pgs' m) = Suc k" "\<And>x. x \<noteq> m \<Longrightarrow> order (pgs' x) = order (pgs x)"
    using pgs' by auto
  have al: "allocated (pgs' x) = allocated (pgs x)" for x using pgs' by simp
  note mh = merge_heads [OF wf'(3) p(1) k(1,2) b(1) bH b(4) m ord]
  have ld: "lists_ok pool' pgs H (insert b {p})"
    unfolding pool' using wf'(4) bH b(3,4) k(2) bp(3) by (intro lists_ok_del) auto
  have lo: "lists_ok pool' pgs' (H - {m'}) {m}"
    unfolding lists_ok_def
  proof (intro allI impI)
    fix j assume j: "j \<le> BUDDY_MAX_ORDER"
    have "{h \<in> H. \<not> allocated (pgs h) \<and> order (pgs h) = j \<and> h \<notin> insert b {p}}
        = {h \<in> H - {m'}. \<not> allocated (pgs' h) \<and> order (pgs' h) = j \<and> h \<notin> {m}}"
      using mm(1) al ord by (auto simp: doubleton_eq_iff)
    then show "distinct (lists (freelists pool' j)) \<and>
        set (lists (freelists pool' j)) = {h \<in> H - {m'}. \<not> allocated (pgs' h) \<and> order (pgs' h) = j \<and> h \<notin> {m}} \<and>
        num (freelists pool' j) = int (length (lists (freelists pool' j)))"
      using ld j by (simp add: lists_ok_def)
  qed
  have co: "coalesced ?base pgs' (H - {m'}) {m}"
  proof -
    have "H - {m'} - {m} \<subseteq> H - {p}" using mm(1) by blast
    then show ?thesis using wf'(5) al ord unfolding coalesced_def by (simp add: subset_iff)
  qed
  show "pool_wf n (H - {m'}) {m} pool' pgs'"
    unfolding pool_wf_def using wf' mh(1) lo co al mm(6) by (auto simp: pool')
  show "m \<in> H - {m'}" using mm by blast
  show "\<not> allocated (pgs' m)" using al mm by simp
  have "free_set pool' = (\<Union>h\<in>{h \<in> H. \<not> allocated (pgs h) \<and> h \<notin> insert b {p}}. blk pgs h)"
    by (rule free_set_eq [OF wf'(3) ld])
  moreover have "free_set pool = (\<Union>h\<in>{h \<in> H. \<not> allocated (pgs h) \<and> h \<notin> {p}}. blk pgs h)"
    by (rule free_set_eq [OF wf'(3,4)])
  moreover have "{h \<in> H. \<not> allocated (pgs h) \<and> h \<notin> {p}} =
      insert b {h \<in> H. \<not> allocated (pgs h) \<and> h \<notin> insert b {p}}"
    using bH b(3) bp(3) by auto
  ultimately show "free_set pool' \<union> blk pgs' m = free_set pool \<union> blk pgs p"
    using mh(2) by auto
  have "m \<in> pool_range n pool"
    using heads_okD(4,5) [OF wf'(3) mm(3)] by (auto simp: pool_range_def)
  then show "same_but_order (pool_range n pool) pgs pgs'"
    unfolding pgs' using mm(4) by (intro same_but_order_upd)
qed


declare merge_page.simps [simp del] split_page_loop.simps [simp del]

text \<open>The free block \<open>q\<close> has no free buddy of its own order in the pool.\<close>

definition no_free_buddy :: "nat \<Rightarrow> phys_mem_pool \<Rightarrow> pagemeta \<Rightarrow> nat \<Rightarrow> bool" where
  "no_free_buddy n pool pgs q \<longleftrightarrow>
     (let b = buddy_of (page_metadata pool) (order (pgs q)) q in
      order (pgs q) < BUDDY_MAX_ORDER \<longrightarrow> b < page_metadata pool + n \<longrightarrow>
      allocated (pgs b) \<or> order (pgs b) \<noteq> order (pgs q))"

definition merged :: "nat \<Rightarrow> phys_mem_pool \<Rightarrow> pagemeta \<Rightarrow> nat \<Rightarrow> phys_mem_pool \<Rightarrow> pagemeta \<Rightarrow> nat \<Rightarrow> bool" where
  "merged n pool pgs p pool' pgs' q \<longleftrightarrow>
     (\<exists>H'. pool_wf n H' {q} pool' pgs' \<and> q \<in> H') \<and> \<not> allocated (pgs' q) \<and>
     no_free_buddy n pool' pgs' q \<and> page_metadata pool' = page_metadata pool \<and>
     start_addr pool' = start_addr pool \<and> pool_lock pool' = pool_lock pool \<and> mem_size pool' = mem_size pool \<and>
     free_set pool' \<union> blk pgs' q = free_set pool \<union> blk pgs p \<and> same_but_order (pool_range n pool) pgs pgs'"

lemma merged_refl:
  assumes "pool_wf n H {p} pool pgs" "p \<in> H" "\<not> allocated (pgs p)" "no_free_buddy n pool pgs p"
  shows "merged n pool pgs p pool pgs p"
  using assms unfolding merged_def by auto

lemma merge_page_correct:
  assumes "pool_wf n H {p} pool pgs" "p \<in> H" "\<not> allocated (pgs p)"
  shows "\<exists>pool' pgs' q. merge_page pool pgs p = Some (pool', pgs', q) \<and> merged n pool pgs p pool' pgs' q"
  using assms
proof (induction pool pgs p arbitrary: H rule: merge_page.induct)
  case (1 pool pgs p)
  let ?k = "order (pgs p)" and ?base = "page_metadata pool"
  define b where "b = buddy_of ?base ?k p"
  have wf: "n \<le> 2 ^ 50" "mem_size pool = of_nat n * 4096" "heads_ok ?base n pgs H"
    using "1.prems"(1) by (auto simp: pool_wf_def)
  note hd = heads_okD [OF wf(3) "1.prems"(2)]
  note noop = merged_refl [OF "1.prems"]
  show ?case
  proof (cases "?k = BUDDY_MAX_ORDER")
    case True
    then show ?thesis using noop
      by (auto simp: merge_page.simps [of pool pgs p] no_free_buddy_def)
  next
    case False
    then have k: "?k < BUDDY_MAX_ORDER" using hd(2) by simp
    have gb: "get_buddy pool pgs p = Some (if b < ?base + n then Some b else None)"
      unfolding b_def using wf hd(1,4,5) k by (intro get_buddy_eq) auto
    show ?thesis
    proof (cases "b < ?base + n \<and> \<not> allocated (pgs b) \<and> order (pgs b) = ?k")
      case False
      then have "merge_page pool pgs p = Some (pool, pgs, p)"
        using k gb by (subst merge_page.simps) auto
      moreover have "no_free_buddy n pool pgs p"
        using False by (auto simp: no_free_buddy_def Let_def b_def)
      ultimately show ?thesis using noop by blast
    next
      case True
      define m where "m = (if b < p then b else p)"
      define pgs1 where "pgs1 = pgs(m := (pgs m)\<lparr>order := order (pgs m) + 1\<rparr>)"
      define pool1 where "pool1 = freelist_del pool (order (pgs b)) b"
      have m: "m = min p b" by (auto simp: m_def)
      have om: "order (pgs m) = ?k" using True by (simp add: m_def)
      have pgs1: "pgs1 = pgs(m := (pgs m)\<lparr>order := Suc ?k\<rparr>)" using om by (simp add: pgs1_def)
      have pool1: "pool1 = freelist_del pool ?k b" using True by (simp add: pool1_def)
      have t: "b < ?base + n" "\<not> allocated (pgs b)" "order (pgs b) = ?k" using True by auto
      note st = merge_step [OF "1.prems" refl k b_def t m refl pool1 pgs1]
      have eq: "merge_page pool pgs p = merge_page pool1 pgs1 m"
        using k gb True by (subst merge_page.simps) (simp add: pool1_def pgs1_def m_def)
      have "\<exists>pool' pgs' q. merge_page pool1 pgs1 m = Some (pool', pgs', q) \<and> merged n pool1 pgs1 m pool' pgs' q"
        using "1.IH" [OF _ gb _ _ pool1_def m_def pgs1_def st(1-3)] k True by auto
      then obtain pool' pgs' q where
        r: "merge_page pool1 pgs1 m = Some (pool', pgs', q)" "merged n pool1 pgs1 m pool' pgs' q"
        by blast
      have "merged n pool pgs p pool' pgs' q"
        using r(2) st(4,5) same_but_order_trans True pool1 unfolding merged_def pool_range_def by auto
      then show ?thesis using eq r(1) by auto
    qed
  qed
qed


definition buddy_inv :: "nat \<Rightarrow> phys_mem_pool \<Rightarrow> pagemeta \<Rightarrow> bool" where
  "buddy_inv n pool pgs \<longleftrightarrow> (\<exists>H. pool_wf n H {} pool pgs)"

lemma release_head:
  assumes wf: "pool_wf n H {q} pool pgs" and q: "q \<in> H" "\<not> allocated (pgs q)" "no_free_buddy n pool pgs q"
  shows "pool_wf n H {} (freelist_add pool (order (pgs q)) q) pgs"
    "free_set (freelist_add pool (order (pgs q)) q) = free_set pool \<union> blk pgs q"
proof -
  let ?base = "page_metadata pool" and ?k = "order (pgs q)"
  have wf': "n \<le> 2 ^ 50" "mem_size pool = of_nat n * 4096" "heads_ok ?base n pgs H"
    "lists_ok pool pgs H {q}" "coalesced ?base pgs H {q}"
    "\<forall>q \<in> {?base..<?base + n}. allocated (pgs q) \<longrightarrow> q \<in> H"
    using wf by (auto simp: pool_wf_def)
  have lo: "lists_ok (freelist_add pool ?k q) pgs H {}"
    using wf'(4) q by (intro lists_ok_add) auto
  have nb: "b \<noteq> buddy_of ?base ?k q"
    if "b \<in> H" "\<not> allocated (pgs b)" "order (pgs b) = ?k" "?k < BUDDY_MAX_ORDER" for b
    using that q(3) heads_okD(4,5) [OF wf'(3) that(1)] by (auto simp: no_free_buddy_def Let_def)
  have "coalesced ?base pgs H {}"
    unfolding coalesced_def
  proof (intro ballI impI)
    fix h b
    assume a: "h \<in> H - {}" "b \<in> H - {}" "\<not> allocated (pgs h)" "\<not> allocated (pgs b)"
      "order (pgs h) = order (pgs b)" "order (pgs h) < BUDDY_MAX_ORDER"
    show "b \<noteq> buddy_of ?base (order (pgs h)) h"
    proof (cases "h = q \<or> b = q")
      case True
      show ?thesis
      proof
        assume e: "b = buddy_of ?base (order (pgs h)) h"
        have "buddy_of ?base (order (pgs h)) b = h"
          unfolding e using heads_okD(1,3) [OF wf'(3), of h] a(1) by (intro buddy_of_props(4)) auto
        with e True show False using nb [of b] nb [of h] a(1-6)
          by (metis DiffD1)
      qed
    next
      case False
      then show ?thesis using wf'(5) a by (auto simp: coalesced_def)
    qed
  qed
  then show "pool_wf n H {} (freelist_add pool ?k q) pgs"
    using wf' lo by (auto simp: pool_wf_def)
  have "{h \<in> H. \<not> allocated (pgs h) \<and> h \<notin> {}} = insert q {h \<in> H. \<not> allocated (pgs h) \<and> h \<notin> {q}}"
    using q by auto
  then show "free_set (freelist_add pool ?k q) = free_set pool \<union> blk pgs q"
    using free_set_eq [OF wf'(3) lo] free_set_eq [OF wf'(3,4)] by auto
qed

lemma buddy_free_locked_correct:
  assumes inv: "buddy_inv n pool pgs"
    and p: "page_metadata pool \<le> p" "p < page_metadata pool + n" "allocated (pgs p)"
  shows "\<exists>pool' pgs'. buddy_free_locked pool pgs p = Some (pool', pgs') \<and> buddy_inv n pool' pgs' \<and>
    page_metadata pool' = page_metadata pool \<and> start_addr pool' = start_addr pool \<and> pool_lock pool' = pool_lock pool \<and>
    mem_size pool' = mem_size pool \<and>
    free_set pool' = free_set pool \<union> blk pgs p \<and> free_set pool \<inter> blk pgs p = {} \<and>
    \<not> allocated (pgs' p) \<and> pages_frame p (pool_range n pool) pgs pgs'"
proof -
  let ?base = "page_metadata pool"
  define pgs1 where "pgs1 = pgs(p := (pgs p)\<lparr>allocated := False\<rparr>)"
  obtain H where wf: "pool_wf n H {} pool pgs" using inv by (auto simp: buddy_inv_def)
  have wf': "n \<le> 2 ^ 50" "mem_size pool = of_nat n * 4096" "heads_ok ?base n pgs H"
    "lists_ok pool pgs H {}" "coalesced ?base pgs H {}"
    "\<forall>q \<in> {?base..<?base + n}. allocated (pgs q) \<longrightarrow> q \<in> H"
    using wf by (auto simp: pool_wf_def)
  have pH: "p \<in> H" using wf'(6) p by auto
  have o1: "order (pgs1 x) = order (pgs x)" for x by (simp add: pgs1_def)
  have b1: "blk pgs1 x = blk pgs x" for x by (simp add: blk_def o1)
  have "heads_ok ?base n pgs1 H" using wf'(3) by (rule heads_ok_cong) (simp add: o1)
  moreover have "lists_ok pool pgs1 H {p}"
  proof -
    have "{h \<in> H. \<not> allocated (pgs h) \<and> order (pgs h) = k \<and> h \<notin> {}} =
      {h \<in> H. \<not> allocated (pgs1 h) \<and> order (pgs1 h) = k \<and> h \<notin> {p}}" for k
      using p(3) by (auto simp: pgs1_def)
    then show ?thesis using wf'(4) by (simp add: lists_ok_def)
  qed
  moreover have "coalesced ?base pgs1 H {p}"
    using wf'(5) by (auto simp: coalesced_def pgs1_def)
  ultimately have wf1: "pool_wf n H {p} pool pgs1"
    using wf' by (auto simp: pool_wf_def pgs1_def)
  have na: "\<not> allocated (pgs1 p)" by (simp add: pgs1_def)
  have fs: "free_set pool \<inter> blk pgs p = {}"
    using free_set_eq [OF wf'(3,4)] heads_ok_unique [OF wf'(3) _ pH] p(3) by auto
  obtain pool2 pgs2 q where
    mg: "(if order (pgs1 p) < BUDDY_MAX_ORDER then merge_page pool pgs1 p else Some (pool, pgs1, p))
       = Some (pool2, pgs2, q)" "merged n pool pgs1 p pool2 pgs2 q"
  proof (cases "order (pgs1 p) < BUDDY_MAX_ORDER")
    case True
    then show ?thesis using merge_page_correct [OF wf1 pH na] that by auto
  next
    case False
    then have "merged n pool pgs1 p pool pgs1 p"
      by (intro merged_refl [OF wf1 pH na]) (auto simp: no_free_buddy_def Let_def)
    then show ?thesis using False that by auto
  qed
  obtain H2 where H2: "pool_wf n H2 {q} pool2 pgs2" "q \<in> H2" using mg(2) by (auto simp: merged_def)
  note rel = release_head [OF H2]
  have "buddy_free_locked pool pgs p = Some (freelist_add pool2 (order (pgs2 q)) q, pgs2)"
    using mg(1) unfolding buddy_free_locked_def Let_def pgs1_def [symmetric] by simp
  moreover have "free_set (freelist_add pool2 (order (pgs2 q)) q) = free_set pool \<union> blk pgs p"
    using rel(2) mg(2) b1 by (simp add: merged_def)
  moreover have "same_but_order (pool_range n pool) pgs1 pgs2" using mg(2) by (simp add: merged_def)
  then have "pages_frame p (pool_range n pool) pgs pgs2" "\<not> allocated (pgs2 p)"
    using pages_frameI' p(1,2) na same_but_order_allocated
    by (auto simp: pool_range_def pgs1_def)
  ultimately show ?thesis
    using rel(1) mg(2) fs unfolding buddy_inv_def merged_def by auto
qed


lemma pool_wfD:
  assumes "pool_wf n H X pool pgs"
  shows "n \<le> 2 ^ 50" "mem_size pool = of_nat n * 4096" "heads_ok (page_metadata pool) n pgs H"
    "lists_ok pool pgs H X" "coalesced (page_metadata pool) pgs H X"
    "\<And>q. page_metadata pool \<le> q \<Longrightarrow> q < page_metadata pool + n \<Longrightarrow> allocated (pgs q) \<Longrightarrow> q \<in> H"
  using assms by (auto simp: pool_wf_def)

lemma split_step:
  assumes wf: "pool_wf n H {p} pool pgs" and p: "p \<in> H" "\<not> allocated (pgs p)"
    and k: "order (pgs p) = Suc k"
    and b: "b = buddy_of (page_metadata pool) k p"
    and pgs': "pgs' = pgs(p := (pgs p)\<lparr>order := k\<rparr>, b := (pgs b)\<lparr>order := k\<rparr>)"
    and pool': "pool' = freelist_add pool k b"
  shows "b < page_metadata pool + n" "b \<noteq> p" "\<not> allocated (pgs b)"
    "pool_wf n (insert b H) {p} pool' pgs'" "\<not> allocated (pgs' p)"
    "free_set pool' \<union> blk pgs' p = free_set pool \<union> blk pgs p" "same_but_order (pool_range n pool) pgs pgs'"
    "blk pgs' p \<subseteq> blk pgs p"
proof -
  let ?base = "page_metadata pool"
  note w = pool_wfD [OF wf]
  note hd = heads_okD [OF w(3) p(1), unfolded k]
  have pk: "2 ^ k dvd p - ?base" using hd(3) by (rule power_le_dvd) simp
  note bp = buddy_of_props [OF pk hd(1), folded b]
  have ord: "order (pgs' p) = k" "order (pgs' b) = k"
    "\<And>x. x \<noteq> p \<Longrightarrow> x \<noteq> b \<Longrightarrow> order (pgs' x) = order (pgs x)"
    using bp(3) by (auto simp: pgs')
  note sh = split_heads [OF w(3) p(1) k b ord]
  have al: "allocated (pgs' x) = allocated (pgs x)" for x by (simp add: pgs')
  show bn: "b < ?base + n" using sh(5) hd(5) by auto
  show "b \<noteq> p" by (rule bp(3))
  show nb: "\<not> allocated (pgs b)" using w(6) [of b] bp(1) bn sh(3) by blast
  have kk: "k < BUDDY_MAX_ORDER" using hd(2) by simp
  have ordH: "order (pgs' h) = order (pgs h)" if "h \<in> H" "h \<noteq> p" for h
    using that sh(3) by (intro ord(3)) auto
  have lo: "lists_ok pool' pgs' (insert b H) {p}"
    unfolding lists_ok_def
  proof (intro allI impI)
    fix j assume j: "j \<le> BUDDY_MAX_ORDER"
    have "{h \<in> insert b H. \<not> allocated (pgs' h) \<and> order (pgs' h) = j \<and> h \<notin> {p}} =
       (if j = k then {b} else {}) \<union> {h \<in> H. \<not> allocated (pgs h) \<and> order (pgs h) = j \<and> h \<notin> {p}}"
      using sh(3) nb ord(2) ordH al bp(3) by auto
    then show "distinct (lists (freelists pool' j)) \<and>
        set (lists (freelists pool' j)) = {h \<in> insert b H. \<not> allocated (pgs' h) \<and> order (pgs' h) = j \<and> h \<notin> {p}} \<and>
        num (freelists pool' j) = int (length (lists (freelists pool' j)))"
      using w(4) j sh(3) by (auto simp: lists_ok_def pool')
  qed
  have co: "coalesced ?base pgs' (insert b H) {p}"
    unfolding coalesced_def
  proof (intro ballI impI)
    fix h c
    assume a: "h \<in> insert b H - {p}" "c \<in> insert b H - {p}" "\<not> allocated (pgs' h)" "\<not> allocated (pgs' c)"
      "order (pgs' h) = order (pgs' c)" "order (pgs' h) < BUDDY_MAX_ORDER"
    show "c \<noteq> buddy_of ?base (order (pgs' h)) h"
    proof (cases "h = b \<or> c = b")
      case True
      show ?thesis
      proof
        assume e: "c = buddy_of ?base (order (pgs' h)) h"
        have ok: "order (pgs' h) = k" using True a(5) ord(2) by auto
        have h1: "2 ^ k dvd h - ?base" "?base \<le> h"
          using heads_okD(1,3) [OF sh(1), of h] a(1) ok by auto
        have "buddy_of ?base k c = h" unfolding e ok by (rule buddy_of_props(4) [OF h1])
        then show False using True e ok bp(4) a(1,2) by auto
      qed
    next
      case False
      then show ?thesis using w(5) a ord al by (auto simp: coalesced_def)
    qed
  qed
  show "pool_wf n (insert b H) {p} pool' pgs'"
    unfolding pool_wf_def using w sh(1) lo co al by (auto simp: pool')
  show "\<not> allocated (pgs' p)" using al p by simp
  have "free_set pool' = (\<Union>h\<in>{h \<in> insert b H. \<not> allocated (pgs' h) \<and> h \<notin> {p}}. blk pgs' h)"
    by (rule free_set_eq [OF sh(1) lo])
  moreover have "free_set pool = (\<Union>h\<in>{h \<in> H. \<not> allocated (pgs h) \<and> h \<notin> {p}}. blk pgs h)"
    by (rule free_set_eq [OF w(3,4)])
  moreover have "{h \<in> insert b H. \<not> allocated (pgs' h) \<and> h \<notin> {p}} =
      insert b {h \<in> H. \<not> allocated (pgs h) \<and> h \<notin> {p}}"
    using nb bp(3) al by auto
  moreover have "h \<in> H \<Longrightarrow> h \<noteq> p \<Longrightarrow> blk pgs' h = blk pgs h" for h
    by (simp add: blk_def ordH)
  ultimately show "free_set pool' \<union> blk pgs' p = free_set pool \<union> blk pgs p"
    using sh(4) by auto
  have R: "p \<in> pool_range n pool" "b \<in> pool_range n pool"
    using hd(4,5) bn bp(1) by (auto simp: pool_range_def)
  show "same_but_order (pool_range n pool) pgs pgs'"
    unfolding pgs'
    using same_but_order_trans [OF same_but_order_upd [where pgs = pgs and m = p and k = k, OF p(2) R(1)]
        same_but_order_upd [of "pgs(p := (pgs p)\<lparr>order := k\<rparr>)" b "pool_range n pool" k]] nb bp(3) R(2)
    by simp
  show "blk pgs' p \<subseteq> blk pgs p" using sh(4) by blast
qed

lemma split_page_loop_correct:
  assumes "pool_wf n H {p} pool pgs" "p \<in> H" "\<not> allocated (pgs p)" "ord \<le> order (pgs p)"
  shows "\<exists>pool' pgs' H'. split_page_loop pool pgs ord p = Some (pool', pgs') \<and>
    pool_wf n H' {p} pool' pgs' \<and> p \<in> H' \<and> order (pgs' p) = ord \<and> \<not> allocated (pgs' p) \<and>
    page_metadata pool' = page_metadata pool \<and> start_addr pool' = start_addr pool \<and> pool_lock pool' = pool_lock pool \<and>
    mem_size pool' = mem_size pool \<and> blk pgs' p \<subseteq> blk pgs p \<and>
    free_set pool' \<union> blk pgs' p = free_set pool \<union> blk pgs p \<and> same_but_order (pool_range n pool) pgs pgs'"
  using assms
proof (induction pool pgs ord p arbitrary: H rule: split_page_loop.induct)
  case (1 pool pgs ord p)
  show ?case
  proof (cases "ord < order (pgs p)")
    case False
    then have "split_page_loop pool pgs ord p = Some (pool, pgs)" "order (pgs p) = ord"
      using "1.prems"(4) by (simp_all add: split_page_loop.simps)
    then show ?thesis using "1.prems" same_but_order_refl by blast
  next
    case True
    define k where "k = order (pgs p) - 1"
    have k: "order (pgs p) = Suc k" using True by (simp add: k_def)
    define b where "b = buddy_of (page_metadata pool) k p"
    define pgs1 where "pgs1 = pgs(p := (pgs p)\<lparr>order := order (pgs p) - 1\<rparr>)"
    define pgs2 where "pgs2 = pgs1(b := (pgs1 b)\<lparr>order := order (pgs1 p)\<rparr>)"
    note st0 = split_step [OF "1.prems"(1-3) k b_def refl refl]
    have pgs2: "pgs2 = pgs(p := (pgs p)\<lparr>order := k\<rparr>, b := (pgs b)\<lparr>order := k\<rparr>)"
      using st0(2) by (simp add: pgs2_def pgs1_def k)
    note st = st0 [folded pgs2]
    note w = pool_wfD [OF "1.prems"(1)]
    note hd = heads_okD [OF w(3) "1.prems"(2)]
    have o1: "order (pgs1 p) = k" "order (pgs2 b) = k" by (simp_all add: pgs1_def pgs2_def k)
    have pn: "p < page_metadata pool + n" using hd(4,5) by auto
    have kk: "k < BUDDY_MAX_ORDER" using hd(2) k by simp
    have gb: "get_buddy pool pgs1 p = Some (Some b)"
      using get_buddy_eq [where pgs = pgs1, OF refl w(2,1) hd(1) pn o1(1) kk] st(1)
      by (simp add: b_def [symmetric])
    have al1: "\<not> allocated (pgs1 b)" using st(2,3) by (simp add: pgs1_def)
    have eq: "split_page_loop pool pgs ord p = split_page_loop (freelist_add pool k b) pgs2 ord p"
      unfolding split_page_loop.simps [of pool pgs ord p] Let_def pgs1_def [symmetric]
      using True gb al1 o1(1) by (simp add: pgs2_def)
    have "p \<in> insert b H" "ord \<le> order (pgs2 p)" using "1.prems"(2) True k pgs2 st(2) by auto
    with "1.IH" [OF True pgs1_def gb refl _ pgs2_def, where H = "insert b H"] al1 st(4,5) o1
    obtain pool' pgs' H' where r: "split_page_loop (freelist_add pool k b) pgs2 ord p = Some (pool', pgs')"
      "pool_wf n H' {p} pool' pgs'" "p \<in> H'" "order (pgs' p) = ord" "\<not> allocated (pgs' p)"
      "page_metadata pool' = page_metadata pool" "start_addr pool' = start_addr pool \<and> pool_lock pool' = pool_lock pool"
      "mem_size pool' = mem_size pool" "blk pgs' p \<subseteq> blk pgs2 p"
      "free_set pool' \<union> blk pgs' p = free_set (freelist_add pool k b) \<union> blk pgs2 p" "same_but_order (pool_range n pool) pgs2 pgs'"
      by (auto simp: pool_range_def)
    have "blk pgs' p \<subseteq> blk pgs p" "free_set pool' \<union> blk pgs' p = free_set pool \<union> blk pgs p"
      using r(9,10) st(6,8) by auto
    moreover have "same_but_order (pool_range n pool) pgs pgs'" using st(7) r(11) by (rule same_but_order_trans)
    ultimately show ?thesis using r(1-8) eq by auto
  qed
qed

lemma find_free_None:
  assumes "find_free pool pgs is = None" "i \<in> set is"
  shows "lists (freelists pool i) = []"
  using assms by (induction "is") (auto split: list.splits)

lemma find_free_Some:
  assumes "find_free pool pgs is = Some (pool', p)"
  shows "\<exists>i \<in> set is. \<exists>rest. lists (freelists pool i) = p # rest \<and>
    pool' = freelist_num_dec (freelist_pop pool i) (order (pgs p))"
  using assms by (induction "is") (auto split: list.splits)

lemma freelist_pop_num_dec:
  assumes "lists (freelists pool i) = p # rest"
  shows "freelist_num_dec (freelist_pop pool i) i = freelist_del pool i p"
  using assms by (simp add: freelist_num_dec_def freelist_pop_def freelist_del_def Let_def)

text \<open>An allocation takes the first free block of the smallest sufficient order,
  splits it down, and hands out an aligned block of exactly the requested order.\<close>

lemma buddy_get_locked_Some:
  assumes inv: "buddy_inv n pool pgs" and ord: "ord \<le> BUDDY_MAX_ORDER"
    and ff: "find_free pool pgs [ord..<Suc BUDDY_MAX_ORDER] = Some (pool1, p)"
  shows "\<exists>pool' pgs'. buddy_get_locked pool pgs ord = Some (pool', pgs', Some p) \<and> buddy_inv n pool' pgs' \<and>
    page_metadata pool' = page_metadata pool \<and> start_addr pool' = start_addr pool \<and> pool_lock pool' = pool_lock pool \<and>
    mem_size pool' = mem_size pool \<and>
    page_metadata pool \<le> p \<and> p + 2 ^ ord \<le> page_metadata pool + n \<and> 2 ^ ord dvd p - page_metadata pool \<and>
    {p..<p + 2 ^ ord} \<subseteq> free_set pool \<and> free_set pool' = free_set pool - {p..<p + 2 ^ ord} \<and>
    \<not> allocated (pgs p) \<and> order (pgs' p) = ord \<and>
    allocated (pgs' p) \<and> pages_frame p (pool_range n pool) pgs pgs'"
proof -
  obtain H where wf: "pool_wf n H {} pool pgs" using inv by (auto simp: buddy_inv_def)
  note w = pool_wfD [OF wf]
  obtain i rest where i: "i \<in> set [ord..<Suc BUDDY_MAX_ORDER]" "lists (freelists pool i) = p # rest"
    "pool1 = freelist_num_dec (freelist_pop pool i) (order (pgs p))"
    using find_free_Some [OF ff] by blast
  have ii: "ord \<le> i" "i \<le> BUDDY_MAX_ORDER" using i(1) by auto
  have p: "p \<in> H" "\<not> allocated (pgs p)" "order (pgs p) = i"
  proof -
    have "p \<in> set (lists (freelists pool i))" using i(2) by simp
    then have "p \<in> {h \<in> H. \<not> allocated (pgs h) \<and> order (pgs h) = i \<and> h \<notin> {}}"
      using w(4) ii(2) unfolding lists_ok_def by blast
    then show "p \<in> H" "\<not> allocated (pgs p)" "order (pgs p) = i" by auto
  qed
  have pool1: "pool1 = freelist_del pool i p" using i(3) freelist_pop_num_dec [OF i(2)] p(3) by simp
  have lo1: "lists_ok pool1 pgs H (insert p {})"
    unfolding pool1 using w(4) p ii(2) by (intro lists_ok_del) auto
  have wf1: "pool_wf n H {p} pool1 pgs"
    using w lo1 unfolding pool_wf_def coalesced_def by (auto simp: pool1)
  note hd = heads_okD [OF w(3) p(1)]
  have fs1: "free_set pool = free_set pool1 \<union> blk pgs p"
    using free_set_eq [OF w(3,4)] free_set_eq [OF w(3) lo1] p(1,2) by auto
  obtain pool2 pgs2 H2 where
    sp: "(if ord < order (pgs p) then split_page pool1 pgs ord p else Some (pool1, pgs)) = Some (pool2, pgs2)"
    and wf2: "pool_wf n H2 {p} pool2 pgs2" "p \<in> H2" "order (pgs2 p) = ord" "\<not> allocated (pgs2 p)"
      "page_metadata pool2 = page_metadata pool1" "start_addr pool2 = start_addr pool1 \<and> pool_lock pool2 = pool_lock pool1"
      "mem_size pool2 = mem_size pool1"
      "free_set pool2 \<union> blk pgs2 p = free_set pool1 \<union> blk pgs p" "same_but_order (pool_range n pool) pgs pgs2"
  proof (cases "ord < order (pgs p)")
    case True
    then show ?thesis
      using split_page_loop_correct [OF wf1 p(1,2), of ord] that
      by (auto simp: split_page_def pool_range_def pool1)
  next
    case False
    then have "order (pgs p) = ord" using ii(1) p(3) by simp
    then show ?thesis using that [of pool1 pgs H] False wf1 p by auto
  qed
  note w2 = pool_wfD [OF wf2(1)]
  define pgs3 where "pgs3 = pgs2(p := (pgs2 p)\<lparr>allocated := True\<rparr>)"
  have o3: "order (pgs3 x) = order (pgs2 x)" for x by (simp add: pgs3_def)
  have ho: "heads_ok (page_metadata pool2) n pgs3 H2" using w2(3) by (rule heads_ok_cong) (simp add: o3)
  have "{h \<in> H2. \<not> allocated (pgs3 h) \<and> order (pgs3 h) = k \<and> h \<notin> {}} =
      {h \<in> H2. \<not> allocated (pgs2 h) \<and> order (pgs2 h) = k \<and> h \<notin> {p}}" for k
    by (auto simp: pgs3_def)
  then have lo3: "lists_ok pool2 pgs3 H2 {}" using w2(4) by (simp add: lists_ok_def)
  have "coalesced (page_metadata pool2) pgs3 H2 {}"
    using w2(5) unfolding coalesced_def by (auto simp: pgs3_def)
  then have inv3: "buddy_inv n pool2 pgs3"
    unfolding buddy_inv_def pool_wf_def using w2 ho lo3 wf2(2) by (auto simp: pgs3_def)
  have b2: "blk pgs2 p = {p..<p + 2 ^ ord}" using wf2(3) by (simp add: blk_def)
  have dis: "free_set pool2 \<inter> blk pgs2 p = {}"
    using free_set_eq [OF w2(3,4)] heads_ok_unique [OF w2(3) _ wf2(2)] by auto
  have fs: "free_set pool2 = free_set pool - {p..<p + 2 ^ ord}" "{p..<p + 2 ^ ord} \<subseteq> free_set pool"
    using fs1 wf2(8) b2 dis by auto
  have eq: "buddy_get_locked pool pgs ord = Some (pool2, pgs3, Some p)"
    unfolding buddy_get_locked_def ff using sp wf2(3) by (simp add: Let_def pgs3_def)
  have "p \<in> pool_range n pool" using hd(4,5) by (auto simp: pool_range_def)
  then have sb: "pages_frame p (pool_range n pool) pgs pgs3" "allocated (pgs3 p)"
    unfolding pgs3_def using wf2(9) by (auto intro: pages_frameI)
  have al: "2 ^ ord dvd p - page_metadata pool" using hd(3) p(3) ii(1) by (auto intro: power_le_dvd)
  have "(2::nat) ^ ord \<le> 2 ^ i" using ii(1) by (rule power_increasing) simp
  then have le: "p + 2 ^ ord \<le> page_metadata pool + n" using hd(6) [unfolded p(3)] by linarith
  show ?thesis
    using eq inv3 fs al le hd(1) p(2) wf2(3,5-7) sb o3 by (auto simp: pool1)
qed


lemma free_set_range:
  assumes "pool_wf n H {} pool pgs"
  shows "free_set pool \<subseteq> pool_range n pool"
  using free_set_eq [OF pool_wfD(3,4) [OF assms]] heads_okD(5) [OF pool_wfD(3) [OF assms]]
  by (auto simp: pool_range_def)

text \<open>Because free buddies never stay unmerged, a failed search means that no aligned
  run of the requested size is free.\<close>

lemma no_aligned_run:
  assumes wf: "pool_wf n H {} pool pgs" and ord: "ord \<le> BUDDY_MAX_ORDER"
    and empty: "\<And>i. ord \<le> i \<Longrightarrow> i \<le> BUDDY_MAX_ORDER \<Longrightarrow> lists (freelists pool i) = []"
    and s: "page_metadata pool \<le> s" "2 ^ ord dvd s - page_metadata pool"
  shows "\<not> {s..<s + 2 ^ ord} \<subseteq> free_set pool"
proof
  assume sub: "{s..<s + 2 ^ ord} \<subseteq> free_set pool"
  let ?base = "page_metadata pool"
  note w = pool_wfD [OF wf]
  note fs = free_set_eq [OF w(3,4)]
  define F where "F = {h \<in> H. \<not> allocated (pgs h) \<and> h \<in> {s..<s + 2 ^ ord}}"
  have small: "order (pgs h) < ord" if "h \<in> H" "\<not> allocated (pgs h)" for h
  proof (rule ccontr)
    assume "\<not> order (pgs h) < ord"
    moreover have "h \<in> set (lists (freelists pool (order (pgs h))))"
      using w(4) heads_okD(2) [OF w(3) that(1)] that by (simp add: lists_ok_def)
    ultimately show False using empty heads_okD(2) [OF w(3) that(1)] by auto
  qed
  have "s \<in> free_set pool" using sub by auto
  then obtain h0 where h0: "h0 \<in> H" "\<not> allocated (pgs h0)" "s \<in> blk pgs h0" using fs by auto
  have "blk pgs h0 \<subseteq> {s..<s + 2 ^ ord}"
    unfolding blk_def using h0 s small [OF h0(1,2)] heads_okD(1,3) [OF w(3) h0(1)]
    by (intro rel_blocks_nested [where base = ?base and x = s]) (auto simp: blk_def)
  then have "h0 \<in> F" using h0 heads_okD(4) [OF w(3) h0(1)] by (auto simp: F_def)
  then obtain h where h: "h \<in> F" "\<And>g. g \<in> F \<Longrightarrow> order (pgs h) \<le> order (pgs g)"
    using ex_has_least_nat [of "\<lambda>h. h \<in> F" h0 "\<lambda>h. order (pgs h)"] by blast
  have hH: "h \<in> H" "\<not> allocated (pgs h)" "h \<in> {s..<s + 2 ^ ord}" using h(1) by (auto simp: F_def)
  define k where "k = order (pgs h)"
  define b where "b = buddy_of ?base k h"
  have k: "k < ord" using small hH by (simp add: k_def)
  note hd = heads_okD [OF w(3) hH(1), folded k_def]
  note bp = buddy_of_props [OF hd(3,1), folded b_def]
  have "{min h b..<min h b + 2 ^ Suc k} \<subseteq> {s..<s + 2 ^ ord}"
    using bp(1,5,7) hd(1) s k hH(3)
    by (intro rel_blocks_nested [where base = ?base and x = h]) (auto simp: min_def max_def)
  moreover have "b \<in> {min h b..<min h b + 2 ^ Suc k}" unfolding bp(6) [symmetric] by simp
  ultimately have bR: "b \<in> {s..<s + 2 ^ ord}" by (rule subsetD)
  then have bf: "b \<in> free_set pool" using sub by blast
  then have "b < ?base + n" using free_set_range [OF wf] by (auto simp: pool_range_def)
  note bh = buddy_head [OF w(3) hH(1) k_def [symmetric] b_def this]
  obtain g where g: "g \<in> H" "\<not> allocated (pgs g)" "b \<in> blk pgs g" using bf fs by auto
  have "g = b" using heads_ok_unique [OF w(3) g(1) bh(1) g(3)] heads_okD(4) [OF w(3) bh(1)] by blast
  then have "b \<in> F" using g(2) bh(1) bR by (simp add: F_def)
  then have "order (pgs b) = k" using h(2) bh(2) by (fastforce simp: k_def)
  moreover have "h \<in> H - {}" "b \<in> H - {}" "\<not> allocated (pgs b)" "k < BUDDY_MAX_ORDER"
    using hH(1) bh(1) g(2) \<open>g = b\<close> k ord by auto
  ultimately show False using w(5) hH(2) unfolding coalesced_def b_def k_def by metis
qed

lemma buddy_get_locked_None:
  assumes inv: "buddy_inv n pool pgs" and ord: "ord \<le> BUDDY_MAX_ORDER"
    and ff: "find_free pool pgs [ord..<Suc BUDDY_MAX_ORDER] = None"
    and s: "page_metadata pool \<le> s" "2 ^ ord dvd s - page_metadata pool"
  shows "buddy_get_locked pool pgs ord = Some (pool, pgs, None)" "\<not> {s..<s + 2 ^ ord} \<subseteq> free_set pool"
proof -
  show "buddy_get_locked pool pgs ord = Some (pool, pgs, None)" unfolding buddy_get_locked_def ff by simp
  obtain H where wf: "pool_wf n H {} pool pgs" using inv by (auto simp: buddy_inv_def)
  show "\<not> {s..<s + 2 ^ ord} \<subseteq> free_set pool"
    by (rule no_aligned_run [OF wf ord _ s], rule find_free_None [OF ff]) auto
qed

text \<open>The counters account for exactly the free pages.\<close>

lemma free_count:
  assumes "pool_wf n H {} pool pgs"
  shows "(\<Sum>k\<le>BUDDY_MAX_ORDER. num (freelists pool k) * 2 ^ k) = int (card (free_set pool))"
proof -
  note w = pool_wfD [OF assms]
  let ?L = "\<lambda>k. set (lists (freelists pool k))"
  have L: "?L k = {h \<in> H. \<not> allocated (pgs h) \<and> order (pgs h) = k}" if "k \<le> BUDDY_MAX_ORDER" for k
    using w(4) that by (simp add: lists_ok_def)
  have blkL: "{h..<h + 2 ^ k} = blk pgs h" if "k \<le> BUDDY_MAX_ORDER" "h \<in> ?L k" for h k
    using L [OF that(1)] that(2) by (simp add: blk_def)
  have c1: "card (\<Union>h\<in>?L k. {h..<h + 2 ^ k}) = length (lists (freelists pool k)) * 2 ^ k"
    if k: "k \<le> BUDDY_MAX_ORDER" for k
  proof -
    have "card (\<Union>h\<in>?L k. {h..<h + 2 ^ k}) = (\<Sum>h\<in>?L k. card {h..<h + 2 ^ k})"
    proof (rule card_UN_disjoint)
      show "\<forall>i\<in>?L k. \<forall>j\<in>?L k. i \<noteq> j \<longrightarrow> {i..<i + 2 ^ k} \<inter> {j..<j + 2 ^ k} = {}"
        using heads_ok_unique [OF w(3)] blkL [OF k] L [OF k] by blast
    qed auto
    also have "\<dots> = length (lists (freelists pool k)) * 2 ^ k"
    proof -
      have "distinct (lists (freelists pool k))" using w(4) k by (simp add: lists_ok_def)
      then show ?thesis by (simp add: distinct_card)
    qed
    finally show ?thesis .
  qed
  have "card (free_set pool) = (\<Sum>k\<le>BUDDY_MAX_ORDER. card (\<Union>h\<in>?L k. {h..<h + 2 ^ k}))"
    unfolding free_set_def
  proof (rule card_UN_disjoint)
    show "\<forall>i\<in>{..BUDDY_MAX_ORDER}. \<forall>j\<in>{..BUDDY_MAX_ORDER}. i \<noteq> j \<longrightarrow>
        (\<Union>h\<in>?L i. {h..<h + 2 ^ i}) \<inter> (\<Union>h\<in>?L j. {h..<h + 2 ^ j}) = {}"
    proof (intro ballI impI)
      fix i j assume ij: "i \<in> {..BUDDY_MAX_ORDER}" "j \<in> {..BUDDY_MAX_ORDER}" "i \<noteq> j"
      show "(\<Union>h\<in>?L i. {h..<h + 2 ^ i}) \<inter> (\<Union>h\<in>?L j. {h..<h + 2 ^ j}) = {}"
      proof (rule ccontr)
        assume "(\<Union>h\<in>?L i. {h..<h + 2 ^ i}) \<inter> (\<Union>h\<in>?L j. {h..<h + 2 ^ j}) \<noteq> {}"
        then obtain x g h where "g \<in> ?L i" "h \<in> ?L j" "x \<in> {g..<g + 2 ^ i}" "x \<in> {h..<h + 2 ^ j}"
          by blast
        then show False
          using heads_ok_unique [OF w(3), of g h x] L [of i] L [of j] ij by (auto simp: blk_def)
      qed
    qed
  qed auto
  also have "\<dots> = (\<Sum>k\<le>BUDDY_MAX_ORDER. length (lists (freelists pool k)) * 2 ^ k)"
    using c1 by (intro sum.cong) auto
  finally show ?thesis using w(4) by (simp add: lists_ok_def)
qed


section \<open>The whole functions\<close>

lemma pool_lock_irrelevant [simp]:
  "buddy_inv n (pool\<lparr>pool_lock := l\<rparr>) pgs = buddy_inv n pool pgs"
  "free_set (pool\<lparr>pool_lock := l\<rparr>) = free_set pool"
  "pool_range n (pool\<lparr>pool_lock := l\<rparr>) = pool_range n pool"
  by (simp_all add: buddy_inv_def pool_wf_def lists_ok_def free_set_def pool_range_def)

text \<open>What a request for \<open>2 ^ ord\<close> pages promises: a block that was free, aligned and of exactly
  that size, or, when it is refused, that no such block existed.\<close>

definition get_spec ::
  "nat \<Rightarrow> nat \<Rightarrow> phys_mem_pool \<Rightarrow> pagemeta \<Rightarrow> phys_mem_pool \<Rightarrow> pagemeta \<Rightarrow> nat option \<Rightarrow> bool" where
  "get_spec n ord pool pgs pool' pgs' r \<longleftrightarrow>
     (case r of
        None \<Rightarrow> pgs' = pgs \<and> free_set pool' = free_set pool \<and>
          (\<forall>s. page_metadata pool \<le> s \<longrightarrow> 2 ^ ord dvd s - page_metadata pool \<longrightarrow>
             \<not> {s..<s + 2 ^ ord} \<subseteq> free_set pool)
      | Some p \<Rightarrow>
          page_metadata pool \<le> p \<and> p + 2 ^ ord \<le> page_metadata pool + n \<and>
          2 ^ ord dvd p - page_metadata pool \<and>
          {p..<p + 2 ^ ord} \<subseteq> free_set pool \<and> free_set pool' = free_set pool - {p..<p + 2 ^ ord} \<and>
          \<not> allocated (pgs p) \<and> allocated (pgs' p) \<and> order (pgs' p) = ord \<and>
          pages_frame p (pool_range n pool) pgs pgs')"

lemma buddy_get_locked_correct:
  assumes inv: "buddy_inv n pool pgs" and ord: "ord \<le> BUDDY_MAX_ORDER"
  shows "\<exists>pool' pgs' r. buddy_get_locked pool pgs ord = Some (pool', pgs', r) \<and> buddy_inv n pool' pgs' \<and>
    page_metadata pool' = page_metadata pool \<and> start_addr pool' = start_addr pool \<and>
    pool_lock pool' = pool_lock pool \<and> mem_size pool' = mem_size pool \<and> get_spec n ord pool pgs pool' pgs' r"
proof (cases "find_free pool pgs [ord..<Suc BUDDY_MAX_ORDER]")
  case None
  have "get_spec n ord pool pgs pool pgs None"
    using buddy_get_locked_None(2) [OF inv ord None] by (simp add: get_spec_def)
  moreover have "buddy_get_locked pool pgs ord = Some (pool, pgs, None)"
    unfolding buddy_get_locked_def None by simp
  ultimately show ?thesis using inv by blast
next
  case (Some a)
  then obtain pool1 p where "find_free pool pgs [ord..<Suc BUDDY_MAX_ORDER] = Some (pool1, p)"
    by (cases a) auto
  from buddy_get_locked_Some [OF inv ord this] show ?thesis
    by (auto simp: get_spec_def)
qed

lemma buddy_get_pages_ok:
  assumes inv: "buddy_inv n pool pgs" and ord: "ord \<le> BUDDY_MAX_ORDER"
    and c: "cpu_ok c" "0 < noff c" and lk: "\<not> locked (pool_lock pool)"
  shows "\<exists>c' pool' pgs' r. buddy_get_pages i c pool pgs ord = Some (c', pool', pgs', r) \<and>
    buddy_inv n pool' pgs' \<and> get_spec n ord pool pgs pool' pgs' r \<and>
    page_metadata pool' = page_metadata pool \<and> \<not> locked (pool_lock pool') \<and>
    cpu_ok c' \<and> noff c' = noff c - 1 \<and> (\<exists>c1. pop_off c = Some c1 \<and> intr c' = intr c1)"
proof -
  obtain c1 where c1: "pop_off c = Some c1" "cpu_ok c1" "noff c1 = noff c - 1" using pop_off_ok [OF c] by blast
  let ?lk = "(pool_lock pool)\<lparr>locked := True, lk_cpu := Some i\<rparr>"
  let ?c2 = "c1\<lparr>intena := (if noff c1 = 0 then intr c1 else intena c1)\<rparr>"
  have inv1: "buddy_inv n (pool\<lparr>pool_lock := ?lk\<rparr>) pgs" using inv by simp
  obtain pool' pgs' r where g: "buddy_get_locked (pool\<lparr>pool_lock := ?lk\<rparr>) pgs ord = Some (pool', pgs', r)"
    "buddy_inv n pool' pgs'" "page_metadata pool' = page_metadata pool" "pool_lock pool' = ?lk"
    "get_spec n ord (pool\<lparr>pool_lock := ?lk\<rparr>) pgs pool' pgs' r"
    using buddy_get_locked_correct [OF inv1 ord] by auto
  note ra = release_acquire [OF c1(2) lk, of i]
  have "buddy_get_pages i c pool pgs ord =
      Some (?c2, pool'\<lparr>pool_lock := (pool_lock pool)\<lparr>locked := False, lk_cpu := None\<rparr>\<rparr>, pgs', r)"
    using ra g(1,4) ord by (simp add: buddy_get_pages_def c1(1))
  moreover have "get_spec n ord pool pgs (pool'\<lparr>pool_lock := (pool_lock pool)\<lparr>locked := False, lk_cpu := None\<rparr>\<rparr>) pgs' r"
    using g(5) by (simp add: get_spec_def split: option.splits)
  ultimately show ?thesis using g(2,3) c1 by (auto simp: cpu_ok_def)
qed

lemma buddy_free_pages_ok:
  assumes inv: "buddy_inv n pool pgs"
    and p: "page_metadata pool \<le> p" "p < page_metadata pool + n" "allocated (pgs p)"
    and c: "cpu_ok c" and lk: "\<not> locked (pool_lock pool)"
  shows "\<exists>c' pool' pgs'. buddy_free_pages i c pool pgs p = Some (c', pool', pgs') \<and>
    buddy_inv n pool' pgs' \<and> page_metadata pool' = page_metadata pool \<and> mem_size pool' = mem_size pool \<and>
    free_set pool' = free_set pool \<union> blk pgs p \<and> free_set pool \<inter> blk pgs p = {} \<and>
    \<not> allocated (pgs' p) \<and> pages_frame p (pool_range n pool) pgs pgs' \<and> \<not> locked (pool_lock pool') \<and>
    cpu_ok c' \<and> noff c' = noff c \<and> intr c' = intr c"
proof -
  let ?lk = "(pool_lock pool)\<lparr>locked := True, lk_cpu := Some i\<rparr>"
  let ?c2 = "c\<lparr>intena := (if noff c = 0 then intr c else intena c)\<rparr>"
  have inv1: "buddy_inv n (pool\<lparr>pool_lock := ?lk\<rparr>) pgs" using inv by simp
  obtain pool' pgs' where g: "buddy_free_locked (pool\<lparr>pool_lock := ?lk\<rparr>) pgs p = Some (pool', pgs')"
    "buddy_inv n pool' pgs'" "page_metadata pool' = page_metadata pool" "pool_lock pool' = ?lk"
    "mem_size pool' = mem_size pool"
    "free_set pool' = free_set pool \<union> blk pgs p" "free_set pool \<inter> blk pgs p = {}"
    "\<not> allocated (pgs' p)" "pages_frame p (pool_range n pool) pgs pgs'"
    using buddy_free_locked_correct [OF inv1, of p] p by auto
  note ra = release_acquire [OF c lk, of i]
  have "buddy_free_pages i c pool pgs p =
      Some (?c2, pool'\<lparr>pool_lock := (pool_lock pool)\<lparr>locked := False, lk_cpu := None\<rparr>\<rparr>, pgs')"
    using ra g(1,4) by (simp add: buddy_free_pages_def)
  then show ?thesis using g c by (auto simp: cpu_ok_def)
qed


section \<open>Initialisation\<close>

lemma clear_metadata_eq: "clear_metadata pgs ps x = (if x \<in> set ps then zero_page else pgs x)"
  by (induction ps arbitrary: pgs) auto

lemma mark_allocated_eq:
  "mark_allocated pgs ps x =
     (if x \<in> set ps then (pgs x)\<lparr>allocated := True, order := 0, pg_lock := initlock\<rparr> else pgs x)"
  by (induction ps arbitrary: pgs) auto

text \<open>Before the first release every page is an allocated block of its own.\<close>

lemma all_allocated_inv:
  assumes "n \<le> 2 ^ 50" "mem_size pool = of_nat n * 4096" "page_metadata pool = base"
    and pages: "\<And>x. base \<le> x \<Longrightarrow> x < base + n \<Longrightarrow> allocated (pgs x) \<and> order (pgs x) = 0"
    and empty: "\<And>k. freelists pool k = empty_free_list"
  shows "buddy_inv n pool pgs" "free_set pool = {}"
proof -
  let ?H = "{base..<base + n}"
  have b: "x \<in> ?H \<Longrightarrow> blk pgs x = {x}" for x using pages by (auto simp: blk_def)
  then have "(\<Union>x\<in>?H. blk pgs x) = ?H" by auto
  then have "heads_ok base n pgs ?H" unfolding heads_ok_def using pages b by auto
  moreover have "lists_ok pool pgs ?H {}" unfolding lists_ok_def using empty pages by (auto simp: empty_free_list_def)
  moreover have "coalesced base pgs ?H {}" unfolding coalesced_def using pages by auto
  ultimately show "buddy_inv n pool pgs"
    unfolding buddy_inv_def pool_wf_def using assms(1-3) by blast
  show "free_set pool = {}" by (simp add: free_set_def empty empty_free_list_def)
qed

lemma free_each_ok:
  assumes "buddy_inv n pool pgs" "page_metadata pool = base" "k \<le> n"
    and "\<And>x. base + k \<le> x \<Longrightarrow> x < base + n \<Longrightarrow> allocated (pgs x) \<and> order (pgs x) = 0"
    and "cpu_ok c" "\<not> locked (pool_lock pool)"
  shows "\<exists>c' pool' pgs'. free_each i c pool pgs [base + k..<base + n] = Some (c', pool', pgs') \<and>
    buddy_inv n pool' pgs' \<and> page_metadata pool' = base \<and> mem_size pool' = mem_size pool \<and>
    free_set pool' = free_set pool \<union> {base + k..<base + n} \<and> \<not> locked (pool_lock pool') \<and>
    cpu_ok c' \<and> noff c' = noff c \<and> intr c' = intr c \<and>
    (\<forall>x. x \<notin> {base..<base + n} \<longrightarrow> pgs' x = pgs x) \<and> (\<forall>x. refcnt (pgs' x) = refcnt (pgs x) \<and> pg_lock (pgs' x) = pg_lock (pgs x))"
  using assms
proof (induction "n - k" arbitrary: k c pool pgs)
  case 0
  then show ?case by auto
next
  case (Suc m)
  let ?p = "base + k"
  have m: "m = n - Suc k" using Suc.hyps(2) by simp
  have k: "k < n" and up: "[?p..<base + n] = ?p # [base + Suc k..<base + n]"
    using Suc.hyps(2) by (simp_all add: upt_conv_Cons)
  have p: "page_metadata pool \<le> ?p" "?p < page_metadata pool + n" "allocated (pgs ?p)" "blk pgs ?p = {?p}"
    using Suc.prems(2,4) k by (auto simp: blk_def)
  obtain c1 pool1 pgs1 where f: "buddy_free_pages i c pool pgs ?p = Some (c1, pool1, pgs1)"
    "buddy_inv n pool1 pgs1" "page_metadata pool1 = base" "mem_size pool1 = mem_size pool"
    "free_set pool1 = insert ?p (free_set pool)" "\<not> allocated (pgs1 ?p)"
    "pages_frame ?p (pool_range n pool) pgs pgs1" "\<not> locked (pool_lock pool1)"
    "cpu_ok c1" "noff c1 = noff c" "intr c1 = intr c"
    using buddy_free_pages_ok [OF Suc.prems(1) p(1-3) Suc.prems(5,6), of i] p(4) Suc.prems(2) by auto
  have fr: "x \<noteq> ?p \<Longrightarrow> allocated (pgs x) \<Longrightarrow> pgs1 x = pgs x" "x \<notin> {base..<base + n} \<Longrightarrow> pgs1 x = pgs x"
    "refcnt (pgs1 x) = refcnt (pgs x)" "pg_lock (pgs1 x) = pg_lock (pgs x)" for x
  proof -
    show "x \<noteq> ?p \<Longrightarrow> allocated (pgs x) \<Longrightarrow> pgs1 x = pgs x" "x \<notin> {base..<base + n} \<Longrightarrow> pgs1 x = pgs x"
      using f(7) Suc.prems(2) unfolding pages_frame_def pool_range_def by blast+
    obtain k a where "pgs1 x = (pgs x)\<lparr>order := k, allocated := a\<rparr>"
      using f(7) unfolding pages_frame_def by blast
    then show "refcnt (pgs1 x) = refcnt (pgs x)" "pg_lock (pgs1 x) = pg_lock (pgs x)" by simp_all
  qed
  have al1: "allocated (pgs1 x) \<and> order (pgs1 x) = 0" if "base + Suc k \<le> x" "x < base + n" for x
    using fr(1) [of x] Suc.prems(4) [of x] that by auto
  obtain c' pool' pgs' where r: "free_each i c1 pool1 pgs1 [base + Suc k..<base + n] = Some (c', pool', pgs')"
    "buddy_inv n pool' pgs'" "page_metadata pool' = base" "mem_size pool' = mem_size pool1"
    "free_set pool' = free_set pool1 \<union> {base + Suc k..<base + n}" "\<not> locked (pool_lock pool')"
    "cpu_ok c'" "noff c' = noff c1" "intr c' = intr c1"
    "\<And>x. x \<notin> {base..<base + n} \<Longrightarrow> pgs' x = pgs1 x" "\<And>x. refcnt (pgs' x) = refcnt (pgs1 x)"
    "\<And>x. pg_lock (pgs' x) = pg_lock (pgs1 x)"
    using Suc.hyps(1) [OF m f(2,3) Suc_leI [OF k] al1 f(9,8)] by auto
  have "{?p..<base + n} = insert ?p {base + Suc k..<base + n}" using k by auto
  moreover have "free_each i c pool pgs [?p..<base + n] = Some (c', pool', pgs')"
    unfolding up using f(1) r(1) by simp
  ultimately show ?case using f r fr by auto
qed

lemma free_not_allocated:
  assumes "buddy_inv n pool pgs" "x \<in> free_set pool"
  shows "\<not> allocated (pgs x)" "x \<in> pool_range n pool"
proof -
  obtain H where wf: "pool_wf n H {} pool pgs" using assms(1) by (auto simp: buddy_inv_def)
  note w = pool_wfD [OF wf]
  show r: "x \<in> pool_range n pool" using free_set_range [OF wf] assms(2) by blast
  obtain h where h: "h \<in> H" "\<not> allocated (pgs h)" "x \<in> blk pgs h"
    using assms(2) free_set_eq [OF w(3,4)] by auto
  show "\<not> allocated (pgs x)"
  proof
    assume a: "allocated (pgs x)"
    then have "x \<in> H" using w(6) r by (auto simp: pool_range_def)
    then have "h = x" using heads_ok_unique [OF w(3) h(1) _ h(3)] heads_okD(4) [OF w(3)] by blast
    then show False using a h(2) by simp
  qed
qed

text \<open>Every page is free or lies in the block of exactly one allocated page.\<close>

lemma allocated_blocks:
  assumes "buddy_inv n pool pgs"
  shows "pool_range n pool - free_set pool = (\<Union>p\<in>{p \<in> pool_range n pool. allocated (pgs p)}. blk pgs p)"
    "\<And>p q. p \<in> pool_range n pool \<Longrightarrow> q \<in> pool_range n pool \<Longrightarrow> allocated (pgs p) \<Longrightarrow> allocated (pgs q) \<Longrightarrow>
       p \<noteq> q \<Longrightarrow> blk pgs p \<inter> blk pgs q = {}"
proof -
  obtain H where wf: "pool_wf n H {} pool pgs" using assms(1) by (auto simp: buddy_inv_def)
  note w = pool_wfD [OF wf]
  have aH: "p \<in> H" if "p \<in> pool_range n pool" "allocated (pgs p)" for p
    using that w(6) by (auto simp: pool_range_def)
  have Hr: "p \<in> pool_range n pool" if "p \<in> H" for p
    using heads_okD(4,5) [OF w(3) that] by (auto simp: pool_range_def)
  have un: "(\<Union>h\<in>H. blk pgs h) = pool_range n pool" using w(3) by (simp add: heads_ok_def pool_range_def)
  show "pool_range n pool - free_set pool = (\<Union>p\<in>{p \<in> pool_range n pool. allocated (pgs p)}. blk pgs p)"
  proof (intro equalityI subsetI)
    fix x assume "x \<in> pool_range n pool - free_set pool"
    then obtain h where "h \<in> H" "x \<in> blk pgs h" "allocated (pgs h)"
      using un free_set_eq [OF w(3,4)] by blast
    then show "x \<in> (\<Union>p\<in>{p \<in> pool_range n pool. allocated (pgs p)}. blk pgs p)" using Hr by blast
  next
    fix x assume "x \<in> (\<Union>p\<in>{p \<in> pool_range n pool. allocated (pgs p)}. blk pgs p)"
    then obtain p where p: "p \<in> H" "allocated (pgs p)" "x \<in> blk pgs p" using aH by blast
    have "x \<notin> free_set pool"
    proof
      assume "x \<in> free_set pool"
      then obtain h where "h \<in> H" "\<not> allocated (pgs h)" "x \<in> blk pgs h"
        using free_set_eq [OF w(3,4)] by auto
      then show False using heads_ok_unique [OF w(3) p(1) _ p(3), of h] p(2) by simp
    qed
    then show "x \<in> pool_range n pool - free_set pool" using un p by blast
  qed
  fix p q
  assume "p \<in> pool_range n pool" "q \<in> pool_range n pool" "allocated (pgs p)" "allocated (pgs q)" "p \<noteq> q"
  then show "blk pgs p \<inter> blk pgs q = {}" using heads_ok_unique [OF w(3) aH aH, of p q] by blast
qed

text \<open>\<open>sum_freelists\<close> is the number of free bytes.\<close>

lemma sum_freelists_eq:
  "sum_freelists pool is m = m + of_int (\<Sum>i\<leftarrow>is. num (freelists pool i) * 4096 * 2 ^ i)"
  by (induction "is" arbitrary: m) (simp_all add: algebra_simps)

lemma sum_freelists_free:
  assumes "buddy_inv n pool pgs"
  shows "sum_freelists pool [0..<Suc BUDDY_MAX_ORDER] m = m + of_nat (card (free_set pool)) * 4096"
proof -
  obtain H where wf: "pool_wf n H {} pool pgs" using assms(1) by (auto simp: buddy_inv_def)
  have "(\<Sum>i\<leftarrow>[0..<Suc BUDDY_MAX_ORDER]. num (freelists pool i) * 4096 * 2 ^ i)
      = (\<Sum>k\<le>BUDDY_MAX_ORDER. num (freelists pool k) * 2 ^ k) * 4096"
    unfolding interv_sum_list_conv_sum_set_nat set_upt atLeastLessThanSuc_atLeastAtMost atLeast0AtMost
    by (simp add: sum_distrib_right mult_ac)
  then show ?thesis by (simp add: sum_freelists_eq free_count [OF wf])
qed

lemma init_buddy_ok:
  assumes n: "n \<le> 2 ^ 50" and fits: "meta_addr + start_page * sizeof_page + n * sizeof_page < unat START_MEM"
    and c: "cpu_ok c"
  shows "\<exists>c' pool pgs'. init_buddy meta_addr i c pgs start_page start n = Some (c', pool, pgs') \<and>
    buddy_inv n pool pgs' \<and> page_metadata pool = start_page \<and> free_set pool = {start_page..<start_page + n} \<and>
    \<not> locked (pool_lock pool) \<and> cpu_ok c' \<and> noff c' = noff c \<and> intr c' = intr c \<and>
    (\<forall>x. x \<notin> {start_page..<start_page + n} \<longrightarrow> pgs' x = pgs x) \<and>
    (\<forall>x. x \<in> {start_page..<start_page + n} \<longrightarrow>
      refcnt (pgs' x) = 0 \<and> \<not> allocated (pgs' x) \<and> \<not> locked (pg_lock (pgs' x)))"
proof -
  let ?ps = "[start_page..<start_page + n]"
  define pool0 where "pool0 = \<lparr>start_addr = start, mem_size = PGSIZE * of_nat n, page_metadata = start_page,
    pool_lock = initlock, freelists = (\<lambda>_. empty_free_list)\<rparr>"
  define pgs2 where "pgs2 = mark_allocated (clear_metadata pgs ?ps) ?ps"
  have p2: "x \<in> {start_page..<start_page + n} \<Longrightarrow> allocated (pgs2 x) \<and> order (pgs2 x) = 0 \<and> refcnt (pgs2 x) = 0 \<and>
      pg_lock (pgs2 x) = initlock"
    "x \<notin> {start_page..<start_page + n} \<Longrightarrow> pgs2 x = pgs x" for x
    by (auto simp: pgs2_def mark_allocated_eq clear_metadata_eq zero_page_def)
  have i0: "buddy_inv n pool0 pgs2" "free_set pool0 = {}"
    using all_allocated_inv [OF n, of pool0 start_page pgs2] p2(1)
    by (auto simp: pool0_def PGSIZE_def mult.commute)
  have sel: "page_metadata pool0 = start_page" "\<not> locked (pool_lock pool0)" "mem_size pool0 = PGSIZE * of_nat n"
    by (simp_all add: pool0_def initlock_def)
  obtain c3 pool3 pgs3 where r: "free_each i c pool0 pgs2 ?ps = Some (c3, pool3, pgs3)"
    "buddy_inv n pool3 pgs3" "page_metadata pool3 = start_page" "mem_size pool3 = mem_size pool0"
    "free_set pool3 = {start_page..<start_page + n}" "\<not> locked (pool_lock pool3)"
    "cpu_ok c3" "noff c3 = noff c" "intr c3 = intr c"
    "\<And>x. x \<notin> {start_page..<start_page + n} \<Longrightarrow> pgs3 x = pgs2 x" "\<And>x. refcnt (pgs3 x) = refcnt (pgs2 x)"
    "\<And>x. pg_lock (pgs3 x) = pg_lock (pgs2 x)"
    using free_each_ok [OF i0(1) sel(1), of 0 c i] p2(1) c sel(2) i0(2) by auto
  have "sum_freelists pool3 [0..<Suc BUDDY_MAX_ORDER] 0 = mem_size pool3"
    using sum_freelists_free [OF r(2), of 0] r(4,5) sel(3) by (simp add: PGSIZE_def mult.commute del: upt_Suc)
  then have "init_buddy meta_addr i c pgs start_page start n = Some (c3, pool3, pgs3)"
    using fits r(1) by (simp add: init_buddy_def Let_def pool0_def pgs2_def del: upt_Suc)
  moreover have "\<not> allocated (pgs3 x)" if "x \<in> {start_page..<start_page + n}" for x
    using free_not_allocated(1) [OF r(2)] r(5) that by blast
  ultimately show ?thesis using r p2 by (auto simp: initlock_def)
qed


section \<open>The allocator contract\<close>

text \<open>One hart's view of a pool: its CPU state, the pool and the page metadata.  A request is made
  the way \<^verbatim>\<open>kmalloc\<close> makes it, inside one more level of \<open>push_off\<close>.\<close>

type_synonym pool_state = "thread_cpu \<times> phys_mem_pool \<times> pagemeta"

definition pool_get :: "nat \<Rightarrow> pool_state \<Rightarrow> nat \<Rightarrow> (pool_state \<times> nat option) option" where
  "pool_get i s k = (case s of (c, pool, pgs) \<Rightarrow> do {
     (c', pool', pgs', r) \<leftarrow> buddy_get_pages i (push_off c) pool pgs k;
     Some ((c', pool', pgs'), r)
   })"

definition pool_put :: "nat \<Rightarrow> pool_state \<Rightarrow> nat \<Rightarrow> pool_state option" where
  "pool_put i s p = (case s of (c, pool, pgs) \<Rightarrow> buddy_free_pages i c pool pgs p)"

definition pool_ok :: "nat \<Rightarrow> pool_state \<Rightarrow> bool" where
  "pool_ok n s = (case s of (c, pool, pgs) \<Rightarrow>
     buddy_inv n pool pgs \<and> \<not> locked (pool_lock pool) \<and> cpu_ok c)"

definition pool_free :: "pool_state \<Rightarrow> nat set" where
  "pool_free s = (case s of (c, pool, pgs) \<Rightarrow> free_set pool)"

definition pool_base :: "pool_state \<Rightarrow> nat" where
  "pool_base s = (case s of (c, pool, pgs) \<Rightarrow> page_metadata pool)"

definition pool_live :: "nat \<Rightarrow> pool_state \<Rightarrow> nat \<rightharpoonup> nat" where
  "pool_live n s = (case s of (c, pool, pgs) \<Rightarrow>
     (\<lambda>p. if p \<in> pool_range n pool \<and> allocated (pgs p) then Some (order (pgs p)) else None))"

lemma pages_frame_live:
  assumes "pages_frame p (pool_range n pool) pgs pgs'" "page_metadata pool' = page_metadata pool"
  shows "x \<noteq> p \<Longrightarrow> pool_live n (c', pool', pgs') x = pool_live n (c, pool, pgs) x"
  using assms unfolding pages_frame_def pool_live_def pool_range_def by auto

interpretation buddy: page_allocator "pool_ok n" pool_free "pool_live n" pool_base BUDDY_MAX_ORDER "pool_get i" "pool_put i"
  for n i
proof
  fix s :: pool_state and k
  assume ok: "pool_ok n s" "k \<le> BUDDY_MAX_ORDER"
  obtain c pool pgs where s: "s = (c, pool, pgs)" by (cases s)
  have inv: "buddy_inv n pool pgs" "cpu_ok (push_off c)" "0 < noff (push_off c)" "\<not> locked (pool_lock pool)"
    using ok(1) by (auto simp: pool_ok_def s cpu_ok_def)
  obtain c' pool' pgs' r where g: "buddy_get_pages i (push_off c) pool pgs k = Some (c', pool', pgs', r)"
    "buddy_inv n pool' pgs'" "get_spec n k pool pgs pool' pgs' r" "page_metadata pool' = page_metadata pool"
    "\<not> locked (pool_lock pool')" "cpu_ok c'"
    using buddy_get_pages_ok [OF inv(1) ok(2) inv(2-4), of i] by blast
  let ?s' = "(c', pool', pgs')"
  have "pool_get i s k = Some (?s', r)" "pool_ok n ?s'" "pool_base ?s' = pool_base s"
    using g by (auto simp: pool_get_def s pool_ok_def pool_base_def)
  moreover have "case r of None \<Rightarrow> pool_free ?s' = pool_free s \<and> pool_live n ?s' = pool_live n s \<and>
      (\<forall>p. pool_base s \<le> p \<longrightarrow> 2 ^ k dvd p - pool_base s \<longrightarrow> \<not> block_pages (p, k) \<subseteq> pool_free s)
    | Some p \<Rightarrow> block_pages (p, k) \<subseteq> pool_free s \<and> pool_free ?s' = pool_free s - block_pages (p, k) \<and>
        pool_base s \<le> p \<and> 2 ^ k dvd p - pool_base s \<and> pool_live n ?s' = (pool_live n s)(p \<mapsto> k)"
  proof (cases r)
    case None
    then show ?thesis using g(3,4)
      by (simp add: get_spec_def s pool_free_def pool_live_def pool_range_def pool_base_def block_pages_def)
  next
    case (Some p)
    have sp: "{p..<p + 2 ^ k} \<subseteq> free_set pool" "free_set pool' = free_set pool - {p..<p + 2 ^ k}"
      "page_metadata pool \<le> p" "2 ^ k dvd p - page_metadata pool"
      "allocated (pgs' p)" "order (pgs' p) = k" "pages_frame p (pool_range n pool) pgs pgs'"
      using g(3) Some by (auto simp: get_spec_def)
    have "p \<in> pool_range n pool" using sp(1) free_not_allocated(2) [OF inv(1)] by fastforce
    then have "pool_live n ?s' p = Some k" using sp(5,6) g(4) by (auto simp: pool_live_def pool_range_def)
    then have "pool_live n ?s' = (pool_live n s)(p \<mapsto> k)"
      using pages_frame_live [OF sp(7) g(4)] by (auto simp: s)
    then show ?thesis using Some sp(1-4) by (simp add: pool_free_def s pool_base_def block_pages_def)
  qed
  ultimately show "\<exists>s' r. pool_get i s k = Some (s', r) \<and> pool_ok n s' \<and> pool_base s' = pool_base s \<and>
      (case r of None \<Rightarrow> pool_free s' = pool_free s \<and> pool_live n s' = pool_live n s \<and>
         (\<forall>p. pool_base s \<le> p \<longrightarrow> 2 ^ k dvd p - pool_base s \<longrightarrow> \<not> block_pages (p, k) \<subseteq> pool_free s)
       | Some p \<Rightarrow> block_pages (p, k) \<subseteq> pool_free s \<and> pool_free s' = pool_free s - block_pages (p, k) \<and>
           pool_base s \<le> p \<and> 2 ^ k dvd p - pool_base s \<and> pool_live n s' = (pool_live n s)(p \<mapsto> k))"
    by blast
next
  fix s :: pool_state and p k
  assume ok: "pool_ok n s" "pool_live n s p = Some k"
  obtain c pool pgs where s: "s = (c, pool, pgs)" by (cases s)
  have inv: "buddy_inv n pool pgs" "cpu_ok c" "\<not> locked (pool_lock pool)" using ok(1) by (auto simp: pool_ok_def s)
  have p: "page_metadata pool \<le> p" "p < page_metadata pool + n" "allocated (pgs p)" "order (pgs p) = k"
    using ok(2) by (auto simp: pool_live_def s pool_range_def split: if_splits)
  obtain c' pool' pgs' where g: "buddy_free_pages i c pool pgs p = Some (c', pool', pgs')" "buddy_inv n pool' pgs'"
    "page_metadata pool' = page_metadata pool" "free_set pool' = free_set pool \<union> blk pgs p"
    "\<not> allocated (pgs' p)" "pages_frame p (pool_range n pool) pgs pgs'" "\<not> locked (pool_lock pool')" "cpu_ok c'"
    using buddy_free_pages_ok [OF inv(1) p(1-3) inv(2,3), of i] by blast
  have "pool_live n (c', pool', pgs') p = None" using g(5) by (simp add: pool_live_def)
  then have "pool_live n (c', pool', pgs') = (pool_live n s)(p := None)"
    using pages_frame_live [OF g(6,3)] by (auto simp: s)
  then show "\<exists>s'. pool_put i s p = Some s' \<and> pool_ok n s' \<and> pool_base s' = pool_base s \<and>
      pool_free s' = pool_free s \<union> block_pages (p, k) \<and> pool_live n s' = (pool_live n s)(p := None)"
    using g p(4) by (auto simp: pool_put_def s pool_ok_def pool_free_def pool_base_def blk_def block_pages_def)
qed

end
