(* ===== verification/Buddy_Props.thy ===== *)
theory Buddy_Props
  imports Buddy_Correct
begin

text \<open>
  What the buddy allocator guarantees: allocation, release, initialisation and whole runs of
  requests, stated over the functions of \<^verbatim>\<open>src/src/mm/buddy.c\<close> themselves.
\<close>

text \<open>An initialised pool of eight pages on a hart that may be interrupted; its witness values
  are those of the run of \<open>init_buddy\<close> on it.\<close>

definition idle_cpu :: thread_cpu where
  "idle_cpu = \<lparr>noff = 0, intena = False, intr = True\<rparr>"

lemma idle_cpu_ok [simp]: "cpu_ok idle_cpu" "cpu_ok (push_off idle_cpu)" "noff (push_off idle_cpu) = 1"
  by (simp_all add: idle_cpu_def cpu_ok_def)

definition small_pool :: "phys_mem_pool \<Rightarrow> pagemeta \<Rightarrow> bool" where
  "small_pool pool pgs \<longleftrightarrow>
     (\<exists>c. init_buddy 0x80500000 0 idle_cpu (\<lambda>_. zero_page) 0 START_MEM 8 = Some (c, pool, pgs))"

lemma small_pool_ok:
  assumes "small_pool pool pgs"
  shows "buddy_inv 8 pool pgs" "\<not> locked (pool_lock pool)" "free_set pool = {0..<8}" "page_metadata pool = 0"
proof -
  have "0x80500000 + 0 * sizeof_page + 8 * sizeof_page < unat START_MEM"
    by (simp add: sizeof_page_def START_MEM_def)
  from init_buddy_ok [OF _ this, of idle_cpu 0 "\<lambda>_. zero_page" START_MEM] assms
  show "buddy_inv 8 pool pgs" "\<not> locked (pool_lock pool)" "free_set pool = {0..<8}" "page_metadata pool = 0"
    by (auto simp: small_pool_def)
qed

lemma small_pool_exists: "\<exists>pool pgs. small_pool pool pgs"
proof -
  have "0x80500000 + 0 * sizeof_page + 8 * sizeof_page < unat START_MEM"
    by (simp add: sizeof_page_def START_MEM_def)
  from init_buddy_ok [OF _ this, of idle_cpu 0 "\<lambda>_. zero_page" START_MEM]
  show ?thesis by (auto simp: small_pool_def)
qed

text \<open>C16.  \<open>buddy_get_pages\<close> on a well-formed pool never panics.  It returns a free, aligned block of
  exactly \<open>2 ^ ord\<close> pages of the pool, marks it allocated and removes it, and only it, from the free
  pages; it refuses only when the pool has no aligned free run of that size, however its free lists
  are split.  The pool stays well formed and unlocked, one level of interrupt nesting is closed, and
  no page outside the pool and no other allocated page changes.\<close>

theorem buddy_get_pages_correct:
  assumes "buddy_inv n pool pgs" "ord \<le> BUDDY_MAX_ORDER" "cpu_ok c" "0 < noff c" "\<not> locked (pool_lock pool)"
  shows "\<exists>c' pool' pgs' r. buddy_get_pages i c pool pgs ord = Some (c', pool', pgs', r) \<and>
    buddy_inv n pool' pgs' \<and> \<not> locked (pool_lock pool') \<and> cpu_ok c' \<and> noff c' = noff c - 1 \<and>
    (case r of
       None \<Rightarrow> pgs' = pgs \<and> free_set pool' = free_set pool \<and>
         (\<forall>s. page_metadata pool \<le> s \<longrightarrow> 2 ^ ord dvd s - page_metadata pool \<longrightarrow>
            \<not> {s..<s + 2 ^ ord} \<subseteq> free_set pool)
     | Some p \<Rightarrow>
         p + 2 ^ ord \<le> page_metadata pool + n \<and> page_metadata pool \<le> p \<and> 2 ^ ord dvd p - page_metadata pool \<and>
         {p..<p + 2 ^ ord} \<subseteq> free_set pool \<and> free_set pool' = free_set pool - {p..<p + 2 ^ ord} \<and>
         allocated (pgs' p) \<and> order (pgs' p) = ord \<and>
         (\<forall>x. x \<noteq> p \<and> (allocated (pgs x) \<or> x \<notin> pool_range n pool) \<longrightarrow> pgs' x = pgs x))"
proof -
  obtain c' pool' pgs' r where g: "buddy_get_pages i c pool pgs ord = Some (c', pool', pgs', r)"
    "buddy_inv n pool' pgs'" "get_spec n ord pool pgs pool' pgs' r" "\<not> locked (pool_lock pool')"
    "cpu_ok c'" "noff c' = noff c - 1"
    using buddy_get_pages_ok [OF assms] by blast
  then show ?thesis by (cases r) (auto simp: get_spec_def pages_frame_def)
qed

theorem buddy_get_pages_correct_witness:
  "\<exists>pool pgs c' pool' pgs' p. small_pool pool pgs \<and>
    buddy_get_pages 0 (push_off idle_cpu) pool pgs 2 = Some (c', pool', pgs', Some p) \<and>
    4 dvd p \<and> free_set pool' = {0..<8} - {p..<p + 4} \<and> order (pgs' p) = 2"
proof -
  obtain pool pgs where s: "small_pool pool pgs" using small_pool_exists by blast
  note ok = small_pool_ok [OF s]
  have ord: "2 \<le> BUDDY_MAX_ORDER" "0 < noff (push_off idle_cpu)"
    by (simp_all only: BUDDY_MAX_ORDER_def idle_cpu_ok)
  have run: "{0..<0 + 2 ^ 2} \<subseteq> free_set pool" "2 ^ 2 dvd 0 - page_metadata pool" using ok by auto
  from buddy_get_pages_correct [OF ok(1) ord(1) idle_cpu_ok(2) ord(2) ok(2), of 0] show ?thesis
  proof (elim exE conjE, goal_cases)
    case (1 c' pool' pgs' r)
    show ?case
    proof (cases r)
      case None
      with 1 have "\<forall>s. page_metadata pool \<le> s \<longrightarrow> 2 ^ 2 dvd s - page_metadata pool \<longrightarrow> \<not> {s..<s + 2 ^ 2} \<subseteq> free_set pool"
        by simp
      then show ?thesis using run ok(4) by (blast intro: le0)
    next
      case (Some p)
      with 1 have "4 dvd p" "free_set pool' = {0..<8} - {p..<p + 4}" "order (pgs' p) = 2"
        using ok(3,4) by simp_all
      then show ?thesis using s 1(1) Some by blast
    qed
  qed
qed

text \<open>C17.  \<open>buddy_free_pages\<close> of an allocated page of a well-formed pool never panics: exactly the
  block of that page becomes free, merged as far as its buddies allow (the invariant forbids two
  free buddies of one order), the pool stays well formed and unlocked, and the interrupt state is the
  caller's.\<close>

theorem buddy_free_pages_correct:
  assumes "buddy_inv n pool pgs" "p \<in> pool_range n pool" "allocated (pgs p)" "cpu_ok c" "\<not> locked (pool_lock pool)"
  shows "\<exists>c' pool' pgs'. buddy_free_pages i c pool pgs p = Some (c', pool', pgs') \<and>
    buddy_inv n pool' pgs' \<and> \<not> locked (pool_lock pool') \<and> cpu_ok c' \<and> noff c' = noff c \<and> intr c' = intr c \<and>
    free_set pool' = free_set pool \<union> {p..<p + 2 ^ order (pgs p)} \<and>
    free_set pool \<inter> {p..<p + 2 ^ order (pgs p)} = {} \<and> \<not> allocated (pgs' p) \<and>
    (\<forall>x. x \<noteq> p \<and> (allocated (pgs x) \<or> x \<notin> pool_range n pool) \<longrightarrow> pgs' x = pgs x)"
proof -
  have p: "page_metadata pool \<le> p" "p < page_metadata pool + n" using assms(2) by (auto simp: pool_range_def)
  obtain c' pool' pgs' where g: "buddy_free_pages i c pool pgs p = Some (c', pool', pgs')"
    "buddy_inv n pool' pgs'" "free_set pool' = free_set pool \<union> blk pgs p" "free_set pool \<inter> blk pgs p = {}"
    "\<not> allocated (pgs' p)" "pages_frame p (pool_range n pool) pgs pgs'" "\<not> locked (pool_lock pool')"
    "cpu_ok c'" "noff c' = noff c" "intr c' = intr c"
    using buddy_free_pages_ok [OF assms(1) p assms(3-5)] by blast
  then show ?thesis unfolding pages_frame_def blk_def by blast
qed

definition two_pages :: phys_mem_pool where
  "two_pages = \<lparr>start_addr = START_MEM, mem_size = 8192, page_metadata = 0, pool_lock = initlock,
     freelists = (\<lambda>_. empty_free_list)\<rparr>"

definition two_allocated :: pagemeta where
  "two_allocated _ = zero_page\<lparr>allocated := True\<rparr>"

theorem buddy_free_pages_correct_witness:
  "\<exists>c' pool' pgs'. buddy_free_pages 0 idle_cpu two_pages two_allocated 1 = Some (c', pool', pgs') \<and>
    free_set pool' = {1} \<and> pgs' 0 = two_allocated 0"
proof -
  have "buddy_inv 2 two_pages two_allocated" "free_set two_pages = {}"
    using all_allocated_inv [where base = 0 and n = 2 and pool = two_pages and pgs = two_allocated]
    by (simp_all add: two_pages_def two_allocated_def zero_page_def)
  moreover have "1 \<in> pool_range 2 two_pages" "\<not> locked (pool_lock two_pages)" "allocated (two_allocated x)"
    "order (two_allocated x) = 0" for x
    by (simp_all add: pool_range_def two_pages_def initlock_def two_allocated_def zero_page_def)
  ultimately show ?thesis
    using buddy_free_pages_correct [of 2 two_pages two_allocated 1 idle_cpu 0] by fastforce
qed

text \<open>C21.  \<open>init_buddy\<close> on a metadata area that fits never panics, so its own assertion on the
  memory size holds: afterwards the pool is well formed and every one of its pages is free, its
  metadata is reset, and the metadata of other pools is untouched.\<close>

theorem init_buddy_correct:
  assumes "n \<le> 2 ^ 50" "meta_addr + start_page * sizeof_page + n * sizeof_page < unat START_MEM" "cpu_ok c"
  shows "\<exists>c' pool pgs'. init_buddy meta_addr i c pgs start_page start n = Some (c', pool, pgs') \<and>
    buddy_inv n pool pgs' \<and> free_set pool = {start_page..<start_page + n} \<and> \<not> locked (pool_lock pool) \<and>
    noff c' = noff c \<and> intr c' = intr c \<and>
    (\<forall>x. x \<notin> {start_page..<start_page + n} \<longrightarrow> pgs' x = pgs x)"
  using init_buddy_ok [OF assms] by blast

theorem init_buddy_correct_witness:
  "\<exists>c' pool pgs'. init_buddy 0x80500000 0 idle_cpu (\<lambda>_. zero_page) 0 START_MEM PAGES_PER_CPU = Some (c', pool, pgs') \<and>
    free_set pool = {0..<11264}"
proof -
  have n: "PAGES_PER_CPU = 11264"
    by (simp add: PAGES_PER_CPU_def NPAGES_def NCPU_def PHYSTOP_def START_MEM_def PGSIZE_def)
  show ?thesis
    using init_buddy_correct [where n = PAGES_PER_CPU and meta_addr = "0x80500000" and start_page = 0 and c = idle_cpu and
      i = 0 and pgs = "\<lambda>_. zero_page" and start = START_MEM]
    by (auto simp: n sizeof_page_def START_MEM_def)
qed

text \<open>C1.  Any sequence of requests to an initialised pool, whatever blocks are given back and in
  whatever order, runs without a panic.  The blocks that the requests have returned and that have not
  been given back are aligned and pairwise disjoint, none of them overlaps a free page, and together
  with the free pages they are exactly the pages of the pool.  After the run a request of any order is
  again answered without a panic, with a free block, and is refused only when no aligned run of free
  pages has that size.\<close>

theorem buddy_run_safe:
  assumes "init_buddy meta_addr i c0 pgs0 start_page start n = Some (c, pool, pgs)"
    and "n \<le> 2 ^ 50" "cpu_ok c0" "\<forall>r\<in>set rs. order_ok BUDDY_MAX_ORDER r"
  shows "\<exists>s' held. alloc_run (pool_get i) (pool_put i) (c, pool, pgs) [] rs = Some (s', held) \<and> pool_ok n s' \<and>
    blocks_disjoint held \<and> held_pages held \<inter> pool_free s' = {} \<and>
    pool_free s' \<union> held_pages held = {start_page..<start_page + n} \<and>
    (\<forall>(p, k)\<in>set held. start_page \<le> p \<and> 2 ^ k dvd p - start_page) \<and>
    (\<forall>k\<le>BUDDY_MAX_ORDER. \<exists>s'' r. pool_get i s' k = Some (s'', r) \<and>
       (case r of
          Some p \<Rightarrow> block_pages (p, k) \<subseteq> pool_free s'
        | None \<Rightarrow> (\<forall>p\<ge>start_page. 2 ^ k dvd p - start_page \<longrightarrow> \<not> block_pages (p, k) \<subseteq> pool_free s')))"
proof -
  have "meta_addr + start_page * sizeof_page + n * sizeof_page < unat START_MEM"
    using assms(1) by (simp add: init_buddy_def split: if_splits)
  from init_buddy_ok [OF assms(2) this assms(3), of i pgs0 start] assms(1)
  have ok: "buddy_inv n pool pgs" "\<not> locked (pool_lock pool)" "cpu_ok c"
    "free_set pool = {start_page..<start_page + n}" "page_metadata pool = start_page" by auto
  let ?s = "(c, pool, pgs)"
  have s: "pool_ok n ?s" "pool_free ?s = {start_page..<start_page + n}" "pool_base ?s = start_page"
    using ok by (simp_all add: pool_ok_def pool_free_def pool_base_def)
  have "\<not> allocated (pgs p)" if "p \<in> pool_range n pool" for p
    using free_not_allocated(1) [OF ok(1)] that ok(4,5) by (auto simp: pool_range_def)
  then have "pool_live n ?s = Map.empty" by (auto simp: pool_live_def)
  from buddy.run_ok [OF s(1) this, where rs = rs and i = i] assms(4) obtain s' held where
    r: "alloc_run (pool_get i) (pool_put i) ?s [] rs = Some (s', held)" "pool_ok n s'" "pool_base s' = start_page"
    "blocks_disjoint held" "held_pages held \<inter> pool_free s' = {}" "pool_free s' \<union> held_pages held = {start_page..<start_page + n}"
    "\<forall>(p, k)\<in>set held. start_page \<le> p \<and> 2 ^ k dvd p - start_page" unfolding s(2,3) by blast
  have "\<exists>s'' r. pool_get i s' k = Some (s'', r) \<and> (case r of Some p \<Rightarrow> block_pages (p, k) \<subseteq> pool_free s'
      | None \<Rightarrow> (\<forall>p\<ge>start_page. 2 ^ k dvd p - start_page \<longrightarrow> \<not> block_pages (p, k) \<subseteq> pool_free s'))"
    if "k \<le> BUDDY_MAX_ORDER" for k
    using buddy.get_law [OF r(2) that, of i] unfolding r(3) by (fastforce split: option.splits)
  then show ?thesis using r by blast
qed

theorem buddy_run_safe_witness:
  "\<exists>c pool pgs s' held. init_buddy 0x80500000 0 idle_cpu (\<lambda>_. zero_page) 0 START_MEM 8 = Some (c, pool, pgs) \<and>
    alloc_run (pool_get 0) (pool_put 0) (c, pool, pgs) [] [Get 1] = Some (s', held) \<and>
    (\<exists>p. held = [(p, 1)] \<and> 2 dvd p \<and> pool_free s' \<union> {p, p + 1} = {0..<8} \<and> {p, p + 1} \<inter> pool_free s' = {})"
proof -
  obtain c pool pgs where i: "init_buddy 0x80500000 0 idle_cpu (\<lambda>_. zero_page) 0 START_MEM 8 = Some (c, pool, pgs)"
    using small_pool_exists by (auto simp: small_pool_def)
  have o: "\<forall>r\<in>set [Get 1]. order_ok BUDDY_MAX_ORDER r" "(8::nat) \<le> 2 ^ 50" by (simp_all add: BUDDY_MAX_ORDER_def)
  note m = buddy_run_safe [OF i o(2) idle_cpu_ok(1)]
  have z: "alloc_run (pool_get 0) (pool_put 0) (c, pool, pgs) [] [] = Some ((c, pool, pgs), [])"
    "1 \<le> BUDDY_MAX_ORDER" by (simp_all add: BUDDY_MAX_ORDER_def)
  have f: "pool_free (c, pool, pgs) = {0..<8}" using m [of "[]"] z(1) by auto
  have "block_pages (0, 1) \<subseteq> pool_free (c, pool, pgs)" by (auto simp: f block_pages_def)
  then obtain s'' p where g: "pool_get 0 (c, pool, pgs) 1 = Some (s'', Some p)"
    using m [of "[]"] z by (fastforce split: option.splits)
  then have run: "alloc_run (pool_get 0) (pool_put 0) (c, pool, pgs) [] [Get 1] = Some (s'', [(p, 1)])" by simp
  have b: "block_pages (p, 1) = {p, p + 1}" by (auto simp: block_pages_def)
  have "2 dvd p" "pool_free s'' \<union> {p, p + 1} = {0..<8}" "{p, p + 1} \<inter> pool_free s'' = {}"
    using m [OF o(1)] run b by auto
  then show ?thesis using i run by blast
qed

end
