(* ===== verification/Kalloc.thy ===== *)
theory Kalloc
  imports Buddy_Props Cstring
begin

text \<open>
  The page allocator of the kernel (\<^verbatim>\<open>src/src/mm/kalloc.c\<close>, and \<^verbatim>\<open>mm_init\<close> and
  \<^verbatim>\<open>get_free_mem\<close> of \<^verbatim>\<open>src/src/mm/buddy.c\<close>): one buddy pool per hart, requests in bytes,
  reference counts on the blocks handed out.

  The functions run on hart \<open>i\<close>, which is not rescheduled in between.  \<^verbatim>\<open>alloc_fail\<close>, the page
  cache's reclaimer that an allocation calls when memory is short, is a parameter: it belongs to the
  file system and may free page-cache pages.  Counters are C integers within their range.
\<close>

record kmem =
  mempools :: "nat \<Rightarrow> phys_mem_pool"
  kpages :: pagemeta
  pages_cnt :: int
  recycling :: int
  kcpu :: thread_cpu

definition PAGES_THRESHOLD :: int where "PAGES_THRESHOLD = 500"

section \<open>Initialisation\<close>

fun init_pools :: "nat \<Rightarrow> nat \<Rightarrow> nat list \<Rightarrow> kmem \<Rightarrow> kmem option" where
  "init_pools meta_addr i [] k = Some k"
| "init_pools meta_addr i (j # js) k = do {
     (c, pool, pgs) \<leftarrow> init_buddy meta_addr i (kcpu k) (kpages k) (j * PAGES_PER_CPU)
       (START_MEM + of_nat (j * PAGES_PER_CPU) * PGSIZE) PAGES_PER_CPU;
     init_pools meta_addr i js (k\<lparr>kcpu := c, kpages := pgs, mempools := (mempools k)(j := pool)\<rparr>)
   }"

definition mm_init :: "nat \<Rightarrow> nat \<Rightarrow> kmem \<Rightarrow> kmem option" where
  "mm_init meta_addr i k = init_pools meta_addr i [0..<NCPU] (k\<lparr>pages_cnt := int NPAGES, recycling := 0\<rparr>)"

section \<open>Allocation\<close>

definition get_pages_cpu :: "nat \<Rightarrow> nat" where
  "get_pages_cpu p = p div PAGES_PER_CPU"

text \<open>\<^verbatim>\<open>buddy_get_pages(&mempools[j], order)\<close> on the kernel's state.\<close>

definition get_from :: "nat \<Rightarrow> nat \<Rightarrow> nat \<Rightarrow> kmem \<Rightarrow> (kmem \<times> nat option) option" where
  "get_from i j ord k = do {
     (c, pool, pgs, r) \<leftarrow> buddy_get_pages i (kcpu k) (mempools k j) (kpages k) ord;
     Some (k\<lparr>kcpu := c, kpages := pgs, mempools := (mempools k)(j := pool)\<rparr>, r)
   }"

fun steal_from :: "nat \<Rightarrow> nat \<Rightarrow> nat \<Rightarrow> nat list \<Rightarrow> kmem \<Rightarrow> (kmem \<times> nat option) option" where
  "steal_from i cur_id ord [] k = Some (k, None)"
| "steal_from i cur_id ord (j # js) k =
     (if j = cur_id then steal_from i cur_id ord js k
      else do {
        (k1, r) \<leftarrow> get_from i j ord (k\<lparr>kcpu := push_off (kcpu k)\<rparr>);
        if r \<noteq> None then Some (k1, r) else steal_from i cur_id ord js k1
      })"

definition steal_mem :: "nat \<Rightarrow> nat \<Rightarrow> nat \<Rightarrow> kmem \<Rightarrow> (kmem \<times> nat option) option" where
  "steal_mem i cur_id ord k = steal_from i cur_id ord [0..<NCPU] k"

text \<open>The order of a request.  \<^verbatim>\<open>1 << order\<close> is an \<^verbatim>\<open>int\<close> shift, undefined from 31 on: no
  result.\<close>

function order_loop :: "u64 \<Rightarrow> nat \<Rightarrow> nat" where
  "order_loop tmp ord = (if 1 < tmp then order_loop (drop_bit 1 tmp) (ord + 1) else ord)"
  by pat_completeness auto
termination
proof (relation "measure (\<lambda>(tmp, ord). unat tmp)")
  fix tmp :: u64 and ord :: nat
  assume "1 < tmp"
  then have "1 < unat tmp" by (simp add: word_less_nat_alt)
  then show "((drop_bit 1 tmp, ord + 1), tmp, ord) \<in> measure (\<lambda>(tmp, ord). unat tmp)"
    by (simp add: drop_bit_eq_div unat_div)
qed simp

declare order_loop.simps [simp del]

definition size_to_page_order :: "u64 \<Rightarrow> nat option" where
  "size_to_page_order sz = do {
     let page_num = ROUND_UP sz PGSIZE div PGSIZE;
     let ord = order_loop page_num 0;
     ASSERT (ord < 31);
     Some (if push_bit ord 1 < page_num then ord + 1 else ord)
   }"

text \<open>What \<^verbatim>\<open>kmalloc\<close> and \<^verbatim>\<open>kalloc\<close> do with the page they got: set its count, charge the
  free pages, and reclaim when they are short.\<close>

definition hand_out :: "(kmem \<Rightarrow> kmem option) \<Rightarrow> nat \<Rightarrow> kmem \<Rightarrow> (kmem \<times> u64 option) option" where
  "hand_out alloc_fail p k = do {
     ASSERT (refcnt (kpages k p) = 0);
     let k1 = k\<lparr>kpages := (kpages k)(p := (kpages k p)\<lparr>refcnt := 1\<rparr>)\<rparr>;
     let page_ret = page_to_pa p;
     let k2 = k1\<lparr>pages_cnt := pages_cnt k1 - 2 ^ order (kpages k1 p)\<rparr>;
     k3 \<leftarrow> (if recycling k2 = 0 \<and> pages_cnt k2 < PAGES_THRESHOLD then do {
         k3 \<leftarrow> alloc_fail (k2\<lparr>recycling := recycling k2 + 1\<rparr>);
         Some (k3\<lparr>recycling := recycling k3 - 1\<rparr>)
       } else Some k2);
     Some (k3, Some page_ret)
   }"

definition alloc_order :: "(kmem \<Rightarrow> kmem option) \<Rightarrow> nat \<Rightarrow> nat \<Rightarrow> kmem \<Rightarrow> (kmem \<times> u64 option) option" where
  "alloc_order alloc_fail i ord k = do {
     let k1 = k\<lparr>kcpu := push_off (kcpu k)\<rparr>;
     ASSERT (i < NCPU);
     (k2, r) \<leftarrow> get_from i i ord k1;
     (k3, r') \<leftarrow> (if r = None then steal_mem i i ord k2 else Some (k2, r));
     case r' of
       None \<Rightarrow> Some (k3, None)
     | Some p \<Rightarrow> hand_out alloc_fail p k3
   }"

definition kmalloc :: "(kmem \<Rightarrow> kmem option) \<Rightarrow> nat \<Rightarrow> u64 \<Rightarrow> kmem \<Rightarrow> (kmem \<times> u64 option) option" where
  "kmalloc alloc_fail i sz k = do {
     ord \<leftarrow> (if sz \<le> PGSIZE then Some 0 else size_to_page_order sz);
     alloc_order alloc_fail i ord k
   }"

definition kalloc :: "(kmem \<Rightarrow> kmem option) \<Rightarrow> nat \<Rightarrow> kmem \<Rightarrow> (kmem \<times> u64 option) option" where
  "kalloc alloc_fail i k = alloc_order alloc_fail i 0 k"

text \<open>\<^verbatim>\<open>kzalloc\<close> also clears the bytes; \<^verbatim>\<open>memset\<close> takes the size as a 32-bit \<^verbatim>\<open>uint\<close>.\<close>

definition kzalloc ::
  "(kmem \<Rightarrow> kmem option) \<Rightarrow> nat \<Rightarrow> u64 \<Rightarrow> kmem \<Rightarrow> mem \<Rightarrow> (kmem \<times> mem \<times> u64 option) option" where
  "kzalloc alloc_fail i sz k m = do {
     (k1, r) \<leftarrow> kmalloc alloc_fail i sz k;
     case r of
       None \<Rightarrow> Some (k1, m, None)
     | Some ptr \<Rightarrow> Some (k1, memset m (unat ptr) 0 (unat (ucast sz :: u32)), Some ptr)
   }"

section \<open>Release and sharing\<close>

definition kfree :: "nat \<Rightarrow> u64 \<Rightarrow> kmem \<Rightarrow> kmem option" where
  "kfree i pa k = do {
     p \<leftarrow> pa_to_page pa;
     (lk1, c1) \<leftarrow> acquire i (pg_lock (kpages k p)) (kcpu k);
     ASSERT (1 \<le> refcnt (kpages k p));
     let n = refcnt (kpages k p) - 1;
     (lk2, c2) \<leftarrow> release i lk1 c1;
     let k1 = k\<lparr>kcpu := c2, kpages := (kpages k)(p := (kpages k p)\<lparr>refcnt := n, pg_lock := lk2\<rparr>)\<rparr>;
     if 1 \<le> n then Some k1
     else do {
       ASSERT (n = 0);
       ASSERT (allocated (kpages k1 p));
       let id = get_pages_cpu p;
       ASSERT (id < NCPU);
       let k2 = k1\<lparr>pages_cnt := pages_cnt k1 + 2 ^ order (kpages k1 p)\<rparr>;
       (c3, pool, pgs) \<leftarrow> buddy_free_pages i (kcpu k2) (mempools k2 id) (kpages k2) p;
       Some (k2\<lparr>kcpu := c3, kpages := pgs, mempools := (mempools k2)(id := pool)\<rparr>)
     }
   }"

text \<open>\<^verbatim>\<open>share_page\<close> counts up atomically, without a test for overflow.\<close>

definition share_page :: "u64 \<Rightarrow> kmem \<Rightarrow> kmem option" where
  "share_page pa k = do {
     p \<leftarrow> pa_to_page pa;
     ASSERT (1 \<le> refcnt (kpages k p));
     Some (k\<lparr>kpages := (kpages k)(p := (kpages k p)\<lparr>refcnt := wrap32 (refcnt (kpages k p) + 1)\<rparr>)\<rparr>)
   }"

fun sum_pools :: "nat \<Rightarrow> nat list \<Rightarrow> kmem \<Rightarrow> u64 \<Rightarrow> (kmem \<times> u64) option" where
  "sum_pools i [] k memsize = Some (k, memsize)"
| "sum_pools i (j # js) k memsize = do {
     (lk1, c1) \<leftarrow> acquire i (pool_lock (mempools k j)) (kcpu k);
     let memsize1 = sum_freelists (mempools k j) [0..<Suc BUDDY_MAX_ORDER] memsize;
     (lk2, c2) \<leftarrow> release i lk1 c1;
     sum_pools i js (k\<lparr>kcpu := c2, mempools := (mempools k)(j := (mempools k j)\<lparr>pool_lock := lk2\<rparr>)\<rparr>) memsize1
   }"

definition get_free_mem :: "nat \<Rightarrow> kmem \<Rightarrow> (kmem \<times> u64) option" where
  "get_free_mem i k = sum_pools i [0..<NCPU] k 0"

end
