(* ===== verification/Kalloc_Correct.thy ===== *)
theory Kalloc_Correct
  imports Kalloc
begin

text \<open>
  The page allocator: the invariant over all pools (\<open>kmem_ok\<close>) with its reference counts and its
  free-page counter, and what each operation does to it.
\<close>

section \<open>The invariant\<close>

lemma config: "NCPU = 2" "PAGES_PER_CPU = 11264" "NPAGES = 22528"
  by (simp_all add: PAGES_PER_CPU_def NPAGES_def NCPU_def PHYSTOP_def START_MEM_def PGSIZE_def)

text \<open>The pages of pool \<open>j\<close>.\<close>

definition slot :: "nat \<Rightarrow> nat set" where
  "slot j = {j * PAGES_PER_CPU..<j * PAGES_PER_CPU + PAGES_PER_CPU}"

lemma slot_iff: "p \<in> slot j \<longleftrightarrow> p div PAGES_PER_CPU = j"
proof -
  have n: "0 < PAGES_PER_CPU" by (simp add: config)
  have "p div PAGES_PER_CPU = j" if "j * PAGES_PER_CPU \<le> p" "p < j * PAGES_PER_CPU + PAGES_PER_CPU"
    using that by (intro div_nat_eqI) (simp_all add: mult.commute)
  moreover have "p div PAGES_PER_CPU * PAGES_PER_CPU \<le> p"
    "p < p div PAGES_PER_CPU * PAGES_PER_CPU + PAGES_PER_CPU"
    using div_mult_mod_eq [of p PAGES_PER_CPU] mod_less_divisor [OF n, of p] by linarith+
  ultimately show ?thesis unfolding slot_def by auto
qed

lemma page_slot: "p < NPAGES \<longleftrightarrow> p div PAGES_PER_CPU < NCPU"
  by (simp add: config div_less_iff_less_mult)

lemma slot_disjoint: "i \<noteq> j \<Longrightarrow> slot i \<inter> slot j = {}"
  by (auto simp: slot_iff)

definition pools_ok :: "kmem \<Rightarrow> bool" where
  "pools_ok k \<longleftrightarrow>
     (\<forall>j<NCPU. buddy_inv PAGES_PER_CPU (mempools k j) (kpages k) \<and>
        page_metadata (mempools k j) = j * PAGES_PER_CPU \<and> \<not> locked (pool_lock (mempools k j)))"

definition kfree_set :: "kmem \<Rightarrow> nat set" where
  "kfree_set k = (\<Union>j<NCPU. free_set (mempools k j))"

definition counts_ok :: "pagemeta \<Rightarrow> bool" where
  "counts_ok pgs \<longleftrightarrow>
     (\<forall>p<NPAGES. (if allocated (pgs p) then 1 \<le> refcnt (pgs p) else refcnt (pgs p) = 0) \<and>
        \<not> locked (pg_lock (pgs p)))"

definition kmem_ok :: "kmem \<Rightarrow> bool" where
  "kmem_ok k \<longleftrightarrow> pools_ok k \<and> counts_ok (kpages k) \<and> pages_cnt k = int (card (kfree_set k)) \<and> cpu_ok (kcpu k)"

lemma buddy_inv_cong:
  assumes "buddy_inv n pool pgs"
    and same: "\<And>x. x \<in> pool_range n pool \<Longrightarrow> allocated (pgs' x) = allocated (pgs x) \<and> order (pgs' x) = order (pgs x)"
  shows "buddy_inv n pool pgs'"
proof -
  obtain H where wf: "pool_wf n H {} pool pgs" using assms(1) by (auto simp: buddy_inv_def)
  note w = pool_wfD [OF wf]
  have Hr: "h \<in> pool_range n pool" if "h \<in> H" for h
    using heads_okD(4,5) [OF w(3) that] by (auto simp: pool_range_def)
  have s: "allocated (pgs' h) = allocated (pgs h)" "order (pgs' h) = order (pgs h)" if "h \<in> H" for h
    using same Hr that by auto
  have "heads_ok (page_metadata pool) n pgs' H" using w(3) s(2) by (rule heads_ok_cong)
  moreover have "{h \<in> H. \<not> allocated (pgs' h) \<and> order (pgs' h) = k \<and> h \<notin> {}} =
      {h \<in> H. \<not> allocated (pgs h) \<and> order (pgs h) = k \<and> h \<notin> {}}" for k
    using s by auto
  then have "lists_ok pool pgs' H {}" using w(4) unfolding lists_ok_def by simp
  moreover have "coalesced (page_metadata pool) pgs' H {}" using w(5) s unfolding coalesced_def by simp
  moreover have "\<forall>p\<in>pool_range n pool. allocated (pgs' p) \<longrightarrow> p \<in> H"
    using w(6) same by (simp add: pool_range_def)
  ultimately have "pool_wf n H {} pool pgs'"
    using w(1,2) unfolding pool_wf_def pool_range_def by blast
  then show ?thesis unfolding buddy_inv_def by blast
qed

lemma buddy_inv_lock_refcnt: "buddy_inv n pool (pgs(p := (pgs p)\<lparr>refcnt := r\<rparr>)) = buddy_inv n pool pgs"
  "buddy_inv n pool (pgs(p := (pgs p)\<lparr>refcnt := r, pg_lock := l\<rparr>)) = buddy_inv n pool pgs"
  by (auto elim!: buddy_inv_cong split: if_splits)

lemma pools_okD:
  assumes "pools_ok k" "j < NCPU"
  shows "buddy_inv PAGES_PER_CPU (mempools k j) (kpages k)" "page_metadata (mempools k j) = j * PAGES_PER_CPU"
    "\<not> locked (pool_lock (mempools k j))" "pool_range PAGES_PER_CPU (mempools k j) = slot j"
    "free_set (mempools k j) \<subseteq> slot j"
proof -
  show *: "buddy_inv PAGES_PER_CPU (mempools k j) (kpages k)" "page_metadata (mempools k j) = j * PAGES_PER_CPU"
    "\<not> locked (pool_lock (mempools k j))" using assms unfolding pools_ok_def by blast+
  then show r: "pool_range PAGES_PER_CPU (mempools k j) = slot j" by (simp add: pool_range_def slot_def)
  show "free_set (mempools k j) \<subseteq> slot j"
    using free_not_allocated(2) [OF *(1)] unfolding r by blast
qed

text \<open>An operation on one pool leaves the others alone.\<close>

lemma pools_ok_upd:
  assumes ok: "pools_ok k" and j: "j < NCPU" and p: "buddy_inv PAGES_PER_CPU pool pgs"
    "page_metadata pool = j * PAGES_PER_CPU" "\<not> locked (pool_lock pool)"
    and frame: "\<And>x. x \<notin> slot j \<Longrightarrow> pgs x = kpages k x"
    and k': "mempools k' = (mempools k)(j := pool)" "kpages k' = pgs"
  shows "pools_ok k'"
  unfolding pools_ok_def
proof (intro allI impI)
  fix i assume i: "i < NCPU"
  show "buddy_inv PAGES_PER_CPU (mempools k' i) (kpages k') \<and>
    page_metadata (mempools k' i) = i * PAGES_PER_CPU \<and> \<not> locked (pool_lock (mempools k' i))"
  proof (cases "i = j")
    case True
    then show ?thesis using p k' by simp
  next
    case False
    note D = pools_okD [OF ok i]
    have "pgs x = kpages k x" if "x \<in> slot i" for x using frame slot_disjoint [OF False] that by blast
    then have "buddy_inv PAGES_PER_CPU (mempools k i) pgs"
      using D(4) by (intro buddy_inv_cong [OF D(1)]) simp
    then show ?thesis using D(2,3) k' False by simp
  qed
qed

lemma free_set_other: "pools_ok k \<Longrightarrow> i < NCPU \<Longrightarrow> i \<noteq> j \<Longrightarrow> free_set (mempools k i) \<inter> slot j = {}"
  using pools_okD(5) slot_disjoint by blast

lemma free_set_slot:
  assumes ok: "pools_ok k" and j: "j < NCPU"
  shows "free_set (mempools k j) = kfree_set k \<inter> slot j"
proof (intro equalityI subsetI)
  fix x assume "x \<in> kfree_set k \<inter> slot j"
  then obtain i where i: "i < NCPU" "x \<in> free_set (mempools k i)" "x \<in> slot j" unfolding kfree_set_def by blast
  then show "x \<in> free_set (mempools k j)" using free_set_other [OF ok i(1), of j] by (cases "i = j") auto
next
  fix x assume "x \<in> free_set (mempools k j)"
  then show "x \<in> kfree_set k \<inter> slot j" using pools_okD(5) [OF ok j] j unfolding kfree_set_def by blast
qed

lemma kfree_set_upd:
  assumes "j < NCPU" "mempools k' = (mempools k)(j := pool)"
  shows "kfree_set k' = (\<Union>i\<in>{..<NCPU} - {j}. free_set (mempools k i)) \<union> free_set pool"
    "kfree_set k = (\<Union>i\<in>{..<NCPU} - {j}. free_set (mempools k i)) \<union> free_set (mempools k j)"
proof -
  have n: "{..<NCPU} = insert j ({..<NCPU} - {j})" using assms(1) by auto
  have "kfree_set k' = (\<Union>i\<in>insert j ({..<NCPU} - {j}). free_set (mempools k' i))"
    unfolding kfree_set_def by (subst n) (rule refl)
  also have "\<dots> = (\<Union>i\<in>{..<NCPU} - {j}. free_set (mempools k i)) \<union> free_set pool"
    unfolding assms(2) by (auto split: if_splits)
  finally show "kfree_set k' = (\<Union>i\<in>{..<NCPU} - {j}. free_set (mempools k i)) \<union> free_set pool" .
  show "kfree_set k = (\<Union>i\<in>{..<NCPU} - {j}. free_set (mempools k i)) \<union> free_set (mempools k j)"
    unfolding kfree_set_def by (subst n) auto
qed

lemma kfree_set_range: "pools_ok k \<Longrightarrow> p \<in> kfree_set k \<Longrightarrow> p < NPAGES"
proof -
  assume ok: "pools_ok k" and "p \<in> kfree_set k"
  then obtain j where j: "j < NCPU" "p \<in> free_set (mempools k j)" unfolding kfree_set_def by blast
  then have "p \<in> slot j" using pools_okD(5) [OF ok j(1)] by blast
  then show "p < NPAGES" using j(1) by (simp add: slot_iff page_slot)
qed

lemma finite_kfree_set [simp]: "pools_ok k \<Longrightarrow> finite (kfree_set k)"
  using kfree_set_range by (metis finite_lessThan finite_subset lessThan_iff subsetI)

lemma kfree_not_allocated: "pools_ok k \<Longrightarrow> p \<in> kfree_set k \<Longrightarrow> \<not> allocated (kpages k p)"
  unfolding kfree_set_def using pools_okD(1) free_not_allocated(1) by blast

lemma allocated_not_free:
  assumes "pools_ok k" "p < NPAGES" "allocated (kpages k p)"
  shows "{p..<p + 2 ^ order (kpages k p)} \<inter> kfree_set k = {}"
    "{p..<p + 2 ^ order (kpages k p)} \<subseteq> slot (p div PAGES_PER_CPU)"
proof -
  define j where "j = p div PAGES_PER_CPU"
  have j: "j < NCPU" "p \<in> slot j" using assms(2) unfolding j_def slot_iff page_slot by auto
  note D = pools_okD [OF assms(1) j(1)]
  have b: "blk (kpages k) p \<subseteq> slot j - free_set (mempools k j)"
    using allocated_blocks(1) [OF D(1)] assms(3) j(2) unfolding D(4) by blast
  then show "{p..<p + 2 ^ order (kpages k p)} \<subseteq> slot (p div PAGES_PER_CPU)"
    unfolding blk_def j_def by blast
  have "blk (kpages k) p \<inter> free_set (mempools k i) = {}" if "i < NCPU" for i
    using b free_set_other [OF assms(1) that, of j] by (cases "i = j") blast+
  then show "{p..<p + 2 ^ order (kpages k p)} \<inter> kfree_set k = {}"
    unfolding kfree_set_def blk_def by blast
qed

lemma page_to_pa_inverse [simp]:
  assumes "p < 2 ^ 50"
  shows "pa_to_page (page_to_pa p) = Some p"
proof -
  have u: "unat (of_nat p * 4096 :: u64) = p * 4096"
    using assms by (intro unat_page_offset) simp
  have "unat ((of_nat p * 4096 :: u64) mod 4096) = 0" "unat ((of_nat p * 4096 :: u64) div 4096) = p"
    by (simp_all only: unat_mod unat_div u) simp_all
  then show ?thesis by (simp add: pa_to_page_def page_to_pa_def PGSIZE_def unat_eq_zero)
qed

section \<open>Taking a block from the pools\<close>

text \<open>\<open>took p ord k k'\<close>: the block of order \<open>ord\<close> at \<open>p\<close> has left the free pages;
  \<open>refused ord k k'\<close>: nothing has changed for the pool with the free pages \<open>F\<close>, which have no
  aligned run of that size.\<close>

definition took :: "nat \<Rightarrow> nat \<Rightarrow> kmem \<Rightarrow> kmem \<Rightarrow> bool" where
  "took p ord k k' \<longleftrightarrow>
     {p..<p + 2 ^ ord} \<subseteq> kfree_set k \<and> kfree_set k' = kfree_set k - {p..<p + 2 ^ ord} \<and>
     allocated (kpages k' p) \<and> order (kpages k' p) = ord \<and>
     pages_frame p {..<NPAGES} (kpages k) (kpages k') \<and> pages_cnt k' = pages_cnt k \<and> recycling k' = recycling k"

definition same_mem :: "kmem \<Rightarrow> kmem \<Rightarrow> bool" where
  "same_mem k k' \<longleftrightarrow> kpages k' = kpages k \<and> (\<forall>j<NCPU. free_set (mempools k' j) = free_set (mempools k j)) \<and>
     pages_cnt k' = pages_cnt k \<and> recycling k' = recycling k"

definition no_run :: "nat \<Rightarrow> kmem \<Rightarrow> nat \<Rightarrow> bool" where
  "no_run ord k j \<longleftrightarrow>
     (\<forall>s. j * PAGES_PER_CPU \<le> s \<longrightarrow> 2 ^ ord dvd s - j * PAGES_PER_CPU \<longrightarrow>
        \<not> {s..<s + 2 ^ ord} \<subseteq> free_set (mempools k j))"

lemma same_mem_refl [simp]: "same_mem k k"
  by (simp add: same_mem_def)

lemma same_mem_trans: "same_mem a b \<Longrightarrow> same_mem b c \<Longrightarrow> same_mem a c"
  by (simp add: same_mem_def)

lemma same_mem_kfree: "same_mem k k' \<Longrightarrow> kfree_set k' = kfree_set k"
  by (simp add: same_mem_def kfree_set_def)

lemma same_mem_no_run: "same_mem k k' \<Longrightarrow> j < NCPU \<Longrightarrow> no_run ord k' j = no_run ord k j"
  by (simp add: same_mem_def no_run_def)

lemma same_mem_took: "same_mem k k1 \<Longrightarrow> took p ord k1 k2 \<Longrightarrow> took p ord k k2"
  using same_mem_kfree [of k k1] unfolding took_def same_mem_def by simp

lemma pages_frame_mono: "pages_frame p R pgs pgs' \<Longrightarrow> R \<subseteq> S \<Longrightarrow> pages_frame p S pgs pgs'"
  unfolding pages_frame_def by blast

lemma slot_subset: "j < NCPU \<Longrightarrow> slot j \<subseteq> {..<NPAGES}"
  by (auto simp: slot_iff page_slot)

lemma get_from_ok:
  assumes ok: "pools_ok k" and j: "j < NCPU" and ord: "ord \<le> BUDDY_MAX_ORDER"
    and c: "cpu_ok (kcpu k)" "0 < noff (kcpu k)"
  shows "\<exists>k' r. get_from i j ord k = Some (k', r) \<and> pools_ok k' \<and> cpu_ok (kcpu k') \<and>
    noff (kcpu k') = noff (kcpu k) - 1 \<and>
    (case r of None \<Rightarrow> same_mem k k' \<and> no_run ord k j | Some p \<Rightarrow> took p ord k k')"
proof -
  note D = pools_okD [OF ok j]
  obtain c' pool' pgs' r where g: "buddy_get_pages i (kcpu k) (mempools k j) (kpages k) ord = Some (c', pool', pgs', r)"
    "buddy_inv PAGES_PER_CPU pool' pgs'" "get_spec PAGES_PER_CPU ord (mempools k j) (kpages k) pool' pgs' r"
    "page_metadata pool' = page_metadata (mempools k j)" "\<not> locked (pool_lock pool')" "cpu_ok c'"
    "noff c' = noff (kcpu k) - 1"
    using buddy_get_pages_ok [OF D(1) ord c D(3), of i] by blast
  define k' where "k' = k\<lparr>kcpu := c', kpages := pgs', mempools := (mempools k)(j := pool')\<rparr>"
  have gf: "get_from i j ord k = Some (k', r)" using g(1) by (simp add: get_from_def k'_def)
  have sel: "mempools k' = (mempools k)(j := pool')" "kpages k' = pgs'" "kcpu k' = c'"
    "pages_cnt k' = pages_cnt k" "recycling k' = recycling k" by (simp_all add: k'_def)
  have frame: "x \<notin> slot j \<Longrightarrow> pgs' x = kpages k x" for x
    using g(3) D(4) by (cases r) (auto simp: get_spec_def pages_frame_def)
  have pk: "pools_ok k'" using pools_ok_upd [OF ok j g(2) _ g(5) frame sel(1,2)] g(4) D(2) by simp
  have "case r of None \<Rightarrow> same_mem k k' \<and> no_run ord k j | Some p \<Rightarrow> took p ord k k'"
  proof (cases r)
    case None
    then have "same_mem k k'" "no_run ord k j"
      using g(3) sel D(2) unfolding get_spec_def same_mem_def no_run_def by simp_all
    then show ?thesis using None by simp
  next
    case (Some p)
    let ?B = "{p..<p + 2 ^ ord}"
    have s: "?B \<subseteq> free_set (mempools k j)" "free_set pool' = free_set (mempools k j) - ?B"
      "allocated (pgs' p)" "order (pgs' p) = ord" "pages_frame p (slot j) (kpages k) pgs'"
      using g(3) Some unfolding get_spec_def D(4) by simp_all
    define U where "U = (\<Union>i\<in>{..<NCPU} - {j}. free_set (mempools k i))"
    have "?B \<inter> free_set (mempools k i) = {}" if "i < NCPU" "i \<noteq> j" for i
      using s(1) D(5) free_set_other [OF ok that(1), of j] that(2) by blast
    then have U: "U \<inter> ?B = {}" unfolding U_def by blast
    note ku = kfree_set_upd [OF j sel(1), folded U_def]
    have kf: "kfree_set k' = kfree_set k - ?B" "?B \<subseteq> kfree_set k"
      unfolding ku s(2) using U s(1) by auto
    show ?thesis
      using Some s(3,4) kf sel pages_frame_mono [OF s(5) slot_subset [OF j]] by (simp add: took_def)
  qed
  then show ?thesis using gf pk g(6,7) sel(3) by simp
qed

lemma steal_from_ok:
  assumes "pools_ok k" "set js \<subseteq> {..<NCPU}" "ord \<le> BUDDY_MAX_ORDER" "cpu_ok (kcpu k)"
  shows "\<exists>k' r. steal_from i cur ord js k = Some (k', r) \<and> pools_ok k' \<and> cpu_ok (kcpu k') \<and>
    noff (kcpu k') = noff (kcpu k) \<and>
    (case r of None \<Rightarrow> same_mem k k' \<and> (\<forall>j\<in>set js - {cur}. no_run ord k j) | Some p \<Rightarrow> took p ord k k')"
  using assms
proof (induction js arbitrary: k)
  case Nil
  then show ?case by simp
next
  case (Cons j js)
  show ?case
  proof (cases "j = cur")
    case True
    then have e: "set (j # js) - {cur} = set js - {cur}"
      "steal_from i cur ord (j # js) k = steal_from i cur ord js k" by auto
    show ?thesis unfolding e using Cons.prems by (intro Cons.IH) auto
  next
    case False
    let ?k0 = "k\<lparr>kcpu := push_off (kcpu k)\<rparr>"
    have j: "j < NCPU" using Cons.prems(2) by simp
    have p0: "pools_ok ?k0" "cpu_ok (kcpu ?k0)" "0 < noff (kcpu ?k0)" "same_mem k ?k0"
      using Cons.prems by (simp_all add: pools_ok_def cpu_ok_def same_mem_def)
    obtain k1 r1 where g: "get_from i j ord ?k0 = Some (k1, r1)" "pools_ok k1" "cpu_ok (kcpu k1)"
      "noff (kcpu k1) = noff (kcpu k)"
      "case r1 of None \<Rightarrow> same_mem ?k0 k1 \<and> no_run ord ?k0 j | Some p \<Rightarrow> took p ord ?k0 k1"
      using get_from_ok [OF p0(1) j Cons.prems(3) p0(2,3), of i] by auto
    show ?thesis
    proof (cases r1)
      case (Some p)
      then show ?thesis using False g same_mem_took [OF p0(4)] by simp
    next
      case None
      have s: "same_mem k k1" "no_run ord k j"
        using g(5) None same_mem_trans [OF p0(4)] same_mem_no_run [OF p0(4) j] by simp_all
      obtain k2 r2 where st: "steal_from i cur ord js k1 = Some (k2, r2)" "pools_ok k2" "cpu_ok (kcpu k2)"
        "noff (kcpu k2) = noff (kcpu k1)"
        "case r2 of None \<Rightarrow> same_mem k1 k2 \<and> (\<forall>j\<in>set js - {cur}. no_run ord k1 j) | Some p \<Rightarrow> took p ord k1 k2"
        using Cons.IH [OF g(2) _ Cons.prems(3) g(3)] Cons.prems(2) by auto
      have "case r2 of None \<Rightarrow> same_mem k k2 \<and> (\<forall>x\<in>set (j # js) - {cur}. no_run ord k x) | Some p \<Rightarrow> took p ord k k2"
      proof (cases r2)
        case None
        have "no_run ord k x" if "x \<in> set js - {cur}" for x
          using st(5) None that Cons.prems(2) same_mem_no_run [OF s(1), of x ord] by auto
        then show ?thesis using None st(5) s same_mem_trans [OF s(1)] by auto
      next
        case (Some p)
        then show ?thesis using st(5) same_mem_took [OF s(1)] by simp
      qed
      then show ?thesis using False None g(1,4) st(1-4) by simp
    qed
  qed
qed

section \<open>The order of a request\<close>

lemma order_loop_eq:
  "1 \<le> unat w \<Longrightarrow> 2 ^ (order_loop w ord - ord) \<le> unat w \<and> unat w < 2 ^ (Suc (order_loop w ord) - ord) \<and>
    ord \<le> order_loop w ord"
proof (induction w ord rule: order_loop.induct)
  case (1 tmp ord)
  show ?case
  proof (cases "1 < tmp")
    case True
    have h: "unat (drop_bit 1 tmp) = unat tmp div 2" by (simp add: drop_bit_eq_div unat_div)
    have t: "2 \<le> unat tmp" using True by (simp add: word_less_nat_alt)
    define m where "m = order_loop (drop_bit 1 tmp) (ord + 1)"
    have ih: "2 ^ (m - (ord + 1)) \<le> unat tmp div 2" "unat tmp div 2 < 2 ^ (Suc m - (ord + 1))" "ord + 1 \<le> m"
      using 1(1) [OF True] h t unfolding m_def by auto
    have e: "m - ord = Suc (m - (ord + 1))" "Suc m - ord = Suc (Suc m - (ord + 1))" using ih(3) by auto
    have "2 ^ (m - ord) \<le> unat tmp" "unat tmp < 2 ^ (Suc m - ord)"
      using ih(1,2) unfolding e by simp_all
    moreover have "order_loop tmp ord = m" using True by (simp add: m_def order_loop.simps [of tmp])
    ultimately show ?thesis using ih(3) by simp
  next
    case False
    then have "unat tmp = 1" using 1(2) by (simp add: word_less_nat_alt)
    then show ?thesis using False by (simp add: order_loop.simps [of tmp])
  qed
qed

lemma size_to_page_order_eq:
  assumes "0 < unat sz" "unat sz \<le> 2 ^ 42"
  shows "\<exists>ord. size_to_page_order sz = Some ord \<and> unat sz \<le> 2 ^ ord * 4096 \<and>
    (ord = 0 \<or> 2 ^ (ord - 1) * 4096 < unat sz)"
proof -
  define pn where "pn = ROUND_UP sz PGSIZE div PGSIZE"
  have "unat (sz + 4095) = unat sz + 4095" using assms(2) by (simp add: unat_add_lem [THEN iffD1])
  then have "unat (ROUND_UP sz PGSIZE) = (unat sz + 4095) div 2 ^ 12 * 2 ^ 12"
    using unat_ROUND_DOWN [of PGSIZE 12 "sz + 4095"] by (simp add: PGSIZE_def ROUND_UP_eq)
  then have pn: "unat pn = (unat sz + 4095) div 4096"
    by (simp add: pn_def PGSIZE_def unat_div)
  define m where "m = order_loop pn 0"
  have m: "2 ^ m \<le> unat pn" "unat pn < 2 ^ Suc m"
    using order_loop_eq [of pn 0] pn assms(1) unfolding m_def by auto
  have "unat pn \<le> 2 ^ 30" using assms(2) unfolding pn by simp
  then have "(2::nat) ^ m \<le> 2 ^ 30" using m(1) by linarith
  then have m31: "m < 31" using power_increasing_iff [of "2::nat" m 30] by simp
  have "unat (push_bit m (1 :: u64)) = 2 ^ m" using m31 by (intro unat_push_bit_1) simp
  then have lt: "push_bit m 1 < pn \<longleftrightarrow> 2 ^ m < unat pn" by (simp add: word_less_nat_alt)
  have s: "size_to_page_order sz = Some (if 2 ^ m < unat pn then m + 1 else m)"
    using m31 lt by (simp add: size_to_page_order_def pn_def [symmetric] m_def [symmetric])
  have up: "unat sz \<le> unat pn * 4096" "(unat pn - 1) * 4096 < unat sz" using pn assms(1) by auto
  show ?thesis
  proof (cases "2 ^ m < unat pn")
    case True
    then have "2 ^ m \<le> unat pn - 1" by simp
    then have "2 ^ m * 4096 < unat sz" using up(2) by (meson le_less_trans mult_le_mono1)
    moreover have "unat sz \<le> 2 ^ Suc m * 4096" using m(2) up(1) by (meson le_trans less_imp_le mult_le_mono1)
    ultimately show ?thesis using s True by simp
  next
    case False
    then have e: "unat pn = 2 ^ m" using m(1) by simp
    have "2 ^ (m - 1) * 4096 < unat sz" if "m \<noteq> 0"
    proof -
      have "(2::nat) ^ m = 2 * 2 ^ (m - 1)" using that by (metis power_Suc Suc_pred' neq0_conv)
      then have "2 ^ (m - 1) \<le> unat pn - 1" using e by simp
      then show ?thesis using up(2) by (meson le_less_trans mult_le_mono1)
    qed
    then show ?thesis using s False up(1) e by auto
  qed
qed

text \<open>The order \<^verbatim>\<open>kmalloc\<close> uses: the least whose block holds the request.\<close>

definition kmalloc_order :: "u64 \<Rightarrow> nat option" where
  "kmalloc_order sz = (if sz \<le> PGSIZE then Some 0 else size_to_page_order sz)"

lemma kmalloc_order_eq:
  assumes "unat sz \<le> 2 ^ 42"
  shows "\<exists>ord. kmalloc_order sz = Some ord \<and> unat sz \<le> 2 ^ ord * 4096 \<and> (ord = 0 \<or> 2 ^ (ord - 1) * 4096 < unat sz)"
proof (cases "sz \<le> PGSIZE")
  case True
  then show ?thesis by (simp add: kmalloc_order_def PGSIZE_def word_le_nat_alt)
next
  case False
  then have "0 < unat sz" by (simp add: PGSIZE_def word_le_nat_alt)
  then show ?thesis using False size_to_page_order_eq assms by (simp add: kmalloc_order_def)
qed

lemma kmalloc_order_le:
  assumes "unat sz \<le> 2 ^ 25" "kmalloc_order sz = Some ord"
  shows "ord \<le> BUDDY_MAX_ORDER"
proof -
  have "ord = 0 \<or> 2 ^ (ord - 1) * 4096 < unat sz"
    using kmalloc_order_eq [of sz] assms by fastforce
  then have "ord = 0 \<or> 2 ^ (ord - 1) * 4096 < (2::nat) ^ 13 * 4096" using assms(1) by auto
  then have "ord = 0 \<or> ord - 1 < 13" using power_less_imp_less_exp [of "2::nat" "ord - 1" 13] by auto
  then show ?thesis by (auto simp: BUDDY_MAX_ORDER_def)
qed

section \<open>Allocation\<close>

text \<open>What an allocation relies on from the reclaimer: it does not panic, keeps the allocator's
  invariant, and changes no allocated page outside the page cache \<open>PC\<close>.\<close>

definition reclaims :: "nat set \<Rightarrow> (kmem \<Rightarrow> kmem option) \<Rightarrow> bool" where
  "reclaims PC af \<longleftrightarrow>
     (\<forall>k. kmem_ok k \<longrightarrow> (\<exists>k'. af k = Some k' \<and> kmem_ok k' \<and> recycling k' = recycling k \<and>
        noff (kcpu k') = noff (kcpu k) \<and>
        (\<forall>p<NPAGES. p \<notin> PC \<longrightarrow> allocated (kpages k p) \<longrightarrow> kpages k' p = kpages k p)))"

lemma kmem_ok_recycling [simp]: "kmem_ok (k\<lparr>recycling := n\<rparr>) = kmem_ok k"
  by (simp add: kmem_ok_def pools_ok_def kfree_set_def)

lemma frame_pages:
  assumes "pages_frame p R pgs pgs'"
  shows "refcnt (pgs' x) = refcnt (pgs x)" "pg_lock (pgs' x) = pg_lock (pgs x)"
    "x \<noteq> p \<Longrightarrow> allocated (pgs' x) = allocated (pgs x)"
    "x \<noteq> p \<Longrightarrow> allocated (pgs x) \<Longrightarrow> pgs' x = pgs x" "x \<notin> R \<Longrightarrow> pgs' x = pgs x"
proof -
  obtain k a where "pgs' x = (pgs x)\<lparr>order := k, allocated := a\<rparr>" using assms unfolding pages_frame_def by blast
  then show "refcnt (pgs' x) = refcnt (pgs x)" "pg_lock (pgs' x) = pg_lock (pgs x)" by simp_all
qed (use assms in \<open>auto simp: pages_frame_def\<close>)

lemma took_in: "took p ord k k' \<Longrightarrow> p \<in> kfree_set k"
proof -
  assume "took p ord k k'"
  moreover have "p \<in> {p..<p + 2 ^ ord}" by simp
  ultimately show ?thesis unfolding took_def by blast
qed

text \<open>The state after the reference count of the block is set and its pages are charged.\<close>

lemma charged_ok:
  assumes ok: "kmem_ok k" and t: "took p ord k k1" and p1: "pools_ok k1" "cpu_ok (kcpu k1)"
    and k2: "k2 = k1\<lparr>kpages := (kpages k1)(p := (kpages k1 p)\<lparr>refcnt := 1\<rparr>),
      pages_cnt := pages_cnt k1 - 2 ^ ord\<rparr>"
  shows "kmem_ok k2" "refcnt (kpages k1 p) = 0"
    "allocated (kpages k2 p)" "order (kpages k2 p) = ord" "refcnt (kpages k2 p) = 1"
    "\<And>q. allocated (kpages k q) \<Longrightarrow> kpages k2 q = kpages k q"
proof -
  have o: "pools_ok k" "counts_ok (kpages k)" "pages_cnt k = int (card (kfree_set k))"
    using ok by (auto simp: kmem_ok_def)
  have T: "{p..<p + 2 ^ ord} \<subseteq> kfree_set k" "kfree_set k1 = kfree_set k - {p..<p + 2 ^ ord}"
    "allocated (kpages k1 p)" "order (kpages k1 p) = ord" "pages_cnt k1 = pages_cnt k"
    "pages_frame p {..<NPAGES} (kpages k) (kpages k1)"
    using t by (simp_all add: took_def)
  note fr = frame_pages [OF T(6)]
  have pf: "p \<in> kfree_set k" by (rule took_in [OF t])
  have na: "\<not> allocated (kpages k p)" "p < NPAGES"
    using kfree_not_allocated [OF o(1) pf] kfree_set_range [OF o(1) pf] by auto
  show r0: "refcnt (kpages k1 p) = 0" using o(2) na fr(1) [of p] by (simp add: counts_ok_def)
  have pools: "pools_ok k2" using p1(1) unfolding pools_ok_def k2 by (simp add: buddy_inv_lock_refcnt)
  have counts: "counts_ok (kpages k2)"
    unfolding counts_ok_def
  proof (intro allI impI)
    fix x assume "x < NPAGES"
    then show "(if allocated (kpages k2 x) then 1 \<le> refcnt (kpages k2 x) else refcnt (kpages k2 x) = 0) \<and>
        \<not> locked (pg_lock (kpages k2 x))"
      using o(2) fr(1-3) [of x] T(3) by (cases "x = p") (simp_all add: counts_ok_def k2)
  qed
  have free: "kfree_set k2 = kfree_set k1" by (simp add: k2 kfree_set_def)
  have "card (kfree_set k1) = card (kfree_set k) - 2 ^ ord" "2 ^ ord \<le> card (kfree_set k)"
    using T(1) o(1) card_mono [OF finite_kfree_set [OF o(1)] T(1)] unfolding T(2) by (simp_all add: card_Diff_subset)
  then have "pages_cnt k2 = int (card (kfree_set k2))"
    using o(3) T(5) by (simp add: k2 free kfree_set_def)
  then show "kmem_ok k2" using pools counts p1(2) by (simp add: kmem_ok_def k2)
  show "allocated (kpages k2 p)" "order (kpages k2 p) = ord" "refcnt (kpages k2 p) = 1"
    using T(3,4) by (simp_all add: k2)
  show "kpages k2 q = kpages k q" if "allocated (kpages k q)" for q
    using fr(4) [of q] na(1) that by (auto simp: k2)
qed

lemma hand_out_ok:
  assumes ok: "kmem_ok k" and t: "took p ord k k1" and p1: "pools_ok k1" "cpu_ok (kcpu k1)"
    and af: "reclaims PC af" and pc: "PC \<inter> kfree_set k = {}"
  shows "\<exists>k'. hand_out af p k1 = Some (k', Some (page_to_pa p)) \<and> kmem_ok k' \<and>
    noff (kcpu k') = noff (kcpu k1) \<and> recycling k' = recycling k \<and> allocated (kpages k' p) \<and> order (kpages k' p) = ord \<and>
    refcnt (kpages k' p) = 1 \<and> (\<forall>q<NPAGES. q \<notin> PC \<longrightarrow> allocated (kpages k q) \<longrightarrow> kpages k' q = kpages k q) \<and>
    (af = Some \<longrightarrow> kfree_set k' = kfree_set k - {p..<p + 2 ^ ord})"
proof -
  have o: "order (kpages k1 p) = ord" "recycling k1 = recycling k" using t by (simp_all add: took_def)
  define k2 where k2: "k2 = k1\<lparr>kpages := (kpages k1)(p := (kpages k1 p)\<lparr>refcnt := 1\<rparr>),
      pages_cnt := pages_cnt k1 - 2 ^ ord\<rparr>"
  note C = charged_ok [OF ok t p1 k2]
  have free: "kfree_set k2 = kfree_set k - {p..<p + 2 ^ ord}" using t by (simp add: k2 took_def kfree_set_def)
  have p: "p < NPAGES" "p \<notin> PC"
    using took_in [OF t] kfree_set_range ok pc unfolding kmem_ok_def by blast+
  show ?thesis
  proof (cases "recycling k2 = 0 \<and> pages_cnt k2 < PAGES_THRESHOLD")
    case False
    then have "hand_out af p k1 = Some (k2, Some (page_to_pa p))"
      using C(2) o by (auto simp: hand_out_def Let_def k2)
    then show ?thesis using C o free by (auto simp: k2)
  next
    case True
    define k3 where "k3 = k2\<lparr>recycling := recycling k2 + 1\<rparr>"
    obtain k' where k': "af k3 = Some k'" "kmem_ok k'" "recycling k' = recycling k3"
      "noff (kcpu k') = noff (kcpu k3)"
      "\<forall>p<NPAGES. p \<notin> PC \<longrightarrow> allocated (kpages k3 p) \<longrightarrow> kpages k' p = kpages k3 p"
      using af C(1) unfolding reclaims_def k3_def by (metis kmem_ok_recycling)
    have "hand_out af p k1 = Some (k'\<lparr>recycling := recycling k' - 1\<rparr>, Some (page_to_pa p))"
      using C(2) o True k'(1) by (simp add: hand_out_def Let_def k2 k3_def)
    moreover have "kpages k' p = kpages k2 p" using k'(5) p C(3) by (simp add: k3_def)
    moreover have "kpages k' q = kpages k q" if "q < NPAGES" "q \<notin> PC" "allocated (kpages k q)" for q
      using k'(5) that C(6) [OF that(3)] by (simp add: k3_def)
    moreover have "kfree_set (k'\<lparr>recycling := recycling k' - 1\<rparr>) = kfree_set k - {p..<p + 2 ^ ord}" if "af = Some"
      using k'(1) that free by (auto simp: k3_def kfree_set_def)
    ultimately show ?thesis using C k' o by (auto simp: k3_def k2)
  qed
qed

lemma alloc_order_ok:
  assumes ok: "kmem_ok k" and i: "i < NCPU" and ord: "ord \<le> BUDDY_MAX_ORDER"
    and af: "reclaims PC af" and pc: "PC \<inter> kfree_set k = {}"
  shows "\<exists>k' r. alloc_order af i ord k = Some (k', r) \<and> kmem_ok k' \<and> noff (kcpu k') = noff (kcpu k) \<and>
    recycling k' = recycling k \<and>
    (case r of
       None \<Rightarrow> same_mem k k' \<and> (\<forall>j<NCPU. no_run ord k j)
     | Some pa \<Rightarrow> \<exists>p. pa = page_to_pa p \<and> {p..<p + 2 ^ ord} \<subseteq> kfree_set k \<and>
         allocated (kpages k' p) \<and> order (kpages k' p) = ord \<and> refcnt (kpages k' p) = 1 \<and>
         (\<forall>q<NPAGES. q \<notin> PC \<longrightarrow> allocated (kpages k q) \<longrightarrow> kpages k' q = kpages k q) \<and>
         (af = Some \<longrightarrow> kfree_set k' = kfree_set k - {p..<p + 2 ^ ord}))"
proof -
  let ?k0 = "k\<lparr>kcpu := push_off (kcpu k)\<rparr>"
  have p0: "pools_ok ?k0" "cpu_ok (kcpu ?k0)" "0 < noff (kcpu ?k0)" "same_mem k ?k0"
    using ok by (simp_all add: kmem_ok_def pools_ok_def cpu_ok_def same_mem_def)
  obtain k1 r1 where g: "get_from i i ord ?k0 = Some (k1, r1)" "pools_ok k1" "cpu_ok (kcpu k1)"
    "noff (kcpu k1) = noff (kcpu k)"
    "case r1 of None \<Rightarrow> same_mem ?k0 k1 \<and> no_run ord ?k0 i | Some p \<Rightarrow> took p ord ?k0 k1"
    using get_from_ok [OF p0(1) i ord p0(2,3), of i] by auto
  have "\<exists>k2 r2. (if r1 = None then steal_mem i i ord k1 else Some (k1, r1)) = Some (k2, r2) \<and> pools_ok k2 \<and>
    cpu_ok (kcpu k2) \<and> noff (kcpu k2) = noff (kcpu k) \<and>
    (case r2 of None \<Rightarrow> same_mem k k2 \<and> (\<forall>j<NCPU. no_run ord k j) | Some p \<Rightarrow> took p ord k k2)"
  proof (cases r1)
    case (Some p)
    then show ?thesis using g same_mem_took [OF p0(4)] by simp
  next
    case None
    have s: "same_mem k k1" "no_run ord k i"
      using g(5) None same_mem_trans [OF p0(4)] same_mem_no_run [OF p0(4) i] by simp_all
    obtain k2 r2 where st: "steal_mem i i ord k1 = Some (k2, r2)" "pools_ok k2" "cpu_ok (kcpu k2)"
      "noff (kcpu k2) = noff (kcpu k1)"
      "case r2 of None \<Rightarrow> same_mem k1 k2 \<and> (\<forall>j\<in>set [0..<NCPU] - {i}. no_run ord k1 j) | Some p \<Rightarrow> took p ord k1 k2"
      using steal_from_ok [OF g(2) _ ord g(3), of "[0..<NCPU]" i i] unfolding steal_mem_def
      by (simp only: set_upt lessThan_atLeast0 subset_refl simp_thms) blast
    have "case r2 of None \<Rightarrow> same_mem k k2 \<and> (\<forall>j<NCPU. no_run ord k j) | Some p \<Rightarrow> took p ord k k2"
    proof (cases r2)
      case None
      have "no_run ord k j" if "j < NCPU" for j
        using st(5) None s(2) that same_mem_no_run [OF s(1) that, of ord] by (cases "j = i") simp_all
      then show ?thesis using None st(5) same_mem_trans [OF s(1)] by simp
    next
      case (Some p)
      then show ?thesis using st(5) same_mem_took [OF s(1)] by simp
    qed
    then show ?thesis using None st(1-4) g(4) by simp
  qed
  then obtain k2 r2 where e: "(if r1 = None then steal_mem i i ord k1 else Some (k1, r1)) = Some (k2, r2)"
    "pools_ok k2" "cpu_ok (kcpu k2)" "noff (kcpu k2) = noff (kcpu k)"
    "case r2 of None \<Rightarrow> same_mem k k2 \<and> (\<forall>j<NCPU. no_run ord k j) | Some p \<Rightarrow> took p ord k k2" by blast
  have run: "alloc_order af i ord k = (case r2 of None \<Rightarrow> Some (k2, None) | Some p \<Rightarrow> hand_out af p k2)"
    using g(1) e(1) i by (simp add: alloc_order_def)
  show ?thesis
  proof (cases r2)
    case None
    then have "same_mem k k2" using e(5) by simp
    then have "kmem_ok k2" using ok e(2,3) same_mem_kfree [of k k2] by (simp add: kmem_ok_def same_mem_def)
    then show ?thesis using run None e(4,5) by (simp add: same_mem_def)
  next
    case (Some p)
    then have t: "took p ord k k2" using e(5) by simp
    from hand_out_ok [OF ok t e(2,3) af pc] obtain k' where
      "hand_out af p k2 = Some (k', Some (page_to_pa p))" "kmem_ok k'" "noff (kcpu k') = noff (kcpu k2)"
      "recycling k' = recycling k" "allocated (kpages k' p)" "order (kpages k' p) = ord" "refcnt (kpages k' p) = 1"
      "\<forall>q<NPAGES. q \<notin> PC \<longrightarrow> allocated (kpages k q) \<longrightarrow> kpages k' q = kpages k q"
      "af = Some \<longrightarrow> kfree_set k' = kfree_set k - {p..<p + 2 ^ ord}" by blast
    moreover have "{p..<p + 2 ^ ord} \<subseteq> kfree_set k" using t by (simp add: took_def)
    ultimately show ?thesis using run Some e(4) by auto
  qed
qed

section \<open>Release and sharing\<close>

text \<open>Dropping one of several references changes the count of the page and its lock, and nothing else.\<close>

lemma kfree_shared_exact:
  assumes ok: "kmem_ok k" and p: "p < NPAGES" "2 \<le> refcnt (kpages k p)"
  shows "\<exists>k'. kfree i (page_to_pa p) k = Some k' \<and> kmem_ok k' \<and> noff (kcpu k') = noff (kcpu k) \<and>
    intr (kcpu k') = intr (kcpu k) \<and> mempools k' = mempools k \<and> pages_cnt k' = pages_cnt k \<and> recycling k' = recycling k \<and>
    kpages k' = (kpages k)(p := (kpages k p)\<lparr>refcnt := refcnt (kpages k p) - 1, pg_lock := (pg_lock (kpages k p))\<lparr>lk_cpu := None\<rparr>\<rparr>)"
proof -
  have o: "pools_ok k" "counts_ok (kpages k)" "cpu_ok (kcpu k)" using ok by (auto simp: kmem_ok_def)
  have pl: "\<not> locked (pg_lock (kpages k p))" "allocated (kpages k p)"
    using o(2) p by (auto simp: counts_ok_def split: if_splits)
  note ra = release_acquire [OF o(3) pl(1), of i]
  define lk where "lk = (pg_lock (kpages k p))\<lparr>lk_cpu := None\<rparr>"
  have lk: "(pg_lock (kpages k p))\<lparr>locked := False, lk_cpu := None\<rparr> = lk" using pl(1) by (simp add: lk_def)
  define c where "c = (kcpu k)\<lparr>intena := (if noff (kcpu k) = 0 then intr (kcpu k) else intena (kcpu k))\<rparr>"
  define k1 where "k1 = k\<lparr>kcpu := c, kpages := (kpages k)(p := (kpages k p)\<lparr>refcnt := refcnt (kpages k p) - 1, pg_lock := lk\<rparr>)\<rparr>"
  have "p < 2 ^ 50" using p(1) by (simp add: config)
  then have "kfree i (page_to_pa p) k = Some k1"
    using ra p(2) by (simp add: kfree_def Let_def k1_def c_def lk)
  moreover have "pools_ok k1" using o(1) unfolding pools_ok_def k1_def by (simp add: buddy_inv_lock_refcnt)
  moreover have "counts_ok (kpages k1)" using o(2) p pl unfolding counts_ok_def k1_def by (simp add: lk_def)
  moreover have "kfree_set k1 = kfree_set k" by (simp add: k1_def kfree_set_def)
  moreover have "cpu_ok c" "noff c = noff (kcpu k)" "intr c = intr (kcpu k)" using o(3) by (simp_all add: c_def cpu_ok_def)
  ultimately show ?thesis using ok by (intro exI [of _ k1]) (auto simp: kmem_ok_def k1_def lk_def)
qed

lemma kfree_shared:
  assumes ok: "kmem_ok k" and p: "p < NPAGES" "2 \<le> refcnt (kpages k p)"
  shows "\<exists>k'. kfree i (page_to_pa p) k = Some k' \<and> kmem_ok k' \<and> noff (kcpu k') = noff (kcpu k) \<and>
    intr (kcpu k') = intr (kcpu k) \<and> kfree_set k' = kfree_set k \<and> refcnt (kpages k' p) = refcnt (kpages k p) - 1 \<and>
    (\<forall>q. q \<noteq> p \<longrightarrow> kpages k' q = kpages k q) \<and> allocated (kpages k' p) \<and> order (kpages k' p) = order (kpages k p)"
proof -
  have "allocated (kpages k p)" using ok p by (auto simp: kmem_ok_def counts_ok_def split: if_splits)
  then show ?thesis using kfree_shared_exact [OF assms, of i] by (auto simp: kfree_set_def)
qed

lemma kfree_last:
  assumes ok: "kmem_ok k" and p: "p < NPAGES" "refcnt (kpages k p) = 1"
  shows "\<exists>k'. kfree i (page_to_pa p) k = Some k' \<and> kmem_ok k' \<and> noff (kcpu k') = noff (kcpu k) \<and>
    intr (kcpu k') = intr (kcpu k) \<and>
    kfree_set k' = kfree_set k \<union> {p..<p + 2 ^ order (kpages k p)} \<and> \<not> allocated (kpages k' p) \<and>
    (\<forall>q. q \<noteq> p \<longrightarrow> allocated (kpages k' q) = allocated (kpages k q)) \<and>
    (\<forall>q. q \<noteq> p \<longrightarrow> allocated (kpages k q) \<longrightarrow> kpages k' q = kpages k q)"
proof -
  have o: "pools_ok k" "counts_ok (kpages k)" "cpu_ok (kcpu k)" "pages_cnt k = int (card (kfree_set k))"
    using ok by (auto simp: kmem_ok_def)
  have pl: "\<not> locked (pg_lock (kpages k p))" "allocated (kpages k p)"
    using o(2) p by (auto simp: counts_ok_def split: if_splits)
  note ra = release_acquire [OF o(3) pl(1), of i]
  define lk where "lk = (pg_lock (kpages k p))\<lparr>locked := False, lk_cpu := None\<rparr>"
  define c where "c = (kcpu k)\<lparr>intena := (if noff (kcpu k) = 0 then intr (kcpu k) else intena (kcpu k))\<rparr>"
  define pgs1 where "pgs1 = (kpages k)(p := (kpages k p)\<lparr>refcnt := 0, pg_lock := lk\<rparr>)"
  define j where "j = get_pages_cpu p"
  have j: "j < NCPU" "p \<in> slot j" using p(1) by (simp_all add: j_def get_pages_cpu_def page_slot slot_iff)
  note D = pools_okD [OF o(1) j(1)]
  have D1: "buddy_inv PAGES_PER_CPU (mempools k j) pgs1" using D(1) by (simp add: pgs1_def buddy_inv_lock_refcnt)
  have c1: "cpu_ok c" "noff c = noff (kcpu k)" "intr c = intr (kcpu k)" using o(3) by (simp_all add: c_def cpu_ok_def)
  have pr: "page_metadata (mempools k j) \<le> p" "p < page_metadata (mempools k j) + PAGES_PER_CPU"
    using j(2) D(4) unfolding pool_range_def by auto
  have al: "allocated (pgs1 p)" "blk pgs1 p = {p..<p + 2 ^ order (kpages k p)}" using pl(2) by (simp_all add: pgs1_def blk_def)
  obtain c' pool' pgs' where f: "buddy_free_pages i c (mempools k j) pgs1 p = Some (c', pool', pgs')"
    "buddy_inv PAGES_PER_CPU pool' pgs'" "page_metadata pool' = page_metadata (mempools k j)"
    "free_set pool' = free_set (mempools k j) \<union> blk pgs1 p" "free_set (mempools k j) \<inter> blk pgs1 p = {}"
    "\<not> allocated (pgs' p)" "pages_frame p (slot j) pgs1 pgs'" "\<not> locked (pool_lock pool')"
    "cpu_ok c'" "noff c' = noff c" "intr c' = intr c"
    using buddy_free_pages_ok [OF D1 pr al(1) c1(1) D(3), of i] unfolding D(4) by blast
  define k' where "k' = k\<lparr>kcpu := c', kpages := pgs', mempools := (mempools k)(j := pool'),
    pages_cnt := pages_cnt k + 2 ^ order (kpages k p)\<rparr>"
  have "p < 2 ^ 50" using p(1) by (simp add: config)
  then have run: "kfree i (page_to_pa p) k = Some k'"
    using ra p(2) pl(2) f(1) j(1)
    by (simp add: kfree_def Let_def c_def [symmetric] lk_def [symmetric] pgs1_def [symmetric] j_def [symmetric] k'_def)
  have sel: "mempools k' = (mempools k)(j := pool')" "kpages k' = pgs'" "kcpu k' = c'" by (simp_all add: k'_def)
  note fr = frame_pages [OF f(7)]
  have fr': "x \<noteq> p \<Longrightarrow> refcnt (pgs' x) = refcnt (kpages k x) \<and> pg_lock (pgs' x) = pg_lock (kpages k x) \<and>
      allocated (pgs' x) = allocated (kpages k x)" for x
    using fr(1,2,3) [of x] by (simp add: pgs1_def)
  have "x \<notin> slot j \<Longrightarrow> pgs' x = kpages k x" for x using fr(5) [of x] j(2) by (auto simp: pgs1_def)
  then have po: "pools_ok k'" using pools_ok_upd [OF o(1) j(1) f(2) _ f(8) _ sel(1,2)] f(3) D(2) by simp
  have co: "counts_ok pgs'"
    unfolding counts_ok_def
  proof (intro allI impI)
    fix x assume "x < NPAGES"
    then show "(if allocated (pgs' x) then 1 \<le> refcnt (pgs' x) else refcnt (pgs' x) = 0) \<and> \<not> locked (pg_lock (pgs' x))"
      using o(2) fr' [of x] fr(1,2) [of p] f(6) by (cases "x = p") (simp_all add: counts_ok_def pgs1_def lk_def)
  qed
  have fs: "kfree_set k' = kfree_set k \<union> {p..<p + 2 ^ order (kpages k p)}"
    unfolding kfree_set_upd [OF j(1) sel(1)] f(4) al(2) by blast
  have "card (kfree_set k') = card (kfree_set k) + 2 ^ order (kpages k p)"
    unfolding fs using allocated_not_free(1) [OF o(1) p(1) pl(2)] o(1) by (subst card_Un_disjoint) auto
  then have "pages_cnt k' = int (card (kfree_set k'))" using o(4) by (simp add: k'_def)
  then have "kmem_ok k'" using po co f(9) sel by (simp add: kmem_ok_def)
  moreover have "q \<noteq> p \<Longrightarrow> allocated (kpages k q) \<Longrightarrow> kpages k' q = kpages k q" for q
    using fr(4) [of q] by (simp add: sel pgs1_def)
  ultimately show ?thesis using run fs f(6,10,11) c1 sel fr' by simp
qed

lemma kfree_bad:
  assumes "kmem_ok k" "p < NPAGES" "\<not> allocated (kpages k p)"
  shows "kfree i (page_to_pa p) k = None"
proof -
  have "refcnt (kpages k p) = 0" using assms by (auto simp: kmem_ok_def counts_ok_def)
  moreover have "p < 2 ^ 50" using assms(2) by (simp add: config)
  ultimately show ?thesis by (simp add: kfree_def acquire_def)
qed

lemma share_page_ok:
  assumes ok: "kmem_ok k" and p: "p < NPAGES" "allocated (kpages k p)" "refcnt (kpages k p) < 2 ^ 31 - 1"
  shows "share_page (page_to_pa p) k = Some (k\<lparr>kpages := (kpages k)(p := (kpages k p)\<lparr>refcnt := refcnt (kpages k p) + 1\<rparr>)\<rparr>)"
    "kmem_ok (k\<lparr>kpages := (kpages k)(p := (kpages k p)\<lparr>refcnt := refcnt (kpages k p) + 1\<rparr>)\<rparr>)"
proof -
  have o: "pools_ok k" "counts_ok (kpages k)" using ok by (auto simp: kmem_ok_def)
  have r: "1 \<le> refcnt (kpages k p)" using o(2) p by (auto simp: counts_ok_def)
  define k' where "k' = k\<lparr>kpages := (kpages k)(p := (kpages k p)\<lparr>refcnt := refcnt (kpages k p) + 1\<rparr>)\<rparr>"
  have "p < 2 ^ 50" using p(1) by (simp add: config)
  moreover have "wrap32 (refcnt (kpages k p) + 1) = refcnt (kpages k p) + 1"
    using r p(3) by (intro wrap32_id) (simp add: int_ok_def)
  ultimately show "share_page (page_to_pa p) k = Some (k\<lparr>kpages := (kpages k)(p := (kpages k p)\<lparr>refcnt := refcnt (kpages k p) + 1\<rparr>)\<rparr>)"
    using r by (simp add: share_page_def)
  have "pools_ok k'" using o(1) unfolding pools_ok_def k'_def by (simp add: buddy_inv_lock_refcnt)
  moreover have "counts_ok (kpages k')" using o(2) p unfolding counts_ok_def k'_def by auto
  moreover have "kfree_set k' = kfree_set k" by (simp add: kfree_set_def k'_def)
  ultimately show "kmem_ok (k\<lparr>kpages := (kpages k)(p := (kpages k p)\<lparr>refcnt := refcnt (kpages k p) + 1\<rparr>)\<rparr>)"
    using ok unfolding k'_def [symmetric] by (auto simp: kmem_ok_def k'_def)
qed

section \<open>Free memory and initialisation\<close>

lemma sum_pools_ok:
  assumes "pools_ok k" "set js \<subseteq> {..<NCPU}" "cpu_ok (kcpu k)"
  shows "\<exists>k'. sum_pools i js k m = Some (k', m + of_nat (\<Sum>j\<leftarrow>js. card (free_set (mempools k j))) * 4096) \<and>
    pools_ok k' \<and> same_mem k k' \<and> cpu_ok (kcpu k') \<and> noff (kcpu k') = noff (kcpu k)"
  using assms
proof (induction js arbitrary: k m)
  case Nil
  then show ?case by simp
next
  case (Cons j js)
  have j: "j < NCPU" using Cons.prems(2) by simp
  note D = pools_okD [OF Cons.prems(1) j]
  define lk where "lk = (pool_lock (mempools k j))\<lparr>locked := False, lk_cpu := None\<rparr>"
  define c where "c = (kcpu k)\<lparr>intena := (if noff (kcpu k) = 0 then intr (kcpu k) else intena (kcpu k))\<rparr>"
  define k1 where "k1 = k\<lparr>kcpu := c, mempools := (mempools k)(j := (mempools k j)\<lparr>pool_lock := lk\<rparr>)\<rparr>"
  note ra = release_acquire [OF Cons.prems(3) D(3), of i]
  have c: "cpu_ok (kcpu k1)" "noff (kcpu k1) = noff (kcpu k)"
    using Cons.prems(3) by (simp_all add: k1_def c_def cpu_ok_def)
  have p: "pools_ok k1"
    by (rule pools_ok_upd [OF Cons.prems(1) j, where pool = "(mempools k j)\<lparr>pool_lock := lk\<rparr>" and pgs = "kpages k"])
      (use D in \<open>simp_all add: k1_def lk_def\<close>)
  have s: "same_mem k k1" by (simp add: same_mem_def k1_def)
  have fs: "free_set (mempools k1 x) = free_set (mempools k x)" for x by (simp add: k1_def)
  let ?m1 = "m + of_nat (card (free_set (mempools k j))) * 4096"
  have "sum_pools i (j # js) k m = sum_pools i js k1 ?m1"
    using ra sum_freelists_free [OF D(1), of m] by (simp add: k1_def c_def lk_def Let_def del: upt_Suc)
  moreover obtain k' where "sum_pools i js k1 ?m1 = Some (k', ?m1 + of_nat (\<Sum>j\<leftarrow>js. card (free_set (mempools k1 j))) * 4096)"
    "pools_ok k'" "same_mem k1 k'" "cpu_ok (kcpu k')" "noff (kcpu k') = noff (kcpu k1)"
    using Cons.IH [OF p _ c(1)] Cons.prems(2) by auto
  ultimately show ?case using same_mem_trans [OF s] c(2) by (simp add: fs algebra_simps)
qed

lemma card_kfree_set:
  assumes "pools_ok k"
  shows "card (kfree_set k) = (\<Sum>j\<leftarrow>[0..<NCPU]. card (free_set (mempools k j)))"
proof -
  have "finite (free_set (mempools k j))" if "j < NCPU" for j
    using pools_okD(5) [OF assms that] by (simp add: slot_def finite_subset)
  moreover have "free_set (mempools k i) \<inter> free_set (mempools k j) = {}" if "i < NCPU" "j < NCPU" "i \<noteq> j" for i j
    using free_set_other [OF assms that(1,3)] pools_okD(5) [OF assms that(2)] by blast
  ultimately have "card (kfree_set k) = (\<Sum>j<NCPU. card (free_set (mempools k j)))"
    unfolding kfree_set_def by (intro card_UN_disjoint) auto
  then show ?thesis by (simp add: interv_sum_list_conv_sum_set_nat atLeast0LessThan)
qed

text \<open>The loop of \<^verbatim>\<open>mm_init\<close>: the pools below \<open>m\<close> are set up, all their pages free.\<close>

definition pools_done :: "nat \<Rightarrow> kmem \<Rightarrow> bool" where
  "pools_done m k \<longleftrightarrow>
     (\<forall>j<m. buddy_inv PAGES_PER_CPU (mempools k j) (kpages k) \<and> page_metadata (mempools k j) = j * PAGES_PER_CPU \<and>
        \<not> locked (pool_lock (mempools k j)) \<and> free_set (mempools k j) = slot j) \<and>
     (\<forall>p. p div PAGES_PER_CPU < m \<longrightarrow>
        \<not> allocated (kpages k p) \<and> refcnt (kpages k p) = 0 \<and> \<not> locked (pg_lock (kpages k p)))"

lemma pools_done_step:
  assumes d: "pools_done m k" and i: "buddy_inv PAGES_PER_CPU pool pgs" "page_metadata pool = m * PAGES_PER_CPU"
    "\<not> locked (pool_lock pool)" "free_set pool = slot m"
    and out: "\<And>x. x \<notin> slot m \<Longrightarrow> pgs x = kpages k x"
    and ins: "\<And>x. x \<in> slot m \<Longrightarrow> refcnt (pgs x) = 0 \<and> \<not> allocated (pgs x) \<and> \<not> locked (pg_lock (pgs x))"
  shows "pools_done (Suc m) (k\<lparr>kcpu := c, kpages := pgs, mempools := (mempools k)(m := pool)\<rparr>)"
proof -
  have old: "buddy_inv PAGES_PER_CPU (mempools k j) pgs" if "j < m" for j
  proof -
    have b: "buddy_inv PAGES_PER_CPU (mempools k j) (kpages k)" "page_metadata (mempools k j) = j * PAGES_PER_CPU"
      using d that by (auto simp: pools_done_def)
    have "pool_range PAGES_PER_CPU (mempools k j) = slot j" using b(2) by (simp add: pool_range_def slot_def)
    moreover have "pgs x = kpages k x" if "x \<in> slot j" for x
      using out slot_disjoint [of j m] that \<open>j < m\<close> by blast
    ultimately show ?thesis by (intro buddy_inv_cong [OF b(1)]) simp
  qed
  have pg: "\<not> allocated (pgs p) \<and> refcnt (pgs p) = 0 \<and> \<not> locked (pg_lock (pgs p))"
    if "p div PAGES_PER_CPU < Suc m" for p
  proof (cases "p \<in> slot m")
    case True
    then show ?thesis using ins by blast
  next
    case False
    then have "p div PAGES_PER_CPU < m" using that by (simp add: slot_iff)
    then show ?thesis using d out [OF False] by (simp add: pools_done_def)
  qed
  show ?thesis
    unfolding pools_done_def using old pg d i by (simp add: pools_done_def less_Suc_eq)
qed

lemma init_pools_ok:
  assumes "pools_done m k" "m \<le> NCPU" "cpu_ok (kcpu k)" "meta_addr + NPAGES * sizeof_page < unat START_MEM"
  shows "\<exists>k'. init_pools meta_addr i [m..<NCPU] k = Some k' \<and> pools_done NCPU k' \<and> cpu_ok (kcpu k') \<and>
    pages_cnt k' = pages_cnt k \<and> recycling k' = recycling k \<and> noff (kcpu k') = noff (kcpu k)"
  using assms
proof (induction "NCPU - m" arbitrary: m k)
  case 0
  then show ?case by simp
next
  case (Suc n)
  then have m: "m < NCPU" and up: "[m..<NCPU] = m # [Suc m..<NCPU]" by (simp_all add: upt_conv_Cons)
  have "m * PAGES_PER_CPU + PAGES_PER_CPU \<le> NPAGES" using m by (simp add: config)
  then have "meta_addr + m * PAGES_PER_CPU * sizeof_page + PAGES_PER_CPU * sizeof_page < unat START_MEM"
    using Suc.prems(4) mult_le_mono1 [of "m * PAGES_PER_CPU + PAGES_PER_CPU" NPAGES sizeof_page]
    by (simp add: add_mult_distrib)
  from init_buddy_ok [OF _ this Suc.prems(3), of i "kpages k" "START_MEM + of_nat (m * PAGES_PER_CPU) * PGSIZE"]
  obtain c pool pgs where b: "init_buddy meta_addr i (kcpu k) (kpages k) (m * PAGES_PER_CPU)
      (START_MEM + of_nat (m * PAGES_PER_CPU) * PGSIZE) PAGES_PER_CPU = Some (c, pool, pgs)"
    "buddy_inv PAGES_PER_CPU pool pgs" "page_metadata pool = m * PAGES_PER_CPU" "free_set pool = slot m"
    "\<not> locked (pool_lock pool)" "cpu_ok c" "noff c = noff (kcpu k)"
    "\<And>x. x \<notin> slot m \<Longrightarrow> pgs x = kpages k x"
    "\<And>x. x \<in> slot m \<Longrightarrow> refcnt (pgs x) = 0 \<and> \<not> allocated (pgs x) \<and> \<not> locked (pg_lock (pgs x))"
    unfolding slot_def by (auto simp: config)
  let ?k1 = "k\<lparr>kcpu := c, kpages := pgs, mempools := (mempools k)(m := pool)\<rparr>"
  have d: "pools_done (Suc m) ?k1" by (rule pools_done_step [OF Suc.prems(1) b(2,3,5,4,8,9)])
  have "n = NCPU - Suc m" "cpu_ok (kcpu ?k1)" using Suc.hyps(2) b(6) by simp_all
  from Suc.hyps(1) [OF this(1) d _ this(2) Suc.prems(4)] m
  obtain k' where "init_pools meta_addr i [Suc m..<NCPU] ?k1 = Some k'" "pools_done NCPU k'" "cpu_ok (kcpu k')"
    "pages_cnt k' = pages_cnt k" "recycling k' = recycling k" "noff (kcpu k') = noff c" by auto
  then show ?case unfolding up using b(1,7) by simp
qed

lemma mm_init_ok:
  assumes "cpu_ok (kcpu k)" "meta_addr + NPAGES * sizeof_page < unat START_MEM"
  shows "\<exists>k'. mm_init meta_addr i k = Some k' \<and> kmem_ok k' \<and> kfree_set k' = {..<NPAGES} \<and> recycling k' = 0 \<and>
    noff (kcpu k') = noff (kcpu k)"
proof -
  let ?k0 = "k\<lparr>pages_cnt := int NPAGES, recycling := 0\<rparr>"
  have "pools_done 0 ?k0" by (simp add: pools_done_def)
  from init_pools_ok [OF this _ _ assms(2), of i] assms(1)
  obtain k' where k': "init_pools meta_addr i [0..<NCPU] ?k0 = Some k'" "pools_done NCPU k'" "cpu_ok (kcpu k')"
    "pages_cnt k' = int NPAGES" "recycling k' = 0" "noff (kcpu k') = noff (kcpu k)" by auto
  have p: "pools_ok k'" "counts_ok (kpages k')"
    using k'(2) by (auto simp: pools_done_def pools_ok_def counts_ok_def page_slot)
  have "kfree_set k' = (\<Union>j<NCPU. slot j)" using k'(2) unfolding kfree_set_def pools_done_def by simp
  then have f: "kfree_set k' = {..<NPAGES}" by (auto simp: slot_iff page_slot)
  then have "kmem_ok k'" using p k'(3,4) by (simp add: kmem_ok_def)
  then show ?thesis using k' f by (simp add: mm_init_def)
qed

end
