(* ===== verification/Kalloc_Props.thy ===== *)
theory Kalloc_Props
  imports Kalloc_Correct
begin

text \<open>
  What the page allocator guarantees to the rest of the kernel, stated over the functions of
  \<^verbatim>\<open>src/src/mm/kalloc.c\<close>; the concrete states of the witnesses are the kernel right after
  \<^verbatim>\<open>mm_init\<close>.
\<close>

definition boot_kmem :: kmem where
  "boot_kmem = \<lparr>mempools = (\<lambda>_. two_pages), kpages = (\<lambda>_. zero_page), pages_cnt = 0, recycling = 0, kcpu = idle_cpu\<rparr>"

definition booted :: "kmem \<Rightarrow> bool" where
  "booted k \<longleftrightarrow> mm_init 0x80500000 0 boot_kmem = Some k"

lemma booted_ok:
  "\<exists>k. booted k" "booted k \<Longrightarrow> kmem_ok k" "booted k \<Longrightarrow> kfree_set k = {..<NPAGES}" "booted k \<Longrightarrow> recycling k = 0"
proof -
  have "0x80500000 + NPAGES * sizeof_page < unat START_MEM" by (simp add: config sizeof_page_def START_MEM_def)
  moreover have "cpu_ok (kcpu boot_kmem)" by (simp add: boot_kmem_def)
  ultimately show "\<exists>k. booted k" "booted k \<Longrightarrow> kmem_ok k" "booted k \<Longrightarrow> kfree_set k = {..<NPAGES}"
    "booted k \<Longrightarrow> recycling k = 0"
    using mm_init_ok [of boot_kmem "0x80500000" 0] unfolding booted_def by auto
qed

lemma no_reclaim: "reclaims {} Some"
  by (simp add: reclaims_def)

lemma kmalloc_eq: "kmalloc af i sz k = Option.bind (kmalloc_order sz) (\<lambda>ord. alloc_order af i ord k)"
  by (simp add: kmalloc_def kmalloc_order_def)

text \<open>C3.  \<open>kmalloc\<close> of up to 32 MB on a sound heap never panics.  A returned pointer is the start
  of a block that was free, holds the request and is the smallest power of two of pages that does;
  its reference count is 1, and no block that was already handed out changes (the reclaimer may
  release page-cache pages \<open>PC\<close>).  \<open>NULL\<close> is returned only when no pool has an aligned free run of
  that size.  The heap stays sound, which includes that the free-page counter is exact.\<close>

theorem kmalloc_correct:
  assumes "kmem_ok k" "i < NCPU" "unat sz \<le> 2 ^ 25" "reclaims PC af" "PC \<inter> kfree_set k = {}"
  shows "\<exists>k' r. kmalloc af i sz k = Some (k', r) \<and> kmem_ok k' \<and> noff (kcpu k') = noff (kcpu k) \<and>
    (case r of
       None \<Rightarrow> kfree_set k' = kfree_set k \<and> kpages k' = kpages k \<and>
         (\<exists>ord. kmalloc_order sz = Some ord \<and> (\<forall>j<NCPU. no_run ord k j))
     | Some pa \<Rightarrow> \<exists>p ord. pa = page_to_pa p \<and> {p..<p + 2 ^ ord} \<subseteq> kfree_set k \<and>
         unat sz \<le> 2 ^ ord * 4096 \<and> (ord = 0 \<or> 2 ^ (ord - 1) * 4096 < unat sz) \<and>
         allocated (kpages k' p) \<and> order (kpages k' p) = ord \<and> refcnt (kpages k' p) = 1 \<and>
         {p..<p + 2 ^ ord} \<inter> kfree_set k' = {} \<and>
         (\<forall>q<NPAGES. q \<notin> PC \<longrightarrow> allocated (kpages k q) \<longrightarrow> kpages k' q = kpages k q))"
proof -
  obtain ord where o: "kmalloc_order sz = Some ord" "unat sz \<le> 2 ^ ord * 4096" "ord = 0 \<or> 2 ^ (ord - 1) * 4096 < unat sz"
    using kmalloc_order_eq [of sz] assms(3) by auto
  have "ord \<le> BUDDY_MAX_ORDER" by (rule kmalloc_order_le [OF assms(3) o(1)])
  from alloc_order_ok [OF assms(1,2) this assms(4,5)] show ?thesis
  proof (elim exE conjE, goal_cases)
    case (1 k' r)
    have run: "kmalloc af i sz k = Some (k', r)" using 1(1) o(1) by (simp add: kmalloc_eq)
    show ?case
    proof (cases r)
      case None
      then have "same_mem k k'" "\<forall>j<NCPU. no_run ord k j" using 1 by simp_all
      then show ?thesis using run 1(2,3) None o(1) same_mem_kfree by (auto simp: same_mem_def)
    next
      case (Some pa)
      then obtain p where p: "pa = page_to_pa p" "{p..<p + 2 ^ ord} \<subseteq> kfree_set k" "allocated (kpages k' p)"
        "order (kpages k' p) = ord" "refcnt (kpages k' p) = 1"
        "\<forall>q<NPAGES. q \<notin> PC \<longrightarrow> allocated (kpages k q) \<longrightarrow> kpages k' q = kpages k q" using 1 by auto
      have "p \<in> {p..<p + 2 ^ ord}" by simp
      then have "p < NPAGES" using kfree_set_range assms(1) p(2) unfolding kmem_ok_def by blast
      then have "{p..<p + 2 ^ ord} \<inter> kfree_set k' = {}"
        using allocated_not_free(1) [of k' p] p(3,4) 1(2) by (simp add: kmem_ok_def)
      then show ?thesis using run 1(2,3) Some p o(2,3) by auto
    qed
  qed
qed

theorem kmalloc_correct_witness:
  "\<exists>k k' p. booted k \<and> kmalloc Some 0 5000 k = Some (k', Some (page_to_pa p)) \<and>
    order (kpages k' p) = 1 \<and> refcnt (kpages k' p) = 1"
proof -
  obtain k where k: "booted k" using booted_ok(1) by blast
  note ok = booted_ok(2-4) [OF k]
  have run: "\<not> no_run 1 k 0"
  proof
    assume "no_run 1 k 0"
    then have "\<not> {0..<0 + 2 ^ 1} \<subseteq> free_set (mempools k 0)" unfolding no_run_def by (auto dest: spec [of _ 0])
    moreover have "free_set (mempools k 0) = slot 0"
      using free_set_slot [of k 0] slot_subset [of 0] ok(1,2) by (auto simp: kmem_ok_def config)
    ultimately show False by (auto simp: slot_def config)
  qed
  have ord: "kmalloc_order 5000 = Some 1"
    by (simp add: kmalloc_order_def PGSIZE_def size_to_page_order_def ROUND_UP_def order_loop.simps)
  have "0 < NCPU" "unat (5000::u64) \<le> 2 ^ 25" "{} \<inter> kfree_set k = {}" by (simp_all add: config)
  from kmalloc_correct [OF ok(1) this(1,2) no_reclaim this(3)] show ?thesis
  proof (elim exE conjE, goal_cases)
    case (1 k' r)
    show ?case
    proof (cases r)
      case None
      then have "\<forall>j<NCPU. no_run 1 k j" using 1 ord by simp
      then show ?thesis using run by (simp add: config)
    next
      case (Some pa)
      then obtain p ord where p: "pa = page_to_pa p" "5000 \<le> 2 ^ ord * (4096::nat)"
        "ord = 0 \<or> 2 ^ (ord - 1) * 4096 < (5000::nat)" "order (kpages k' p) = ord" "refcnt (kpages k' p) = 1"
        using 1 by auto
      have "ord \<noteq> 0" using p(2) by (cases ord) auto
      moreover have "\<not> 2 \<le> ord"
      proof
        assume "2 \<le> ord"
        then have "(2::nat) ^ 1 \<le> 2 ^ (ord - 1)" by (intro power_increasing) auto
        then show False using p(3) \<open>2 \<le> ord\<close> by simp
      qed
      ultimately have "ord = 1" by simp
      then show ?thesis using k 1(1) Some p by blast
    qed
  qed
qed

text \<open>A concrete heap with one block handed out: the first page after boot, held once.\<close>

definition one_page :: "kmem \<Rightarrow> nat \<Rightarrow> bool" where
  "one_page k p \<longleftrightarrow> (\<exists>k0. booted k0 \<and> kalloc Some 0 k0 = Some (k, Some (page_to_pa p))) \<and>
     kmem_ok k \<and> p < NPAGES \<and> allocated (kpages k p) \<and> refcnt (kpages k p) = 1 \<and> order (kpages k p) = 0"

lemma one_page_exists: "\<exists>k p. one_page k p"
proof -
  obtain k0 where k0: "booted k0" using booted_ok(1) by blast
  note ok = booted_ok(2-4) [OF k0]
  have p0: "pools_ok k0" using ok(1) by (simp add: kmem_ok_def)
  have run: "\<not> no_run 0 k0 0"
  proof -
    have "0 \<in> free_set (mempools k0 0)"
      using free_set_slot [OF p0, of 0] by (simp add: config ok(2) slot_def)
    then show ?thesis unfolding no_run_def by (auto intro!: exI [of _ 0])
  qed
  have "0 < NCPU" "0 \<le> BUDDY_MAX_ORDER" "{} \<inter> kfree_set k0 = {}" by (simp_all add: config)
  from alloc_order_ok [OF ok(1) this(1,2) no_reclaim this(3)] show ?thesis
  proof (elim exE conjE, goal_cases)
    case (1 k r)
    show ?case
    proof (cases r)
      case None
      then show ?thesis using 1 run by (simp add: config)
    next
      case (Some pa)
      then obtain p where p: "pa = page_to_pa p" "{p..<p + 2 ^ 0} \<subseteq> kfree_set k0" "allocated (kpages k p)"
        "order (kpages k p) = 0" "refcnt (kpages k p) = 1" using 1 by auto
      then have "p < NPAGES" using kfree_set_range [OF p0] by auto
      then show ?thesis using k0 1(1,2) Some p unfolding one_page_def kalloc_def by blast
    qed
  qed
qed

text \<open>C18.  \<open>kfree\<close> of a block handed out never panics: it drops one reference, and exactly when it was the
  last one gives all the pages of the block back to the pool they came from; every other block keeps
  its metadata, and the interrupt state is the caller's.\<close>

theorem kfree_correct:
  assumes "kmem_ok k" "p < NPAGES" "allocated (kpages k p)"
  shows "\<exists>k'. kfree i (page_to_pa p) k = Some k' \<and> kmem_ok k' \<and> noff (kcpu k') = noff (kcpu k) \<and>
    intr (kcpu k') = intr (kcpu k) \<and>
    (\<forall>q. q \<noteq> p \<longrightarrow> allocated (kpages k q) \<longrightarrow> kpages k' q = kpages k q) \<and>
    (if refcnt (kpages k p) = 1
     then \<not> allocated (kpages k' p) \<and> kfree_set k' = kfree_set k \<union> {p..<p + 2 ^ order (kpages k p)}
     else allocated (kpages k' p) \<and> refcnt (kpages k' p) = refcnt (kpages k p) - 1 \<and> kfree_set k' = kfree_set k)"
proof (cases "refcnt (kpages k p) = 1")
  case True
  from kfree_last [OF assms(1,2) True, of i] show ?thesis using True by auto
next
  case False
  then have "2 \<le> refcnt (kpages k p)" using assms by (auto simp: kmem_ok_def counts_ok_def split: if_splits)
  from kfree_shared [OF assms(1,2) this, of i] show ?thesis using False by auto
qed

theorem kfree_correct_witness:
  "\<exists>k p k'. one_page k p \<and> kfree 0 (page_to_pa p) k = Some k' \<and> \<not> allocated (kpages k' p) \<and> kmem_ok k' \<and>
    kfree_set k' = insert p (kfree_set k)"
proof -
  obtain k p where o: "one_page k p" using one_page_exists by blast
  then have "kmem_ok k" "p < NPAGES" "allocated (kpages k p)" "refcnt (kpages k p) = 1" "order (kpages k p) = 0"
    by (simp_all add: one_page_def)
  with kfree_correct [of k p 0] o show ?thesis by auto
qed

text \<open>Double frees and frees of the middle of a block are caught: \<open>kfree\<close> of any page that does
  not head a block handed out panics, and so does one of an address that is not page aligned.\<close>

theorem kfree_rejects:
  assumes "kmem_ok k"
  shows "(p < NPAGES \<and> \<not> allocated (kpages k p) \<longrightarrow> kfree i (page_to_pa p) k = None) \<and>
    ((pa - START_MEM) mod PGSIZE \<noteq> 0 \<longrightarrow> kfree i pa k = None)"
  using kfree_bad [OF assms] by (auto simp: kfree_def pa_to_page_def)

theorem kfree_rejects_witness:
  "\<exists>k. booted k \<and> kfree 0 (page_to_pa 5) k = None \<and> kfree 0 (START_MEM + 12) k = None"
proof -
  obtain k where k: "booted k" using booted_ok(1) by blast
  note ok = booted_ok(2,3) [OF k]
  have "\<not> allocated (kpages k 5)"
    using kfree_not_allocated [of k 5] ok by (simp add: kmem_ok_def config)
  then show ?thesis
    using kfree_rejects [OF ok(1), of 5 0 "START_MEM + 12"] k by (auto simp: config PGSIZE_def)
qed

text \<open>C24.  Sharing a page and freeing it once is the identity on the heap, as long as the count of the page is
  below the largest \<^verbatim>\<open>int\<close>: the pools, the counters and every field of every page's metadata are
  restored, except that the lock of the page, which is free before and after, no longer names a
  hart; and the interrupt state of the hart is the caller's.\<close>

theorem share_kfree_roundtrip:
  assumes "kmem_ok k" "p < NPAGES" "allocated (kpages k p)" "refcnt (kpages k p) < 2 ^ 31 - 1"
  shows "\<exists>k1 k2. share_page (page_to_pa p) k = Some k1 \<and> refcnt (kpages k1 p) = refcnt (kpages k p) + 1 \<and>
    kfree i (page_to_pa p) k1 = Some k2 \<and> kmem_ok k2 \<and> mempools k2 = mempools k \<and> pages_cnt k2 = pages_cnt k \<and>
    recycling k2 = recycling k \<and> noff (kcpu k2) = noff (kcpu k) \<and> intr (kcpu k2) = intr (kcpu k) \<and>
    kpages k2 = (kpages k)(p := (kpages k p)\<lparr>pg_lock := (pg_lock (kpages k p))\<lparr>lk_cpu := None\<rparr>\<rparr>)"
proof -
  let ?k1 = "k\<lparr>kpages := (kpages k)(p := (kpages k p)\<lparr>refcnt := refcnt (kpages k p) + 1\<rparr>)\<rparr>"
  note s = share_page_ok [OF assms]
  have "1 \<le> refcnt (kpages k p)" using assms by (auto simp: kmem_ok_def counts_ok_def)
  then have "2 \<le> refcnt (kpages ?k1 p)" by simp
  from kfree_shared_exact [OF s(2) assms(2) this, of i] show ?thesis using s(1) by auto
qed

theorem share_kfree_roundtrip_witness:
  "\<exists>k p k1 k2. one_page k p \<and> share_page (page_to_pa p) k = Some k1 \<and> refcnt (kpages k1 p) = 2 \<and>
    kfree 0 (page_to_pa p) k1 = Some k2 \<and> refcnt (kpages k2 p) = 1 \<and> order (kpages k2 p) = order (kpages k p)"
proof -
  obtain k p where o: "one_page k p" using one_page_exists by blast
  then have h: "kmem_ok k" "p < NPAGES" "allocated (kpages k p)" "refcnt (kpages k p) < 2 ^ 31 - 1" "refcnt (kpages k p) = 1"
    by (simp_all add: one_page_def)
  from share_kfree_roundtrip [OF h(1-4), of 0] show ?thesis using o h(5) by fastforce
qed

text \<open>C23.  \<open>get_free_mem\<close>, which walks the free lists of every pool under its lock, returns the page
  size times the counter the allocator keeps, and changes neither free pages nor page metadata.\<close>

theorem get_free_mem_exact:
  assumes "kmem_ok k"
  shows "\<exists>k'. get_free_mem i k = Some (k', of_int (pages_cnt k) * PGSIZE) \<and> kmem_ok k' \<and>
    kfree_set k' = kfree_set k \<and> kpages k' = kpages k"
proof -
  have o: "pools_ok k" "cpu_ok (kcpu k)" "pages_cnt k = int (card (kfree_set k))" using assms by (auto simp: kmem_ok_def)
  have s: "set [0..<NCPU] \<subseteq> {..<NCPU}" by auto
  obtain k' where k': "get_free_mem i k = Some (k', 0 + of_nat (card (kfree_set k)) * 4096)" "pools_ok k'" "same_mem k k'"
    "cpu_ok (kcpu k')"
    using sum_pools_ok [OF o(1) s o(2), of i 0] unfolding get_free_mem_def card_kfree_set [OF o(1)] by blast
  then have "kmem_ok k'" using assms same_mem_kfree [OF k'(3)] by (simp add: kmem_ok_def same_mem_def)
  then show ?thesis using k' o(3) same_mem_kfree [OF k'(3)] by (simp add: PGSIZE_def same_mem_def)
qed

theorem get_free_mem_exact_witness:
  "\<exists>k k'. booted k \<and> get_free_mem 0 k = Some (k', of_int (pages_cnt k) * PGSIZE)"
  using booted_ok(1,2) get_free_mem_exact by blast

text \<open>C22.  \<open>mm_init\<close> sets up a sound heap in which every page of RAM above the kernel is free,
  provided the page metadata fits below it.\<close>

theorem mm_init_correct:
  assumes "cpu_ok (kcpu k)" "meta_addr + NPAGES * sizeof_page < unat START_MEM"
  shows "\<exists>k'. mm_init meta_addr i k = Some k' \<and> kmem_ok k' \<and> kfree_set k' = {..<NPAGES} \<and> pages_cnt k' = int NPAGES"
proof -
  obtain k' where k': "mm_init meta_addr i k = Some k'" "kmem_ok k'" "kfree_set k' = {..<NPAGES}"
    using mm_init_ok [OF assms, of i] by blast
  then have "pages_cnt k' = int NPAGES" by (simp add: kmem_ok_def)
  then show ?thesis using k' by blast
qed

theorem mm_init_correct_witness:
  "\<exists>k'. mm_init 0x80500000 0 boot_kmem = Some k' \<and> kfree_set k' = {..<22528}"
  using mm_init_correct [of boot_kmem "0x80500000" 0]
  by (auto simp: config boot_kmem_def sizeof_page_def START_MEM_def)

text \<open>C25.  A request is rounded to the least power-of-two number of pages: the block of the order
  that \<open>kmalloc\<close> computes holds the request and the next smaller one does not, for every size up to
  4 TB; beyond 32 MB the order exceeds what the pools have and \<open>kmalloc\<close> panics instead of
  returning \<open>NULL\<close>.\<close>

theorem kmalloc_rounding:
  assumes "unat sz \<le> 2 ^ 42"
  shows "\<exists>ord. kmalloc_order sz = Some ord \<and> unat sz \<le> 2 ^ ord * 4096 \<and>
    (ord = 0 \<or> 2 ^ (ord - 1) * 4096 < unat sz) \<and> (2 ^ 25 < unat sz \<longrightarrow> kmalloc af i sz k = None)"
proof -
  obtain ord where o: "kmalloc_order sz = Some ord" "unat sz \<le> 2 ^ ord * 4096" "ord = 0 \<or> 2 ^ (ord - 1) * 4096 < unat sz"
    using kmalloc_order_eq [OF assms] by blast
  have "kmalloc af i sz k = None" if "2 ^ 25 < unat sz"
  proof -
    have "(2::nat) ^ 13 < 2 ^ ord" using o(2) that by simp
    then have "BUDDY_MAX_ORDER < ord" using power_less_imp_less_exp [of "2::nat" 13 ord] by (simp add: BUDDY_MAX_ORDER_def)
    then have "get_from i i ord k' = None" for k' by (cases "pop_off (kcpu k')") (simp_all add: get_from_def buddy_get_pages_def)
    then show ?thesis by (simp add: kmalloc_eq o(1) alloc_order_def Let_def)
  qed
  then show ?thesis using o by blast
qed

theorem kmalloc_rounding_witness:
  "kmalloc_order 33554433 = Some 14 \<and> kmalloc Some 0 33554433 boot_kmem = None"
proof -
  obtain ord where o: "kmalloc_order 33554433 = Some ord" "33554433 \<le> 2 ^ ord * (4096::nat)"
    "ord = 0 \<or> 2 ^ (ord - 1) * 4096 < (33554433::nat)" "kmalloc Some 0 33554433 boot_kmem = None"
    using kmalloc_rounding [of 33554433 Some 0 boot_kmem] by auto
  have "(2::nat) ^ 13 < 2 ^ ord" using o(2) by simp
  then have "13 < ord" using power_less_imp_less_exp [of "2::nat" 13 ord] by simp
  moreover have "(2::nat) ^ (ord - 1) < 2 ^ 14" using o(3) by auto
  then have "ord - 1 < 14" using power_less_imp_less_exp [of "2::nat" "ord - 1" 14] by simp
  ultimately have "ord = 14" by simp
  then show ?thesis using o by simp
qed

end
