(* ===== verification/Kv_Spec.thy ===== *)
theory Kv_Spec
  imports Prelude
begin

text \<open>
  The contract of a finite map as the kernel's containers implement it: \<open>lookup\<close> never changes the
  state, \<open>insert\<close> refuses a key that is present, \<open>delete\<close> returns what it removed.  A container meets
  the contract when its operations simulate those of a map; the lemma of the locale extends this to
  every sequence of operations.
\<close>

datatype ('k, 'v) kv_op = Lookup 'k | Insert 'k 'v | Delete 'k

datatype 'v kv_out = Found "'v option" | Inserted bool | Deleted "'v option"

fun kv_key :: "('k, 'v) kv_op \<Rightarrow> 'k" where
  "kv_key (Lookup k) = k"
| "kv_key (Insert k v) = k"
| "kv_key (Delete k) = k"

text \<open>The operations on the abstract map and a run of them.\<close>

fun map_step :: "('k \<rightharpoonup> 'v) \<Rightarrow> ('k, 'v) kv_op \<Rightarrow> ('k \<rightharpoonup> 'v) \<times> 'v kv_out" where
  "map_step m (Lookup k) = (m, Found (m k))"
| "map_step m (Insert k v) = (if m k = None then (m(k \<mapsto> v), Inserted True) else (m, Inserted False))"
| "map_step m (Delete k) = (m(k := None), Deleted (m k))"

fun map_run :: "('k \<rightharpoonup> 'v) \<Rightarrow> ('k, 'v) kv_op list \<Rightarrow> ('k \<rightharpoonup> 'v) \<times> 'v kv_out list" where
  "map_run m [] = (m, [])"
| "map_run m (x # xs) = (let (m1, y) = map_step m x; (m2, ys) = map_run m1 xs in (m2, y # ys))"

fun kv_run :: "('s \<Rightarrow> ('k, 'v) kv_op \<Rightarrow> ('s \<times> 'v kv_out) option) \<Rightarrow> 's \<Rightarrow> ('k, 'v) kv_op list \<Rightarrow>
    ('s \<times> 'v kv_out list) option" where
  "kv_run step s [] = Some (s, [])"
| "kv_run step s (x # xs) = do {
     (s1, y) \<leftarrow> step s x;
     (s2, ys) \<leftarrow> kv_run step s1 xs;
     Some (s2, y # ys)
   }"

locale kv_map =
  fixes inv :: "'s \<Rightarrow> bool"
    and abs :: "'s \<Rightarrow> 'k \<rightharpoonup> 'v"
    and keyok :: "'k \<Rightarrow> bool"
    and step :: "'s \<Rightarrow> ('k, 'v) kv_op \<Rightarrow> ('s \<times> 'v kv_out) option"
  assumes step_law: "inv s \<Longrightarrow> keyok (kv_key x) \<Longrightarrow>
    \<exists>s' y. step s x = Some (s', y) \<and> inv s' \<and> (abs s', y) = map_step (abs s) x"
begin

text \<open>A run of operations on the container gives the answers of the map.\<close>

lemma run_refines:
  assumes "inv s" "\<And>x. x \<in> set xs \<Longrightarrow> keyok (kv_key x)"
  shows "\<exists>s' ys. kv_run step s xs = Some (s', ys) \<and> inv s' \<and> (abs s', ys) = map_run (abs s) xs"
  using assms
proof (induction xs arbitrary: s)
  case Nil
  then show ?case by simp
next
  case (Cons x xs)
  obtain s1 y where s1: "step s x = Some (s1, y)" "inv s1" "(abs s1, y) = map_step (abs s) x"
    using step_law [OF Cons.prems(1)] Cons.prems(2) by fastforce
  obtain s2 ys where s2: "kv_run step s1 xs = Some (s2, ys)" "inv s2" "(abs s2, ys) = map_run (abs s1) xs"
    using Cons.IH [OF s1(2)] Cons.prems(2) by auto
  have "map_run (abs s) (x # xs) = (abs s2, y # ys)"
    by (simp add: s1(3) [symmetric] s2(3) [symmetric])
  then show ?case using s1(1) s2(1,2) by simp
qed

text \<open>Operations on one key do not change what is stored under another.\<close>

lemma step_other:
  assumes "inv s" "keyok (kv_key x)" "step s x = Some (s', y)" "k \<noteq> kv_key x"
  shows "abs s' k = abs s k"
  using step_law [OF assms(1,2)] assms(3,4) by (cases x) (auto split: if_splits)

end

end
