(* ===== verification/RadixTree.thy ===== *)
theory RadixTree
  imports Kv_Spec
begin

text \<open>
  The radix tree of the page cache (\<^verbatim>\<open>src/src/lib/radix-tree.c\<close>,
  \<^verbatim>\<open>src/include/lib/radix-tree.h\<close>): the model.

  A \<^verbatim>\<open>void *\<close> slot is \<open>Null\<close>, an item or a node; the low-bit marking of
  \<^verbatim>\<open>root->rnode\<close> (\<^verbatim>\<open>radix_tree_ptr_to_indirect\<close>) is the constructor.  Every node has one
  parent, so updating the nodes of a path in place is rebuilding the path.  The loops count the
  height down; their recursion is on it, and the shift \<^verbatim>\<open>(height - 1) * 6\<close> follows it.  Allocation
  succeeds: the code panics otherwise.
\<close>

datatype 'a slot = Null | Item 'a | Sub "'a rnode"
and 'a rnode = RNode (rn_height: nat) (rn_count: nat) (rn_slots: "'a slot list") (rn_tags: "u64 list")

record 'a radix_tree_root =
  rt_height :: nat
  rt_rnode :: "'a slot"
  gfp_mask :: u32

definition RADIX_TREE_MAP_SHIFT :: nat where "RADIX_TREE_MAP_SHIFT = 6"
definition RADIX_TREE_MAP_SIZE :: nat where "RADIX_TREE_MAP_SIZE = 64"
definition RADIX_TREE_MAX_TAGS :: nat where "RADIX_TREE_MAX_TAGS = 2"
definition RADIX_TREE_MAX_PATH :: nat where "RADIX_TREE_MAX_PATH = (64 + 6 - 1) div 6"

definition INIT_RADIX_TREE :: "u32 \<Rightarrow> 'a radix_tree_root" where
  "INIT_RADIX_TREE msk = \<lparr>rt_height = 0, rt_rnode = Null, gfp_mask = msk\<rparr>"

definition radix_tree_is_indirect_ptr :: "'a slot \<Rightarrow> bool" where
  "radix_tree_is_indirect_ptr s = (case s of Sub _ \<Rightarrow> True | _ \<Rightarrow> False)"

section \<open>Tags\<close>

definition tag_set :: "'a rnode \<Rightarrow> nat \<Rightarrow> nat \<Rightarrow> 'a rnode" where
  "tag_set node tag off =
     RNode (rn_height node) (rn_count node) (rn_slots node) ((rn_tags node)[tag := set_bit off (rn_tags node ! tag)])"

definition tag_clear :: "'a rnode \<Rightarrow> nat \<Rightarrow> nat \<Rightarrow> 'a rnode" where
  "tag_clear node tag off =
     RNode (rn_height node) (rn_count node) (rn_slots node) ((rn_tags node)[tag := unset_bit off (rn_tags node ! tag)])"

definition tag_get :: "'a rnode \<Rightarrow> nat \<Rightarrow> nat \<Rightarrow> bool" where
  "tag_get node tag off \<longleftrightarrow> bit (rn_tags node ! tag) off"

definition root_tag_set :: "'a radix_tree_root \<Rightarrow> nat \<Rightarrow> 'a radix_tree_root" where
  "root_tag_set root tag = root\<lparr>gfp_mask := gfp_mask root OR push_bit (tag + 22) 1\<rparr>"

definition root_tag_get :: "'a radix_tree_root \<Rightarrow> nat \<Rightarrow> bool" where
  "root_tag_get root tag \<longleftrightarrow> gfp_mask root AND push_bit (tag + 22) 1 \<noteq> 0"

definition root_tag_clear :: "'a radix_tree_root \<Rightarrow> nat \<Rightarrow> 'a radix_tree_root" where
  "root_tag_clear root tag = root\<lparr>gfp_mask := gfp_mask root AND NOT (push_bit (tag + 22) 1)\<rparr>"

definition root_tag_clear_all :: "'a radix_tree_root \<Rightarrow> 'a radix_tree_root" where
  "root_tag_clear_all root = root\<lparr>gfp_mask := gfp_mask root AND (push_bit 22 1 - 1)\<rparr>"

definition any_tag_set :: "'a rnode \<Rightarrow> nat \<Rightarrow> bool" where
  "any_tag_set node tag \<longleftrightarrow> rn_tags node ! tag \<noteq> 0"

section \<open>Indices\<close>

text \<open>The shift in \<^verbatim>\<open>radix_tree_maxindex\<close> is on \<^verbatim>\<open>int\<close>: undefined from height 6 on (no result).\<close>

definition radix_tree_maxindex :: "nat \<Rightarrow> u64 option" where
  "radix_tree_maxindex h = do {
     ASSERT (h \<le> RADIX_TREE_MAX_PATH);
     ASSERT (h * RADIX_TREE_MAP_SHIFT < 31);
     Some (push_bit (h * RADIX_TREE_MAP_SHIFT) 1 - 1)
   }"

text \<open>\<open>radix_off h index\<close>: the slot on the level whose shift is \<open>h * 6\<close>.\<close>

definition radix_off :: "nat \<Rightarrow> u64 \<Rightarrow> nat" where
  "radix_off h index = unat (drop_bit (h * RADIX_TREE_MAP_SHIFT) index AND 63)"

definition rn_upd_slot :: "'a rnode \<Rightarrow> nat \<Rightarrow> nat \<Rightarrow> 'a slot \<Rightarrow> 'a rnode" where
  "rn_upd_slot node c off s = RNode (rn_height node) c ((rn_slots node)[off := s]) (rn_tags node)"

section \<open>Lookup\<close>

primrec lookup_loop :: "nat \<Rightarrow> u64 \<Rightarrow> 'a slot \<Rightarrow> 'a slot option" where
  "lookup_loop 0 index s = Some s"
| "lookup_loop (Suc h) index s =
     (case s of
        Null \<Rightarrow> Some Null
      | Item _ \<Rightarrow> None
      | Sub node \<Rightarrow> lookup_loop h index (rn_slots node ! radix_off h index))"

text \<open>\<^verbatim>\<open>radix_tree_lookup_element\<close> with \<^verbatim>\<open>is_slot\<close> 0; an item is returned, or \<^verbatim>\<open>NULL\<close>.\<close>

definition radix_tree_lookup_node :: "'a radix_tree_root \<Rightarrow> u64 \<Rightarrow> 'a slot option" where
  "radix_tree_lookup_node root index =
     (case rt_rnode root of
        Sub node \<Rightarrow> do {
          mx \<leftarrow> radix_tree_maxindex (rn_height node);
          if mx < index then Some Null else lookup_loop (rn_height node) index (Sub node)
        }
      | s \<Rightarrow> if 0 < index then Some Null else Some s)"

section \<open>Insertion\<close>

definition radix_tree_node_alloc :: "nat \<Rightarrow> 'a rnode" where
  "radix_tree_node_alloc h = RNode h 0 (replicate RADIX_TREE_MAP_SIZE Null) (replicate RADIX_TREE_MAX_TAGS 0)"

text \<open>The search for the height of the extended tree; it has no result once the height leaves the
  range of \<^verbatim>\<open>radix_tree_maxindex\<close>, which bounds it.\<close>

function extend_height :: "u64 \<Rightarrow> nat \<Rightarrow> nat option" where
  "extend_height index h = do {
     mx \<leftarrow> radix_tree_maxindex h;
     if mx < index then extend_height index (h + 1) else Some h
   }"
  by pat_completeness auto
termination
  by (relation "measure (\<lambda>(index, h). 6 - h)")
    (auto simp: radix_tree_maxindex_def RADIX_TREE_MAP_SHIFT_def split: if_splits)

declare extend_height.simps [simp del]

text \<open>One new level on top of the tree.\<close>

definition add_level :: "'a radix_tree_root \<Rightarrow> 'a radix_tree_root" where
  "add_level root =
     (let node = rn_upd_slot (radix_tree_node_alloc (rt_height root + 1)) 1 0 (rt_rnode root);
          node0 = (if root_tag_get root 0 then tag_set node 0 0 else node);
          node1 = (if root_tag_get root 1 then tag_set node0 1 0 else node0)
      in root\<lparr>rt_rnode := Sub node1, rt_height := rt_height root + 1\<rparr>)"

primrec add_levels :: "nat \<Rightarrow> 'a radix_tree_root \<Rightarrow> 'a radix_tree_root" where
  "add_levels 0 root = root"
| "add_levels (Suc n) root = add_levels n (add_level root)"

definition radix_tree_extend :: "'a radix_tree_root \<Rightarrow> u64 \<Rightarrow> 'a radix_tree_root option" where
  "radix_tree_extend root index = do {
     h \<leftarrow> extend_height index (rt_height root + 1);
     if rt_rnode root = Null then Some (root\<lparr>rt_height := h\<rparr>)
     else Some (add_levels (h - rt_height root) root)
   }"

text \<open>The descent of \<^verbatim>\<open>radix_tree_insert\<close>: the new contents of the slot and whether the item
  went in.  A node is created for an empty slot and counted in its parent.\<close>

primrec insert_loop :: "nat \<Rightarrow> u64 \<Rightarrow> 'a \<Rightarrow> 'a slot \<Rightarrow> ('a slot \<times> bool) option" where
  "insert_loop 0 index item s = Some (if s = Null then (Item item, True) else (s, False))"
| "insert_loop (Suc h) index item s = do {
     node \<leftarrow> (case s of Null \<Rightarrow> Some (radix_tree_node_alloc (Suc h)) | Sub n \<Rightarrow> Some n | Item _ \<Rightarrow> None);
     let off = radix_off h index;
     let old = rn_slots node ! off;
     (new, ok) \<leftarrow> insert_loop h index item old;
     ASSERT (h = 0 \<and> ok \<longrightarrow> \<not> tag_get node 0 off \<and> \<not> tag_get node 1 off);
     Some (Sub (rn_upd_slot node (rn_count node + (if old = Null then 1 else 0)) off new), ok)
   }"

definition radix_tree_insert :: "'a radix_tree_root \<Rightarrow> u64 \<Rightarrow> 'a \<Rightarrow> ('a radix_tree_root \<times> int) option" where
  "radix_tree_insert root index item = do {
     mx \<leftarrow> radix_tree_maxindex (rt_height root);
     root1 \<leftarrow> (if mx < index then radix_tree_extend root index else Some root);
     (s, ok) \<leftarrow> insert_loop (rt_height root1) index item (rt_rnode root1);
     if \<not> ok then Some (root1, - 1)
     else do {
       ASSERT (rt_height root1 = 0 \<longrightarrow> \<not> root_tag_get root1 0 \<and> \<not> root_tag_get root1 1);
       Some (root1\<lparr>rt_rnode := s\<rparr>, 0)
     }
   }"

section \<open>Tagging\<close>

primrec tag_set_loop :: "nat \<Rightarrow> u64 \<Rightarrow> nat \<Rightarrow> 'a slot \<Rightarrow> 'a slot option" where
  "tag_set_loop 0 index tag s = Some s"
| "tag_set_loop (Suc h) index tag s =
     (case s of
        Sub node \<Rightarrow> do {
          let off = radix_off h index;
          let node1 = (if tag_get node tag off then node else tag_set node tag off);
          ASSERT (rn_slots node1 ! off \<noteq> Null);
          s' \<leftarrow> tag_set_loop h index tag (rn_slots node1 ! off);
          Some (Sub (rn_upd_slot node1 (rn_count node1) off s'))
        }
      | _ \<Rightarrow> None)"

definition radix_tree_tag_set :: "'a radix_tree_root \<Rightarrow> u64 \<Rightarrow> nat \<Rightarrow> 'a radix_tree_root option" where
  "radix_tree_tag_set root index tag = do {
     mx \<leftarrow> radix_tree_maxindex (rt_height root);
     ASSERT (index \<le> mx);
     s \<leftarrow> tag_set_loop (rt_height root) index tag (rt_rnode root);
     let root1 = root\<lparr>rt_rnode := s\<rparr>;
     Some (if s \<noteq> Null \<and> \<not> root_tag_get root1 tag then root_tag_set root1 tag else root1)
   }"

text \<open>The descent and ascent of \<^verbatim>\<open>radix_tree_tag_clear\<close>: the new contents of the slot, the item
  found, and whether the clearing goes on above.\<close>

primrec tag_clear_loop :: "nat \<Rightarrow> u64 \<Rightarrow> nat \<Rightarrow> 'a slot \<Rightarrow> ('a slot \<times> 'a slot \<times> bool) option" where
  "tag_clear_loop 0 index tag s = Some (s, s, s \<noteq> Null)"
| "tag_clear_loop (Suc h) index tag s =
     (case s of
        Null \<Rightarrow> Some (Null, Null, False)
      | Item _ \<Rightarrow> None
      | Sub node \<Rightarrow> do {
          let off = radix_off h index;
          (s', item, up) \<leftarrow> tag_clear_loop h index tag (rn_slots node ! off);
          let node1 = rn_upd_slot node (rn_count node) off s';
          if \<not> up \<or> \<not> tag_get node1 tag off then Some (Sub node1, item, False)
          else let node2 = tag_clear node1 tag off in Some (Sub node2, item, \<not> any_tag_set node2 tag)
        })"

definition radix_tree_tag_clear :: "'a radix_tree_root \<Rightarrow> u64 \<Rightarrow> nat \<Rightarrow> ('a radix_tree_root \<times> 'a slot) option" where
  "radix_tree_tag_clear root index tag = do {
     mx \<leftarrow> radix_tree_maxindex (rt_height root);
     if mx < index then Some (root, Null)
     else do {
       (s, item, up) \<leftarrow> tag_clear_loop (rt_height root) index tag (rt_rnode root);
       let root1 = root\<lparr>rt_rnode := s\<rparr>;
       Some (if up \<and> root_tag_get root1 tag then root_tag_clear root1 tag else root1, item)
     }
   }"

primrec tag_get_loop :: "nat \<Rightarrow> u64 \<Rightarrow> nat \<Rightarrow> 'a slot \<Rightarrow> bool option" where
  "tag_get_loop 0 index tag s = None"
| "tag_get_loop (Suc h) index tag s =
     (case s of
        Null \<Rightarrow> Some False
      | Item _ \<Rightarrow> None
      | Sub node \<Rightarrow>
          (if h = 0 then Some (tag_get node tag (radix_off h index))
           else tag_get_loop h index tag (rn_slots node ! radix_off h index)))"

definition radix_tree_tag_get :: "'a radix_tree_root \<Rightarrow> u64 \<Rightarrow> nat \<Rightarrow> bool option" where
  "radix_tree_tag_get root index tag =
     (if \<not> root_tag_get root tag then Some False
      else case rt_rnode root of
        Null \<Rightarrow> Some False
      | Item _ \<Rightarrow> Some (index = 0)
      | Sub node \<Rightarrow> do {
          mx \<leftarrow> radix_tree_maxindex (rn_height node);
          if mx < index then Some False else tag_get_loop (rn_height node) index tag (Sub node)
        })"

section \<open>Deletion\<close>

text \<open>The loop of \<^verbatim>\<open>radix_tree_shrink\<close> takes the top level off while its only child is the
  leftmost; the height bounds it.\<close>

primrec shrink_loop :: "nat \<Rightarrow> 'a slot \<Rightarrow> (nat \<times> 'a slot) option" where
  "shrink_loop 0 s = Some (0, s)"
| "shrink_loop (Suc h) s =
     (case s of
        Sub node \<Rightarrow>
          (if rn_count node \<noteq> 1 \<or> rn_slots node ! 0 = Null then Some (Suc h, s)
           else shrink_loop h (rn_slots node ! 0))
      | _ \<Rightarrow> None)"

definition radix_tree_shrink :: "'a radix_tree_root \<Rightarrow> 'a radix_tree_root option" where
  "radix_tree_shrink root = do {
     (h, s) \<leftarrow> shrink_loop (rt_height root) (rt_rnode root);
     Some (root\<lparr>rt_height := h, rt_rnode := s\<rparr>)
   }"

text \<open>The ascent of \<^verbatim>\<open>radix_tree_delete\<close>: the slot of the index is cleared, and so is the slot of
  every node that this leaves empty.\<close>

primrec delete_loop :: "nat \<Rightarrow> u64 \<Rightarrow> 'a slot \<Rightarrow> 'a slot option" where
  "delete_loop 0 index s = Some Null"
| "delete_loop (Suc h) index s =
     (case s of
        Sub node \<Rightarrow> do {
          let off = radix_off h index;
          s' \<leftarrow> delete_loop h index (rn_slots node ! off);
          if s' = Null then
            let c = rn_count node - 1 in
            Some (if c = 0 then Null else Sub (rn_upd_slot node c off Null))
          else Some (Sub (rn_upd_slot node (rn_count node) off s'))
        }
      | _ \<Rightarrow> None)"

definition top_slot :: "'a radix_tree_root \<Rightarrow> u64 \<Rightarrow> 'a slot" where
  "top_slot root index =
     (case rt_rnode root of Sub node \<Rightarrow> rn_slots node ! radix_off (rt_height root - 1) index | s \<Rightarrow> s)"

definition radix_tree_delete :: "'a radix_tree_root \<Rightarrow> u64 \<Rightarrow> ('a radix_tree_root \<times> 'a slot) option" where
  "radix_tree_delete root index = do {
     mx \<leftarrow> radix_tree_maxindex (rt_height root);
     if mx < index then Some (root, Null)
     else if rt_height root = 0 then Some ((root_tag_clear_all root)\<lparr>rt_rnode := Null\<rparr>, rt_rnode root)
     else do {
       s \<leftarrow> lookup_loop (rt_height root) index (rt_rnode root);
       if s = Null then Some (root, Null)
       else do {
         t0 \<leftarrow> tag_get_loop (rt_height root) index 0 (rt_rnode root);
         (root0, _) \<leftarrow> (if t0 then radix_tree_tag_clear root index 0 else Some (root, Null));
         t1 \<leftarrow> tag_get_loop (rt_height root) index 1 (rt_rnode root0);
         (root1, _) \<leftarrow> (if t1 then radix_tree_tag_clear root0 index 1 else Some (root0, Null));
         s' \<leftarrow> delete_loop (rt_height root1) index (rt_rnode root1);
         if s' = Null then Some ((root_tag_clear_all root1)\<lparr>rt_height := 0, rt_rnode := Null\<rparr>, s)
         else do {
           let root2 = root1\<lparr>rt_rnode := s'\<rparr>;
           root3 \<leftarrow> (if top_slot root2 index = Null then radix_tree_shrink root2 else Some root2);
           Some (root3, s)
         }
       }
     }
   }"

end
