(* ===== verification/RadixTree_Correct.thy ===== *)
theory RadixTree_Correct
  imports RadixTree
begin

text \<open>
  The radix tree: well-formedness, its abstraction to a map from indices to items and the tags of
  the items, and the proof that insertion, deletion, extension, shrinking and tagging act on them
  as they should.
\<close>

section \<open>Indices\<close>

definition digit :: "nat \<Rightarrow> nat \<Rightarrow> nat" where
  "digit h i = i div 64 ^ h mod 64"

lemma digit_less [simp]: "digit h i < 64"
  by (simp add: digit_def)

lemma radix_off_eq: "radix_off h index = digit h (unat index)"
proof -
  have "(63::u64) = mask 6" by (simp add: mask_eq_exp_minus_1)
  then have "drop_bit (h * 6) index AND 63 = take_bit 6 (drop_bit (h * 6) index)" by (simp add: take_bit_eq_mask)
  moreover have "unat (take_bit 6 (drop_bit (h * 6) index)) = take_bit 6 (drop_bit (h * 6) (unat index))"
    by (simp only: unsigned_take_bit_eq unsigned_drop_bit_eq take_bit_nat_eq_self [OF unsigned_less])
  moreover have "(64::nat) ^ h = 2 ^ (h * 6)" by (simp add: mult.commute [of h 6] power_mult)
  ultimately show ?thesis
    by (simp only: radix_off_def RADIX_TREE_MAP_SHIFT_def digit_def drop_bit_eq_div take_bit_eq_mod) simp
qed

text \<open>Two indices agree below level \<open>h\<close>.\<close>

definition same_low :: "nat \<Rightarrow> nat \<Rightarrow> nat \<Rightarrow> bool" where
  "same_low h i j \<longleftrightarrow> i mod 64 ^ h = j mod 64 ^ h"

lemma same_low_0 [simp]: "same_low 0 i j"
  by (simp add: same_low_def)

lemma same_low_Suc: "same_low (Suc h) i j \<longleftrightarrow> digit h i = digit h j \<and> same_low h i j"
proof -
  have e: "k mod 64 ^ Suc h = 64 ^ h * digit h k + k mod 64 ^ h" for k
    unfolding digit_def by (metis mod_mult2_eq mult.commute power_Suc)
  have l: "k mod 64 ^ h < 64 ^ h" for k :: nat by simp
  show ?thesis
  proof
    assume "same_low (Suc h) i j"
    then have *: "64 ^ h * digit h i + i mod 64 ^ h = 64 ^ h * digit h j + j mod 64 ^ h"
      by (simp only: same_low_def e)
    have "(64 ^ h * digit h i + i mod 64 ^ h) div 64 ^ h = digit h i"
      "(64 ^ h * digit h j + j mod 64 ^ h) div 64 ^ h = digit h j" using l by simp_all
    then have "digit h i = digit h j" using * by simp
    then show "digit h i = digit h j \<and> same_low h i j" using * by (simp add: same_low_def)
  qed (simp only: same_low_def e simp_thms)
qed

lemma same_low_eq: "i < 64 ^ h \<Longrightarrow> j < 64 ^ h \<Longrightarrow> same_low h i j \<longleftrightarrow> i = j"
  by (simp add: same_low_def)

section \<open>Well-formed trees\<close>

text \<open>\<open>rl h s i\<close>: the item under index \<open>i\<close> in a subtree of height \<open>h\<close>; \<open>rtag h s t i\<close>: its tag \<open>t\<close>, for
  a height of at least one.\<close>

primrec rl :: "nat \<Rightarrow> 'a slot \<Rightarrow> nat \<Rightarrow> 'a option" where
  "rl 0 s i = (case s of Item x \<Rightarrow> Some x | _ \<Rightarrow> None)"
| "rl (Suc h) s i = (case s of Sub n \<Rightarrow> rl h (rn_slots n ! digit h i) i | _ \<Rightarrow> None)"

primrec rtag :: "nat \<Rightarrow> 'a slot \<Rightarrow> nat \<Rightarrow> nat \<Rightarrow> bool" where
  "rtag 0 s t i = False"
| "rtag (Suc h) s t i =
     (case s of
        Sub n \<Rightarrow> if h = 0 then bit (rn_tags n ! t) (digit h i) else rtag h (rn_slots n ! digit h i) t i
      | _ \<Rightarrow> False)"

definition slot_tag :: "nat \<Rightarrow> 'a slot \<Rightarrow> bool" where
  "slot_tag t s = (case s of Sub n \<Rightarrow> rn_tags n ! t \<noteq> 0 | _ \<Rightarrow> False)"

lemma slot_tag_simps [simp]: "\<not> slot_tag t Null" "\<not> slot_tag t (Item x)"
  "slot_tag t (Sub n) \<longleftrightarrow> rn_tags n ! t \<noteq> 0"
  by (simp_all add: slot_tag_def)

text \<open>A tag bit of a node says whether its child has the tag anywhere; the bits of a lowest node are
  the tags of its items.\<close>

definition tags_ok :: "nat \<Rightarrow> 'a slot list \<Rightarrow> u64 list \<Rightarrow> bool" where
  "tags_ok h ss ts \<longleftrightarrow>
     (\<forall>t<2. \<forall>i<64. (h = 0 \<longrightarrow> bit (ts ! t) i \<longrightarrow> ss ! i \<noteq> Null) \<and> (h \<noteq> 0 \<longrightarrow> bit (ts ! t) i = slot_tag t (ss ! i)))"

primrec wf_slot :: "nat \<Rightarrow> 'a slot \<Rightarrow> bool" where
  "wf_slot 0 s = (case s of Sub _ \<Rightarrow> False | _ \<Rightarrow> True)"
| "wf_slot (Suc h) s =
     (case s of
        Null \<Rightarrow> True
      | Item _ \<Rightarrow> False
      | Sub n \<Rightarrow> rn_height n = Suc h \<and> length (rn_slots n) = 64 \<and> length (rn_tags n) = 2 \<and>
          rn_count n = length (filter (\<lambda>s. s \<noteq> Null) (rn_slots n)) \<and> 0 < rn_count n \<and>
          (\<forall>i<64. wf_slot h (rn_slots n ! i)) \<and> tags_ok h (rn_slots n) (rn_tags n))"

lemma wf_Null [simp]: "wf_slot h Null"
  by (cases h) auto

lemma wf_SucE:
  assumes "wf_slot (Suc h) s"
  obtains "s = Null" | n where "s = Sub n" "rn_height n = Suc h" "length (rn_slots n) = 64" "length (rn_tags n) = 2"
    "rn_count n = length (filter (\<lambda>s. s \<noteq> Null) (rn_slots n))" "0 < rn_count n"
    "\<And>i. i < 64 \<Longrightarrow> wf_slot h (rn_slots n ! i)" "tags_ok h (rn_slots n) (rn_tags n)"
  using assms by (cases s) auto

lemma word_0_iff: "(w::u64) = 0 \<longleftrightarrow> (\<forall>i<64. \<not> bit w i)"
  by (auto simp: bit_eq_iff)

lemma rl_Null [simp]: "rl h Null i = None"
  by (cases h) auto

lemma rtag_Null [simp]: "rtag h Null t i = False"
  by (cases h) auto

text \<open>An index with an item or a tag has a path.\<close>

lemma rtag_slot_tag: "wf_slot h s \<Longrightarrow> t < 2 \<Longrightarrow> rtag h s t i \<Longrightarrow> slot_tag t s"
proof (induction h arbitrary: s)
  case (Suc h)
  from Suc.prems(1) show ?case
  proof (cases rule: wf_SucE)
    case 1
    then show ?thesis using Suc.prems(3) by simp
  next
    case (2 n)
    have "bit (rn_tags n ! t) (digit h i)"
    proof (cases "h = 0")
      case False
      then have "slot_tag t (rn_slots n ! digit h i)"
        using Suc.IH [OF 2(7) [OF digit_less] Suc.prems(2)] Suc.prems(3) 2(1) by simp
      then show ?thesis using 2(8) False Suc.prems(2) by (simp add: tags_ok_def)
    qed (use Suc.prems(3) 2(1) in simp)
    then show ?thesis using 2(1) by (auto simp: word_0_iff intro!: exI [of _ "digit h i"])
  qed
qed simp

section \<open>Insertion\<close>

lemma rn_upd_slot_sel [simp]:
  "rn_height (rn_upd_slot n c k s) = rn_height n" "rn_count (rn_upd_slot n c k s) = c"
  "rn_slots (rn_upd_slot n c k s) = (rn_slots n)[k := s]" "rn_tags (rn_upd_slot n c k s) = rn_tags n"
  by (simp_all add: rn_upd_slot_def)

lemma node_alloc_sel [simp]:
  "rn_height (radix_tree_node_alloc h) = h" "rn_count (radix_tree_node_alloc h) = 0"
  "rn_slots (radix_tree_node_alloc h) = replicate 64 Null" "rn_tags (radix_tree_node_alloc h) = [0, 0]"
  by (simp_all add: radix_tree_node_alloc_def RADIX_TREE_MAP_SIZE_def RADIX_TREE_MAX_TAGS_def numeral_2_eq_2)

lemma tags_ok_upd:
  assumes "tags_ok h ss ts" "length ss = 64" "k < 64" "h = 0 \<Longrightarrow> s \<noteq> Null \<or> (\<forall>t<2. \<not> bit (ts ! t) k)"
    "h \<noteq> 0 \<Longrightarrow> \<forall>t<2. slot_tag t s = slot_tag t (ss ! k)"
  shows "tags_ok h (ss[k := s]) ts"
  using assms unfolding tags_ok_def by (auto simp: nth_list_update)

lemma tags_ok_empty: "tags_ok h (replicate 64 Null) [0, 0]"
  by (auto simp: tags_ok_def less_2_cases_iff)

lemma same_node: "rn_upd_slot n (rn_count n) k (rn_slots n ! k) = n"
  by (cases n) (simp add: rn_upd_slot_def)

text \<open>Replacing a child: what is under the other indices stays.\<close>

lemma rl_upd: "k < 64 \<Longrightarrow> length (rn_slots n) = 64 \<Longrightarrow>
    rl (Suc h) (Sub (rn_upd_slot n c k s)) j = (if digit h j = k then rl h s j else rl (Suc h) (Sub n) j)"
  by (simp add: nth_list_update)

lemma rtag_upd: "k < 64 \<Longrightarrow> length (rn_slots n) = 64 \<Longrightarrow> h \<noteq> 0 \<Longrightarrow>
    rtag (Suc h) (Sub (rn_upd_slot n c k s)) t j =
      (if digit h j = k then rtag h s t j else rtag (Suc h) (Sub n) t j)"
  by (simp add: nth_list_update)

lemma rtag_upd_leaf: "rtag (Suc 0) (Sub (rn_upd_slot n c k s)) t j = rtag (Suc 0) (Sub n) t j"
  by simp

definition ins_spec :: "nat \<Rightarrow> nat \<Rightarrow> 'a \<Rightarrow> 'a slot \<Rightarrow> 'a slot \<Rightarrow> bool \<Rightarrow> bool" where
  "ins_spec h i x s s' ok \<longleftrightarrow>
     wf_slot h s' \<and> s' \<noteq> Null \<and> ok = (rl h s i = None) \<and> (\<not> ok \<longrightarrow> s' = s) \<and>
     (\<forall>j. rl h s' j = (if ok \<and> same_low h j i then Some x else rl h s j)) \<and>
     (\<forall>t<2. slot_tag t s' = slot_tag t s) \<and> (\<forall>t<2. \<forall>j. rtag h s' t j = rtag h s t j)"

lemma insert_node:
  assumes n: "length (rn_slots n) = 64" "length (rn_tags n) = 2" "rn_height n = Suc h"
    "rn_count n = length (filter (\<lambda>s. s \<noteq> Null) (rn_slots n))"
    "\<forall>i<64. wf_slot h (rn_slots n ! i)" "tags_ok h (rn_slots n) (rn_tags n)"
    and c: "ins_spec h i x (rn_slots n ! digit h i) new ok"
  defines "n' \<equiv> rn_upd_slot n (rn_count n + (if rn_slots n ! digit h i = Null then 1 else 0)) (digit h i) new"
  shows "wf_slot (Suc h) (Sub n')" "rl (Suc h) (Sub n') j =
      (if ok \<and> same_low (Suc h) j i then Some x else rl (Suc h) (Sub n) j)"
    "t < 2 \<Longrightarrow> rtag (Suc h) (Sub n') t j = rtag (Suc h) (Sub n) t j"
    "\<not> ok \<Longrightarrow> n' = n" "ok = (rl (Suc h) (Sub n) i = None)"
    "h = 0 \<Longrightarrow> ok \<Longrightarrow> \<not> tag_get n 0 (digit h i) \<and> \<not> tag_get n 1 (digit h i)"
proof -
  let ?k = "digit h i" and ?old = "rn_slots n ! digit h i"
  have C: "wf_slot h new" "new \<noteq> Null" "ok = (rl h ?old i = None)" "\<not> ok \<Longrightarrow> new = ?old"
    "rl h new j = (if ok \<and> same_low h j i then Some x else rl h ?old j)"
    "t < 2 \<Longrightarrow> slot_tag t new = slot_tag t ?old" "t < 2 \<Longrightarrow> rtag h new t j = rtag h ?old t j" for j t
    using c by (auto simp: ins_spec_def)
  have nz: "?old \<noteq> Null" if "\<not> ok" using that C(3) by auto
  have cnt: "rn_count n' = length (filter (\<lambda>s. s \<noteq> Null) (rn_slots n'))"
    using length_filter_upd [of ?k "rn_slots n" "\<lambda>s. s \<noteq> Null" new] n(1,4) C(2) by (simp add: n'_def split: if_splits)
  have pos: "0 < rn_count n'"
    unfolding cnt using C(2) n(1) by (simp add: n'_def length_pos_if_in_set set_update_memI filter_empty_conv) 
      (metis digit_less set_update_memI)
  have tg: "tags_ok h (rn_slots n') (rn_tags n')"
    unfolding n'_def rn_upd_slot_sel using C(2,6) by (intro tags_ok_upd n) auto
  show "wf_slot (Suc h) (Sub n')"
    using n C(1) cnt pos tg by (auto simp: n'_def nth_list_update)
  show "rl (Suc h) (Sub n') j = (if ok \<and> same_low (Suc h) j i then Some x else rl (Suc h) (Sub n) j)"
    unfolding n'_def rl_upd [OF digit_less n(1)] using C(5) [of j] by (auto simp: same_low_Suc)
  show "rtag (Suc h) (Sub n') t j = rtag (Suc h) (Sub n) t j" if "t < 2"
    using C(7) [OF that, of j] by (cases "h = 0") (auto simp: n'_def nth_list_update n(1))
  show "n' = n" if "\<not> ok" using C(4) [OF that] nz [OF that] by (simp add: n'_def same_node)
  show "ok = (rl (Suc h) (Sub n) i = None)" using C(3) by simp
  show "\<not> tag_get n 0 ?k \<and> \<not> tag_get n 1 ?k" if "h = 0" ok
  proof -
    have "?old = Null" using that C(3) n(5) [rule_format, of ?k] by (auto split: slot.splits)
    then have "\<forall>t<2. \<not> bit (rn_tags n ! t) ?k" using n(6) that digit_less [of h i] unfolding tags_ok_def by blast
    then show ?thesis by (simp add: tag_get_def)
  qed
qed

lemma insert_loop_ok:
  assumes "wf_slot h s"
  shows "\<exists>s' ok. insert_loop h index x s = Some (s', ok) \<and> ins_spec h (unat index) x s s' ok"
  using assms
proof (induction h arbitrary: s)
  case 0
  then show ?case by (auto simp: ins_spec_def split: slot.splits)
next
  case (Suc h)
  let ?i = "unat index"
  define n where "n = (case s of Sub n \<Rightarrow> n | _ \<Rightarrow> radix_tree_node_alloc (Suc h))"
  have n: "length (rn_slots n) = 64" "length (rn_tags n) = 2" "rn_height n = Suc h"
    "rn_count n = length (filter (\<lambda>s. s \<noteq> Null) (rn_slots n))"
    "\<forall>i<64. wf_slot h (rn_slots n ! i)" "tags_ok h (rn_slots n) (rn_tags n)"
    and nd: "(case s of Null \<Rightarrow> Some (radix_tree_node_alloc (Suc h)) | Sub n \<Rightarrow> Some n | Item _ \<Rightarrow> None) = Some n"
    and old: "rl (Suc h) s j = rl (Suc h) (Sub n) j" "t < 2 \<Longrightarrow> rtag (Suc h) s t j = rtag (Suc h) (Sub n) t j"
    "t < 2 \<Longrightarrow> slot_tag t s = slot_tag t (Sub n)" "s \<noteq> Null \<Longrightarrow> s = Sub n" for j t
    using Suc.prems tags_ok_empty
    by (cases s; simp add: n_def less_2_cases_iff; auto)+
  obtain new ok where new: "insert_loop h index x (rn_slots n ! digit h ?i) = Some (new, ok)"
    "ins_spec h ?i x (rn_slots n ! digit h ?i) new ok"
    using Suc.IH [OF n(5) [rule_format, OF digit_less]] by blast
  note I = insert_node [OF n new(2)]
  let ?n' = "rn_upd_slot n (rn_count n + (if rn_slots n ! digit h ?i = Null then 1 else 0)) (digit h ?i) new"
  have "insert_loop (Suc h) index x s = Some (Sub ?n', ok)"
    using nd new(1) I(6) by (simp add: radix_off_eq del: node_alloc_sel)
  moreover have "ins_spec (Suc h) ?i x s (Sub ?n') ok"
    unfolding ins_spec_def
  proof (intro conjI allI impI)
    show "ok = (rl (Suc h) s ?i = None)" unfolding old(1) by (rule I(5))
    show "Sub ?n' = s" if "\<not> ok"
    proof -
      have "s \<noteq> Null" using I(5) old(1) [of ?i] that rl_Null [of "Suc h" ?i] by metis
      then show ?thesis using I(4) [OF that] old(4) by simp
    qed
    show "slot_tag t (Sub ?n') = slot_tag t s" if "t < 2" for t unfolding old(3) [OF that] by simp
    show "rtag (Suc h) (Sub ?n') t j = rtag (Suc h) s t j" if "t < 2" for t j
      unfolding old(2) [OF that] by (rule I(3) [OF that])
    show "rl (Suc h) (Sub ?n') j = (if ok \<and> same_low (Suc h) j ?i then Some x else rl (Suc h) s j)" for j
      unfolding old(1) by (rule I(2))
    show "wf_slot (Suc h) (Sub ?n')" by (rule I(1))
  qed simp
  ultimately show ?case by blast
qed

section \<open>Tagging\<close>

lemma tag_set_sel [simp]:
  "rn_height (tag_set n t k) = rn_height n" "rn_count (tag_set n t k) = rn_count n"
  "rn_slots (tag_set n t k) = rn_slots n" "rn_tags (tag_set n t k) = (rn_tags n)[t := set_bit k (rn_tags n ! t)]"
  by (simp_all add: tag_set_def)

lemma tag_clear_sel [simp]:
  "rn_height (tag_clear n t k) = rn_height n" "rn_count (tag_clear n t k) = rn_count n"
  "rn_slots (tag_clear n t k) = rn_slots n" "rn_tags (tag_clear n t k) = (rn_tags n)[t := unset_bit k (rn_tags n ! t)]"
  by (simp_all add: tag_clear_def)

lemma bit_set_u64 [simp]: "bit (set_bit k (w::u64)) i \<longleftrightarrow> (i = k \<and> i < 64) \<or> bit w i"
  by (auto simp: bit_set_bit_iff)

lemma bit_unset_u64 [simp]: "bit (unset_bit k (w::u64)) i \<longleftrightarrow> bit w i \<and> i \<noteq> k"
  by (auto simp: bit_unset_bit_iff)

text \<open>The node a step of a tagging loop leaves: one child and one tag bit changed.\<close>

lemma wf_retag:
  assumes n: "wf_slot (Suc h) (Sub n)" and s: "wf_slot h s" "s = Null \<longleftrightarrow> rn_slots n ! k = Null"
    and k: "k < 64" and n': "rn_height n' = rn_height n" "rn_count n' = rn_count n" "rn_slots n' = (rn_slots n)[k := s]"
    "length (rn_tags n') = 2"
    and bits: "\<And>u i. u < 2 \<Longrightarrow> i < 64 \<Longrightarrow> i \<noteq> k \<Longrightarrow> bit (rn_tags n' ! u) i = bit (rn_tags n ! u) i"
    "\<And>u. u < 2 \<Longrightarrow> h = 0 \<Longrightarrow> bit (rn_tags n' ! u) k \<Longrightarrow> s \<noteq> Null"
    "\<And>u. u < 2 \<Longrightarrow> h \<noteq> 0 \<Longrightarrow> bit (rn_tags n' ! u) k = slot_tag u s"
  shows "wf_slot (Suc h) (Sub n')"
proof -
  have N: "rn_height n = Suc h" "length (rn_slots n) = 64" "rn_count n = length (filter (\<lambda>s. s \<noteq> Null) (rn_slots n))"
    "0 < rn_count n" "\<And>i. i < 64 \<Longrightarrow> wf_slot h (rn_slots n ! i)" "tags_ok h (rn_slots n) (rn_tags n)"
    using n by auto
  have "length (filter (\<lambda>s. s \<noteq> Null) ((rn_slots n)[k := s])) = length (filter (\<lambda>s. s \<noteq> Null) (rn_slots n))"
    using length_filter_upd [of k "rn_slots n" "\<lambda>s. s \<noteq> Null" s] k N(2) s(2) by (auto split: if_splits)
  moreover have "tags_ok h ((rn_slots n)[k := s]) (rn_tags n')"
    unfolding tags_ok_def
  proof (intro allI impI)
    fix u i :: nat assume u: "u < 2" "i < 64"
    show "(h = 0 \<longrightarrow> bit (rn_tags n' ! u) i \<longrightarrow> (rn_slots n)[k := s] ! i \<noteq> Null) \<and>
      (h \<noteq> 0 \<longrightarrow> bit (rn_tags n' ! u) i = slot_tag u ((rn_slots n)[k := s] ! i))"
      using N(2,6) bits u by (cases "i = k") (auto simp: tags_ok_def)
  qed
  moreover have "wf_slot h ((rn_slots n)[k := s] ! i)" if "i < 64" for i
    using N(2,5) s(1) that by (cases "i = k") auto
  ultimately show ?thesis using N n' by simp
qed

definition tset_spec :: "nat \<Rightarrow> nat \<Rightarrow> nat \<Rightarrow> 'a slot \<Rightarrow> 'a slot \<Rightarrow> bool" where
  "tset_spec h i t s s' \<longleftrightarrow> wf_slot h s' \<and> s' \<noteq> Null \<and> (\<forall>j. rl h s' j = rl h s j) \<and>
     (\<forall>u<2. slot_tag u s' = (slot_tag u s \<or> u = t \<and> h \<noteq> 0)) \<and>
     (\<forall>u<2. \<forall>j. rtag h s' u j = (rtag h s u j \<or> u = t \<and> h \<noteq> 0 \<and> same_low h j i))"

lemma tag_set_loop_ok:
  assumes "wf_slot h s" "t < 2" "rl h s (unat index) \<noteq> None"
  shows "\<exists>s'. tag_set_loop h index t s = Some s' \<and> tset_spec h (unat index) t s s'"
  using assms
proof (induction h arbitrary: s)
  case 0
  then show ?case by (auto simp: tset_spec_def split: slot.splits)
next
  case (Suc h)
  let ?i = "unat index" let ?k = "digit h (unat index)"
  obtain n where s: "s = Sub n" and N: "length (rn_slots n) = 64" "length (rn_tags n) = 2"
    "\<And>i. i < 64 \<Longrightarrow> wf_slot h (rn_slots n ! i)" "tags_ok h (rn_slots n) (rn_tags n)"
    using Suc.prems(1,3) by (cases rule: wf_SucE) auto
  let ?old = "rn_slots n ! ?k"
  have old: "rl h ?old ?i \<noteq> None" using Suc.prems(3) s by simp
  then have nz: "?old \<noteq> Null" by auto
  obtain s' where s': "tag_set_loop h index t ?old = Some s'" "tset_spec h ?i t ?old s'"
    using Suc.IH [OF N(3) [OF digit_less] Suc.prems(2) old] by blast
  have S: "wf_slot h s'" "s' \<noteq> Null" "rl h s' j = rl h ?old j"
    "u < 2 \<Longrightarrow> slot_tag u s' = (slot_tag u ?old \<or> u = t \<and> h \<noteq> 0)"
    "u < 2 \<Longrightarrow> rtag h s' u j = (rtag h ?old u j \<or> u = t \<and> h \<noteq> 0 \<and> same_low h j ?i)" for j u
    using s'(2) by (auto simp: tset_spec_def)
  define n1 where "n1 = (if tag_get n t ?k then n else tag_set n t ?k)"
  have n1: "rn_height n1 = rn_height n" "rn_count n1 = rn_count n" "rn_slots n1 = rn_slots n" "length (rn_tags n1) = 2"
    "u < 2 \<Longrightarrow> i < 64 \<Longrightarrow> bit (rn_tags n1 ! u) i = (bit (rn_tags n ! u) i \<or> u = t \<and> i = ?k)" for u i
    using N(2) Suc.prems(2) by (auto simp: n1_def tag_get_def nth_list_update)
  let ?n' = "rn_upd_slot n1 (rn_count n1) ?k s'"
  have run: "tag_set_loop (Suc h) index t s = Some (Sub ?n')"
    using s'(1) nz n1(3) by (simp add: s radix_off_eq n1_def [symmetric])
  have bk: "u < 2 \<Longrightarrow> h \<noteq> 0 \<Longrightarrow> bit (rn_tags n ! u) ?k = slot_tag u ?old" for u
    using N(4) by (simp add: tags_ok_def)
  have "wf_slot (Suc h) (Sub ?n')"
  proof (rule wf_retag [where n = n and k = ?k and s = s'])
    show "bit (rn_tags ?n' ! u) ?k = slot_tag u s'" if "u < 2" "h \<noteq> 0" for u
      using n1(5) [OF that(1) digit_less, of h ?i] bk [OF that] S(4) [OF that(1)] that(2) by auto
    show "wf_slot (Suc h) (Sub n)" using Suc.prems(1) by (simp only: s)
  qed (use S(1,2) nz n1 in simp_all)
  moreover have "rl (Suc h) (Sub ?n') j = rl (Suc h) s j" for j
    unfolding s using S(3) [of j] N(1) by (auto simp: n1 nth_list_update)
  moreover have "slot_tag u (Sub ?n') = (slot_tag u s \<or> u = t)" if "u < 2" for u
  proof -
    have "rn_tags n1 ! u \<noteq> 0 \<longleftrightarrow> rn_tags n ! u \<noteq> 0 \<or> u = t"
      using n1(5) [OF that] digit_less [of h ?i] unfolding word_0_iff by blast
    then show ?thesis by (simp add: s)
  qed
  moreover have "rtag (Suc h) (Sub ?n') u j = (rtag (Suc h) s u j \<or> u = t \<and> same_low (Suc h) j ?i)" if "u < 2" for u j
  proof (cases "h = 0")
    case True
    then show ?thesis using n1(5) [OF that digit_less] by (auto simp: s same_low_Suc)
  next
    case False
    then show ?thesis using S(5) [OF that, of j] N(1) by (auto simp: s same_low_Suc n1 nth_list_update)
  qed
  ultimately have "tset_spec (Suc h) ?i t s (Sub ?n')"
    unfolding tset_spec_def by (simp del: rl.simps rtag.simps wf_slot.simps slot_tag_simps(3))
  then show ?case using run by blast
qed

text \<open>Clearing.  \<open>up\<close> tells the level above that its bit for this child has to go.\<close>

definition tclr_spec :: "nat \<Rightarrow> nat \<Rightarrow> nat \<Rightarrow> 'a slot \<Rightarrow> 'a slot \<Rightarrow> 'a slot \<Rightarrow> bool \<Rightarrow> bool" where
  "tclr_spec h i t s s' item up \<longleftrightarrow> wf_slot h s' \<and> (s' = Null \<longleftrightarrow> s = Null) \<and> (\<forall>j. rl h s' j = rl h s j) \<and>
     (case rl h s i of None \<Rightarrow> item = Null | Some x \<Rightarrow> item = Item x) \<and>
     (up \<longrightarrow> item \<noteq> Null \<and> \<not> slot_tag t s') \<and> (\<not> up \<longrightarrow> slot_tag t s' = slot_tag t s \<and> (h = 0 \<longrightarrow> s = Null)) \<and>
     (\<forall>u<2. u \<noteq> t \<longrightarrow> slot_tag u s' = slot_tag u s) \<and>
     (\<forall>u<2. \<forall>j. rtag h s' u j = (rtag h s u j \<and> \<not> (u = t \<and> same_low h j i)))"

lemma tag_clear_loop_ok:
  assumes "wf_slot h s" "t < 2"
  shows "\<exists>s' item up. tag_clear_loop h index t s = Some (s', item, up) \<and> tclr_spec h (unat index) t s s' item up"
  using assms
proof (induction h arbitrary: s)
  case 0
  then show ?case by (cases s) (auto simp: tclr_spec_def)
next
  case (Suc h)
  let ?i = "unat index" let ?k = "digit h (unat index)"
  from Suc.prems(1) show ?case
  proof (cases rule: wf_SucE)
    case 1
    then show ?thesis by (auto simp: tclr_spec_def)
  next
    case (2 n)
    let ?old = "rn_slots n ! ?k"
    obtain s' item up where r: "tag_clear_loop h index t ?old = Some (s', item, up)" "tclr_spec h ?i t ?old s' item up"
      using Suc.IH [OF 2(7) [OF digit_less] Suc.prems(2)] by blast
    have S: "wf_slot h s'" "s' = Null \<longleftrightarrow> ?old = Null" "rl h s' j = rl h ?old j"
      "case rl h ?old ?i of None \<Rightarrow> item = Null | Some x \<Rightarrow> item = Item x"
      "up \<Longrightarrow> item \<noteq> Null \<and> \<not> slot_tag t s'" "\<not> up \<Longrightarrow> slot_tag t s' = slot_tag t ?old \<and> (h = 0 \<longrightarrow> ?old = Null)"
      "u < 2 \<Longrightarrow> u \<noteq> t \<Longrightarrow> slot_tag u s' = slot_tag u ?old"
      "u < 2 \<Longrightarrow> rtag h s' u j = (rtag h ?old u j \<and> \<not> (u = t \<and> same_low h j ?i))" for j u
      using r(2) by (auto simp: tclr_spec_def)
    have bk: "u < 2 \<Longrightarrow> h \<noteq> 0 \<Longrightarrow> bit (rn_tags n ! u) ?k = slot_tag u ?old"
      "u < 2 \<Longrightarrow> h = 0 \<Longrightarrow> bit (rn_tags n ! u) ?k \<Longrightarrow> ?old \<noteq> Null" for u
      using 2(8) by (simp_all add: tags_ok_def)
    define n1 where "n1 = rn_upd_slot n (rn_count n) ?k s'"
    define n2 where "n2 = (if up then tag_clear n1 t ?k else n1)"
    have n2: "rn_height n2 = rn_height n" "rn_count n2 = rn_count n" "rn_slots n2 = (rn_slots n)[?k := s']"
      "length (rn_tags n2) = 2"
      "u < 2 \<Longrightarrow> i < 64 \<Longrightarrow> bit (rn_tags n2 ! u) i = (bit (rn_tags n ! u) i \<and> \<not> (up \<and> u = t \<and> i = ?k))" for u i
      using 2(4) Suc.prems(2) by (auto simp: n2_def n1_def nth_list_update)
    define up' where "up' \<longleftrightarrow> up \<and> tag_get n t ?k \<and> \<not> any_tag_set n2 t"
    have run: "tag_clear_loop (Suc h) index t s = Some (Sub n2, item, up')"
    proof (cases "up \<and> tag_get n t ?k")
      case True
      then show ?thesis
        using r(1) by (simp add: 2(1) radix_off_eq n1_def [symmetric] n2_def up'_def tag_get_def)
          (simp add: n1_def Let_def)
    next
      case False
      moreover have "n2 = n1" if up
      proof -
        have "\<not> bit (rn_tags n ! t) ?k" using False that by (simp add: tag_get_def)
        then have "unset_bit ?k (rn_tags n ! t) = rn_tags n ! t" by (intro bit_word_eqI) (auto simp: bit_unset_bit_iff)
        then show ?thesis using that by (simp add: n2_def tag_clear_def n1_def rn_upd_slot_def)
      qed
      then have "n2 = n1" by (cases up) (simp_all add: n2_def)
      ultimately show ?thesis
        using r(1) by (simp add: 2(1) radix_off_eq n1_def [symmetric] up'_def tag_get_def) (auto simp: n1_def)
    qed
    have "wf_slot (Suc h) (Sub n2)"
    proof (rule wf_retag [where n = n and k = ?k and s = s'])
      show "bit (rn_tags n2 ! u) ?k = slot_tag u s'" if "u < 2" "h \<noteq> 0" for u
        using n2(5) [OF that(1) digit_less] bk(1) [OF that] S(5) S(6) S(7) [OF that(1)] by (cases "u = t"; cases up) auto
      show "s' \<noteq> Null" if "u < 2" "h = 0" "bit (rn_tags n2 ! u) ?k" for u
        using n2(5) [OF that(1) digit_less] that(3) bk(2) [OF that(1,2)] S(2) by simp
    qed (use Suc.prems(1) 2(1) S(1,2) n2 in auto)
    moreover have "rl (Suc h) (Sub n2) j = rl (Suc h) s j" for j
      using S(3) [of j] 2(1,3) by (auto simp: n2 nth_list_update)
    moreover have "case rl (Suc h) s ?i of None \<Rightarrow> item = Null | Some x \<Rightarrow> item = Item x" using S(4) 2(1) by simp
    moreover have "up' \<longrightarrow> item \<noteq> Null \<and> \<not> slot_tag t (Sub n2)" using S(5) by (auto simp: up'_def any_tag_set_def)
    moreover have "slot_tag t (Sub n2) = slot_tag t s" if "\<not> up'"
    proof (cases "up \<and> tag_get n t ?k")
      case True
      then have "rn_tags n2 ! t \<noteq> 0" "rn_tags n ! t \<noteq> 0" using that digit_less [of h ?i]
        unfolding up'_def any_tag_set_def tag_get_def word_0_iff by blast+
      then show ?thesis using 2(1) by simp
    next
      case False
      then have "bit (rn_tags n2 ! t) i = bit (rn_tags n ! t) i" if "i < 64" for i
        using n2(5) [OF Suc.prems(2) that] by (auto simp: tag_get_def)
      then show ?thesis using 2(1) by (simp add: word_0_iff)
    qed
    moreover have "slot_tag u (Sub n2) = slot_tag u s" if "u < 2" "u \<noteq> t" for u
      using n2(5) [OF that(1)] that(2) 2(1) by (simp add: word_0_iff)
    moreover have "rtag (Suc h) (Sub n2) u j = (rtag (Suc h) s u j \<and> \<not> (u = t \<and> same_low (Suc h) j ?i))"
      if "u < 2" for u j
    proof (cases "h = 0")
      case True
      have "\<not> bit (rn_tags n ! u) ?k" if "\<not> up" using bk(2) [OF \<open>u < 2\<close> True] S(6) [OF that] True by auto
      then show ?thesis using n2(5) [OF that digit_less, of h j] True by (auto simp: 2(1) same_low_Suc)
    next
      case False
      then show ?thesis using S(8) [OF that, of j] 2(3) by (auto simp: 2(1) same_low_Suc n2 nth_list_update)
    qed
    ultimately have "tclr_spec (Suc h) ?i t s (Sub n2) item up'"
      unfolding tclr_spec_def using 2(1) by blast
    then show ?thesis using run by blast
  qed
qed

lemma tag_get_loop_ok:
  "wf_slot h s \<Longrightarrow> h \<noteq> 0 \<Longrightarrow> tag_get_loop h index t s = Some (rtag h s t (unat index))"
proof (induction h arbitrary: s)
  case (Suc h)
  from Suc.prems(1) show ?case
  proof (cases rule: wf_SucE)
    case (2 n)
    then show ?thesis using Suc.IH [OF 2(7) [OF digit_less]] by (simp add: radix_off_eq tag_get_def)
  qed simp
qed simp

section \<open>Deletion\<close>

definition del_spec :: "nat \<Rightarrow> nat \<Rightarrow> 'a slot \<Rightarrow> 'a slot \<Rightarrow> bool" where
  "del_spec h i s s' \<longleftrightarrow> wf_slot h s' \<and> (\<forall>j. rl h s' j = (if same_low h j i then None else rl h s j)) \<and>
     (\<forall>t<2. slot_tag t s' = slot_tag t s) \<and> (\<forall>t<2. \<forall>j. rtag h s' t j = rtag h s t j)"

lemma tags_ok_bit:
  "tags_ok h ss ts \<Longrightarrow> t < 2 \<Longrightarrow> i < 64 \<Longrightarrow> bit (ts ! t) i \<Longrightarrow> ss ! i \<noteq> Null"
  unfolding tags_ok_def by (cases "h = 0") auto

text \<open>Clearing the slot of a child that has become empty.\<close>

lemma delete_child:
  assumes wf: "wf_slot (Suc h) (Sub n)" and k: "k = digit h i" "rn_slots n ! k \<noteq> Null"
    and child: "\<And>j. rl h (rn_slots n ! k) j = None \<or> same_low h j i"
    and tags: "\<And>t. t < 2 \<Longrightarrow> \<not> bit (rn_tags n ! t) k"
    and ct: "\<And>t j. h \<noteq> 0 \<Longrightarrow> t < 2 \<Longrightarrow> \<not> rtag h (rn_slots n ! k) t j"
  shows "del_spec (Suc h) i (Sub n)
    (if rn_count n - 1 = 0 then Null else Sub (rn_upd_slot n (rn_count n - 1) k Null))"
proof -
  have N: "rn_height n = Suc h" "length (rn_slots n) = 64" "length (rn_tags n) = 2"
    "rn_count n = length (filter (\<lambda>s. s \<noteq> Null) (rn_slots n))" "0 < rn_count n"
    "\<And>i. i < 64 \<Longrightarrow> wf_slot h (rn_slots n ! i)" "tags_ok h (rn_slots n) (rn_tags n)"
    using wf by auto
  have k64: "k < 64" using k(1) by simp
  let ?n' = "rn_upd_slot n (rn_count n - 1) k Null"
  have cnt: "length (filter (\<lambda>s. s \<noteq> Null) ((rn_slots n)[k := Null])) = rn_count n - 1"
    using length_filter_upd [of k "rn_slots n" "\<lambda>s. s \<noteq> Null" Null] N(2,4) k64 k(2) by simp
  have rl': "(if digit h j = k then None else rl (Suc h) (Sub n) j) =
      (if same_low (Suc h) j i then None else rl (Suc h) (Sub n) j)" for j
    using child [of j] k(1) by (auto simp: same_low_Suc)
  show ?thesis
  proof (cases "rn_count n - 1 = 0")
    case True
    then have others: "j \<noteq> k \<Longrightarrow> j < 64 \<Longrightarrow> rn_slots n ! j = Null" for j
      using length_filter_1 [of "\<lambda>s. s \<noteq> Null" "rn_slots n" k j] N(2,4,5) k64 k(2) by auto
    have "\<not> bit (rn_tags n ! t) j" if "t < 2" "j < 64" for t j
      using tags [OF that(1)] tags_ok_bit [OF N(7) that] others [of j] that(2) by (cases "j = k") auto
    then have st: "\<not> slot_tag t (Sub n)" if "t < 2" for t using that by (simp add: word_0_iff)
    have "rl (Suc h) (Sub n) j = None" if "digit h j \<noteq> k" for j using others [OF that] by simp
    then have "rl (Suc h) Null j = (if same_low (Suc h) j i then None else rl (Suc h) (Sub n) j)" for j
      using rl' [of j] by (metis rl_Null)
    moreover have "\<not> rtag (Suc h) (Sub n) t j" if "t < 2" for t j using rtag_slot_tag [OF wf that] st [OF that] by blast
    ultimately show ?thesis using True st by (simp add: del_spec_def del: rl.simps rtag.simps wf_slot.simps slot_tag_simps(3))
  next
    case False
    have "tags_ok h ((rn_slots n)[k := Null]) (rn_tags n)"
    proof (rule tags_ok_upd [OF N(7,2) k64])
      show "\<forall>t<2. slot_tag t Null = slot_tag t (rn_slots n ! k)" if "h \<noteq> 0"
        using N(7) tags that k64 by (auto simp: tags_ok_def)
    qed (use tags in auto)
    moreover have "wf_slot h ((rn_slots n)[k := Null] ! j)" if "j < 64" for j
      using N(2,6) that by (cases "j = k") auto
    ultimately have "wf_slot (Suc h) (Sub ?n')" using N cnt False by simp
    moreover have "rl (Suc h) (Sub ?n') j = (if same_low (Suc h) j i then None else rl (Suc h) (Sub n) j)" for j
      unfolding rl' [symmetric] rl_upd [OF k64 N(2)] by simp
    moreover have "rtag (Suc h) (Sub ?n') t j = rtag (Suc h) (Sub n) t j" if "t < 2" for t j
      using ct [OF _ that, of j] N(2) k64 by (cases "h = 0") (auto simp: nth_list_update)
    ultimately show ?thesis using False by (simp add: del_spec_def del: rl.simps rtag.simps wf_slot.simps)
  qed
qed

lemma delete_loop_ok:
  assumes "wf_slot h s" "rl h s (unat index) \<noteq> None" "\<And>t. t < 2 \<Longrightarrow> \<not> rtag h s t (unat index)"
  shows "\<exists>s'. delete_loop h index s = Some s' \<and> del_spec h (unat index) s s'"
  using assms
proof (induction h arbitrary: s)
  case 0
  then show ?case by (auto simp: del_spec_def split: slot.splits)
next
  case (Suc h)
  let ?i = "unat index" let ?k = "digit h (unat index)"
  obtain n where s: "s = Sub n" and N: "length (rn_slots n) = 64"
    "\<And>i. i < 64 \<Longrightarrow> wf_slot h (rn_slots n ! i)" "tags_ok h (rn_slots n) (rn_tags n)"
    using Suc.prems(1,2) by (cases rule: wf_SucE) auto
  have wf: "wf_slot (Suc h) (Sub n)" using Suc.prems(1) by (simp only: s)
  let ?old = "rn_slots n ! ?k"
  have old: "rl h ?old ?i \<noteq> None" using Suc.prems(2) s by simp
  then have nz: "?old \<noteq> Null" by auto
  have ot: "\<not> rtag h ?old t ?i" if "t < 2" for t using Suc.prems(3) [OF that] s by (cases "h = 0") auto
  obtain s' where s': "delete_loop h index ?old = Some s'" "del_spec h ?i ?old s'"
    using Suc.IH [OF N(2) [OF digit_less] old ot] by blast
  have S: "wf_slot h s'" "rl h s' j = (if same_low h j ?i then None else rl h ?old j)"
    "t < 2 \<Longrightarrow> slot_tag t s' = slot_tag t ?old" "t < 2 \<Longrightarrow> rtag h s' t j = rtag h ?old t j" for j t
    using s'(2) by (auto simp: del_spec_def)
  show ?case
  proof (cases "s' = Null")
    case True
    have "rl h ?old j = None \<or> same_low h j ?i" for j using S(2) [of j] True by (auto split: if_splits)
    moreover have "\<not> bit (rn_tags n ! t) ?k" if "t < 2" for t
    proof (cases "h = 0")
      case True
      then show ?thesis using Suc.prems(3) [OF that] s by simp
    next
      case False
      then show ?thesis using S(3) [OF that] True N(3) that by (simp add: tags_ok_def)
    qed
    moreover have "\<not> rtag h ?old t j" if "t < 2" for t j using S(4) [OF that, of j] True by simp
    ultimately have "del_spec (Suc h) ?i (Sub n)
        (if rn_count n - 1 = 0 then Null else Sub (rn_upd_slot n (rn_count n - 1) ?k Null))"
      using wf nz by (intro delete_child) auto
    moreover have "delete_loop (Suc h) index s =
        Some (if rn_count n - 1 = 0 then Null else Sub (rn_upd_slot n (rn_count n - 1) ?k Null))"
      using s'(1) True by (simp add: s radix_off_eq Let_def)
    ultimately show ?thesis unfolding s by blast
  next
    case False
    then have h: "h \<noteq> 0" using s'(1) by (cases h) auto
    let ?n' = "rn_upd_slot n (rn_count n) ?k s'"
    have "wf_slot (Suc h) (Sub ?n')"
    proof (rule wf_retag [where n = n and k = ?k and s = s'])
      show "bit (rn_tags ?n' ! u) ?k = slot_tag u s'" if "u < 2" "h \<noteq> 0" for u
        using N(3) S(3) [OF that(1)] that by (simp add: tags_ok_def)
      show "length (rn_tags ?n') = 2" using wf by simp
    qed (use wf S(1) False nz h in \<open>simp_all only: rn_upd_slot_sel digit_less\<close>)
    moreover have "rl (Suc h) (Sub ?n') j = (if same_low (Suc h) j ?i then None else rl (Suc h) s j)" for j
      unfolding rl_upd [OF digit_less N(1)] s using S(2) [of j] by (auto simp: same_low_Suc)
    moreover have "rtag (Suc h) (Sub ?n') t j = rtag (Suc h) s t j" if "t < 2" for t j
      unfolding rtag_upd [OF digit_less N(1) h] s using S(4) [OF that, of j] h by auto
    ultimately have "del_spec (Suc h) ?i s (Sub ?n')"
      by (simp add: del_spec_def s del: rl.simps rtag.simps wf_slot.simps)
    then show ?thesis using s'(1) False by (simp add: s radix_off_eq)
  qed
qed

section \<open>Shrinking\<close>

definition shr_spec :: "nat \<Rightarrow> 'a slot \<Rightarrow> nat \<Rightarrow> 'a slot \<Rightarrow> bool" where
  "shr_spec h s h' s' \<longleftrightarrow> h' \<le> h \<and> wf_slot h' s' \<and> s' \<noteq> Null \<and>
     (\<forall>j<64 ^ h. rl h s j = (if j < 64 ^ h' then rl h' s' j else None)) \<and>
     (\<forall>t<2. h' \<noteq> 0 \<longrightarrow> slot_tag t s' = slot_tag t s) \<and>
     (\<forall>t<2. \<forall>j<64 ^ h. h' \<noteq> 0 \<longrightarrow> rtag h s t j = (j < 64 ^ h' \<and> rtag h' s' t j)) \<and>
     (\<forall>t<2. \<forall>j<64 ^ h. h' = 0 \<longrightarrow> h \<noteq> 0 \<longrightarrow> rtag h s t j = (j = 0 \<and> slot_tag t s))"

lemma shrink_loop_ok:
  assumes "wf_slot h s" "s \<noteq> Null"
  shows "\<exists>h' s'. shrink_loop h s = Some (h', s') \<and> shr_spec h s h' s'"
  using assms
proof (induction h arbitrary: s)
  case 0
  then show ?case by (simp add: shr_spec_def)
next
  case (Suc h)
  obtain n where s: "s = Sub n" and N: "length (rn_slots n) = 64" "rn_count n = length (filter (\<lambda>s. s \<noteq> Null) (rn_slots n))"
    "\<And>i. i < 64 \<Longrightarrow> wf_slot h (rn_slots n ! i)" "tags_ok h (rn_slots n) (rn_tags n)"
    using Suc.prems by (cases rule: wf_SucE) auto
  show ?case
  proof (cases "rn_count n \<noteq> 1 \<or> rn_slots n ! 0 = Null")
    case True
    then show ?thesis using Suc.prems by (simp add: s shr_spec_def del: rl.simps rtag.simps wf_slot.simps)
  next
    case False
    let ?c = "rn_slots n ! 0"
    have only: "i \<noteq> 0 \<Longrightarrow> i < 64 \<Longrightarrow> rn_slots n ! i = Null" for i
      using length_filter_1 [of "\<lambda>s. s \<noteq> Null" "rn_slots n" 0 i] N(1,2) False by auto
    have bits: "\<not> bit (rn_tags n ! t) i" if "t < 2" "i < 64" "i \<noteq> 0" for t i
      using tags_ok_bit [OF N(4) that(1,2)] only [OF that(3,2)] by blast
    have st: "slot_tag t s = bit (rn_tags n ! t) 0" if "t < 2" for t
      using bits [OF that] unfolding s slot_tag_simps word_0_iff by (metis zero_less_numeral)
    have dig: "digit h j = 0 \<longleftrightarrow> j < 64 ^ h" if "j < 64 ^ Suc h" for j
      using that by (simp add: digit_def less_mult_imp_div_less div_eq_0_iff)
    have rls: "rl (Suc h) s j = (if j < 64 ^ h then rl h ?c j else None)" if "j < 64 ^ Suc h" for j
      using dig [OF that] only [of "digit h j"] by (auto simp: s)
    obtain h' s' where r: "shrink_loop h ?c = Some (h', s')" "shr_spec h ?c h' s'"
      using Suc.IH [OF N(3)] False by fastforce
    have R: "h' \<le> h" "wf_slot h' s'" "s' \<noteq> Null"
      "\<And>j. j < 64 ^ h \<Longrightarrow> rl h ?c j = (if j < 64 ^ h' then rl h' s' j else None)"
      "\<And>t. t < 2 \<Longrightarrow> h' \<noteq> 0 \<Longrightarrow> slot_tag t s' = slot_tag t ?c"
      "\<And>t j. t < 2 \<Longrightarrow> j < 64 ^ h \<Longrightarrow> h' \<noteq> 0 \<Longrightarrow> rtag h ?c t j = (j < 64 ^ h' \<and> rtag h' s' t j)"
      "\<And>t j. t < 2 \<Longrightarrow> j < 64 ^ h \<Longrightarrow> h' = 0 \<Longrightarrow> h \<noteq> 0 \<Longrightarrow> rtag h ?c t j = (j = 0 \<and> slot_tag t ?c)"
      using r(2) by (auto simp: shr_spec_def)
    have le: "(64::nat) ^ h' \<le> 64 ^ h" using R(1) by (simp add: power_increasing)
    have sc: "slot_tag t s = slot_tag t ?c" if "t < 2" "h \<noteq> 0" for t
      using st [OF that(1)] N(4) that by (simp add: tags_ok_def)
    have rts: "rtag (Suc h) s t j = (if h = 0 then j = 0 \<and> slot_tag t s else j < 64 ^ h \<and> rtag h ?c t j)"
      if "t < 2" "j < 64 ^ Suc h" for t j
      using dig [OF that(2)] only [of "digit h j"] st [OF that(1)] bits [OF that(1) digit_less, of h j]
      by (auto simp: s)
    have "rl (Suc h) s j = (if j < 64 ^ h' then rl h' s' j else None)" if "j < 64 ^ Suc h" for j
    proof (cases "j < 64 ^ h")
      case True
      then show ?thesis using rls [OF that] R(4) by simp
    next
      case False
      then have "\<not> j < 64 ^ h'" using le by linarith
      then show ?thesis using rls [OF that] False by simp
    qed
    moreover have "slot_tag t s' = slot_tag t s" if "t < 2" "h' \<noteq> 0" for t
      using R(5) [OF that] sc [OF that(1)] R(1) that(2) by simp
    moreover have "rtag (Suc h) s t j = (j < 64 ^ h' \<and> rtag h' s' t j)" if "t < 2" "j < 64 ^ Suc h" "h' \<noteq> 0" for t j
    proof (cases "j < 64 ^ h")
      case True
      then show ?thesis using rts [OF that(1,2)] R(6) [OF that(1) True that(3)] R(1) that(3) by auto
    next
      case False
      then have "\<not> j < 64 ^ h'" using le by linarith
      then show ?thesis using rts [OF that(1,2)] False R(1) that(3) by auto
    qed
    moreover have "rtag (Suc h) s t j = (j = 0 \<and> slot_tag t s)" if "t < 2" "j < 64 ^ Suc h" "h' = 0" for t j
      using rts [OF that(1,2)] R(7) [OF that(1) _ that(3), of j] sc [OF that(1)] by auto
    ultimately have "shr_spec (Suc h) s h' s'"
      unfolding shr_spec_def using R(1-3) by (simp del: rl.simps rtag.simps wf_slot.simps)
    moreover have "shrink_loop (Suc h) s = Some (h', s')" using r(1) False by (simp add: s)
    ultimately show ?thesis by blast
  qed
qed

section \<open>The whole tree\<close>

lemma root_tag_get_bit: "t < 2 \<Longrightarrow> root_tag_get r t \<longleftrightarrow> bit (gfp_mask r) (t + 22)"
  unfolding root_tag_get_def bit_iff_and_push_bit_not_eq_0 by (rule refl)

lemma root_tags [simp]:
  "t < 2 \<Longrightarrow> u < 2 \<Longrightarrow> root_tag_get (root_tag_set r t) u \<longleftrightarrow> u = t \<or> root_tag_get r u"
  "t < 2 \<Longrightarrow> u < 2 \<Longrightarrow> root_tag_get (root_tag_clear r t) u \<longleftrightarrow> u \<noteq> t \<and> root_tag_get r u"
  "u < 2 \<Longrightarrow> \<not> root_tag_get (root_tag_clear_all r) u"
proof -
  show "root_tag_get (root_tag_set r t) u \<longleftrightarrow> u = t \<or> root_tag_get r u"
    "root_tag_get (root_tag_clear r t) u \<longleftrightarrow> u \<noteq> t \<and> root_tag_get r u" if "t < 2" "u < 2"
    using that by (auto simp: root_tag_get_bit root_tag_set_def root_tag_clear_def bit_simps)
  have m: "(push_bit 22 1 - 1 :: u32) = mask 22" by (simp add: mask_eq_exp_minus_1)
  have b: "\<not> bit (w AND (push_bit 22 1 - 1)) (u + 22)" for w :: u32
    unfolding m bit_and_iff bit_mask_iff by simp
  show "\<not> root_tag_get (root_tag_clear_all r) u" if "u < 2"
    using b [of "gfp_mask r"] that by (simp add: root_tag_get_bit root_tag_clear_all_def)
qed

lemma root_tag_sel [simp]:
  "rt_height (root_tag_set r t) = rt_height r" "rt_rnode (root_tag_set r t) = rt_rnode r"
  "rt_height (root_tag_clear r t) = rt_height r" "rt_rnode (root_tag_clear r t) = rt_rnode r"
  "rt_height (root_tag_clear_all r) = rt_height r" "rt_rnode (root_tag_clear_all r) = rt_rnode r"
  by (simp_all add: root_tag_set_def root_tag_clear_def root_tag_clear_all_def)

lemma root_tag_upd [simp]:
  "root_tag_get (r\<lparr>rt_rnode := s\<rparr>) t = root_tag_get r t" "root_tag_get (r\<lparr>rt_height := h\<rparr>) t = root_tag_get r t"
  by (simp_all add: root_tag_get_def)

definition rt_ok :: "'a radix_tree_root \<Rightarrow> bool" where
  "rt_ok r \<longleftrightarrow> rt_height r \<le> 5 \<and> wf_slot (rt_height r) (rt_rnode r) \<and> (rt_height r \<noteq> 0 \<longrightarrow> rt_rnode r \<noteq> Null) \<and>
     (\<forall>t<2. (rt_height r \<noteq> 0 \<longrightarrow> root_tag_get r t = slot_tag t (rt_rnode r)) \<and>
        (rt_rnode r = Null \<longrightarrow> \<not> root_tag_get r t))"

definition rt_map :: "'a radix_tree_root \<Rightarrow> u64 \<rightharpoonup> 'a" where
  "rt_map r index = (if unat index < 64 ^ rt_height r then rl (rt_height r) (rt_rnode r) (unat index) else None)"

definition rt_tag :: "'a radix_tree_root \<Rightarrow> nat \<Rightarrow> u64 \<Rightarrow> bool" where
  "rt_tag r t index \<longleftrightarrow>
     (if rt_height r = 0 then index = 0 \<and> rt_rnode r \<noteq> Null \<and> root_tag_get r t
      else unat index < 64 ^ rt_height r \<and> rtag (rt_height r) (rt_rnode r) t (unat index))"

text \<open>The indices the tree supports: those below \<open>2 ^ 30\<close>.\<close>

definition rt_key :: "u64 \<Rightarrow> bool" where
  "rt_key index \<longleftrightarrow> unat index < 2 ^ 30"

definition slot_of :: "'a option \<Rightarrow> 'a slot" where
  "slot_of x = (case x of None \<Rightarrow> Null | Some y \<Rightarrow> Item y)"

lemma slot_of_simps [simp]: "slot_of None = Null" "slot_of (Some x) = Item x" "slot_of y = Null \<longleftrightarrow> y = None"
  by (auto simp: slot_of_def split: option.splits)

lemma maxindex_ok:
  assumes "h \<le> 5"
  shows "\<exists>mx. radix_tree_maxindex h = Some mx \<and> (\<forall>index. mx < index \<longleftrightarrow> 64 ^ h \<le> unat index)"
proof -
  have p: "(64::nat) ^ h = 2 ^ (h * 6)" by (simp add: mult.commute [of h 6] power_mult)
  have l: "h * 6 \<le> 30" using assms by simp
  have u: "unat (push_bit (h * 6) 1 :: u64) = 64 ^ h" unfolding p using l by (intro unat_push_bit_1) simp
  then have "1 \<le> (push_bit (h * 6) 1 :: u64)" unfolding word_le_nat_alt by simp
  then have "unat (push_bit (h * 6) 1 - 1 :: u64) = 64 ^ h - 1" using unat_sub [of "1 :: u64"] u by simp
  moreover have "0 < (64::nat) ^ h" by simp
  ultimately have "push_bit (h * 6) 1 - 1 < index \<longleftrightarrow> 64 ^ h \<le> unat index" for index :: u64
    unfolding word_less_nat_alt by linarith
  then show ?thesis using l by (simp add: radix_tree_maxindex_def RADIX_TREE_MAX_PATH_def RADIX_TREE_MAP_SHIFT_def)
qed

lemma lookup_loop_ok: "wf_slot h s \<Longrightarrow> lookup_loop h index s = Some (slot_of (rl h s (unat index)))"
proof (induction h arbitrary: s)
  case 0
  then show ?case by (cases s) auto
next
  case (Suc h)
  from Suc.prems show ?case
  proof (cases rule: wf_SucE)
    case (2 n)
    then show ?thesis using Suc.IH [OF 2(7) [OF digit_less]] by (simp add: radix_off_eq)
  qed simp
qed

lemma lookup_ok:
  assumes "rt_ok r"
  shows "radix_tree_lookup_node r index = Some (slot_of (rt_map r index))"
proof -
  have R: "rt_height r \<le> 5" "wf_slot (rt_height r) (rt_rnode r)" using assms by (auto simp: rt_ok_def)
  show ?thesis
  proof (cases "rt_height r")
    case 0
    have z: "0 < index \<longleftrightarrow> \<not> unat index < 1" by (simp add: word_less_nat_alt)
    show ?thesis using R 0 z by (cases "rt_rnode r") (auto simp: radix_tree_lookup_node_def rt_map_def)
  next
    case (Suc h)
    obtain mx where mx: "radix_tree_maxindex (Suc h) = Some mx" "mx < index \<longleftrightarrow> 64 ^ Suc h \<le> unat index"
      using maxindex_ok [of "Suc h"] R(1) Suc by auto
    from R(2) have "wf_slot (Suc h) (rt_rnode r)" by (simp only: Suc)
    then show ?thesis
    proof (cases rule: wf_SucE)
      case 1
      then show ?thesis by (simp add: radix_tree_lookup_node_def rt_map_def Suc)
    next
      case (2 n)
      have "lookup_loop (Suc h) index (Sub n) = Some (slot_of (rl (Suc h) (Sub n) (unat index)))"
        using lookup_loop_ok [of "Suc h" "Sub n"] R(2) by (simp only: Suc 2(1))
      then show ?thesis
        using 2(1,2) mx by (simp add: radix_tree_lookup_node_def rt_map_def Suc del: lookup_loop.simps rl.simps)
    qed
  qed
qed

text \<open>Growing the tree.  While it grows a tree may be empty at a positive height.\<close>

definition rt_pre :: "'a radix_tree_root \<Rightarrow> bool" where
  "rt_pre r \<longleftrightarrow> rt_height r \<le> 5 \<and> wf_slot (rt_height r) (rt_rnode r) \<and>
     (\<forall>t<2. (rt_height r \<noteq> 0 \<longrightarrow> root_tag_get r t = slot_tag t (rt_rnode r)) \<and>
        (rt_rnode r = Null \<longrightarrow> \<not> root_tag_get r t))"

lemma rt_ok_pre: "rt_ok r \<longleftrightarrow> rt_pre r \<and> (rt_height r \<noteq> 0 \<longrightarrow> rt_rnode r \<noteq> Null)"
  by (auto simp: rt_ok_def rt_pre_def)

lemma add_level_ok:
  assumes ok: "rt_ok r" and h: "rt_height r < 5" and nz: "rt_rnode r \<noteq> Null"
  shows "rt_ok (add_level r)" "rt_height (add_level r) = Suc (rt_height r)" "rt_rnode (add_level r) \<noteq> Null"
    "rt_map (add_level r) = rt_map r" "t < 2 \<Longrightarrow> rt_tag (add_level r) t = rt_tag r t"
proof -
  let ?h = "rt_height r" and ?s = "rt_rnode r"
  have R: "wf_slot ?h ?s" "u < 2 \<Longrightarrow> ?h \<noteq> 0 \<Longrightarrow> root_tag_get r u = slot_tag u ?s" for u
    using ok by (auto simp: rt_ok_def)
  define n where "n = rn_upd_slot (radix_tree_node_alloc (Suc ?h)) 1 0 ?s"
  define n0 where "n0 = (if root_tag_get r 0 then tag_set n 0 0 else n)"
  define n1 where "n1 = (if root_tag_get r 1 then tag_set n0 1 0 else n0)"
  have al: "add_level r = r\<lparr>rt_rnode := Sub n1, rt_height := Suc ?h\<rparr>"
    by (simp add: add_level_def n_def n0_def n1_def Let_def)
  have N: "rn_height n1 = Suc ?h" "rn_count n1 = 1" "rn_slots n1 = (replicate 64 Null)[0 := ?s]" "length (rn_tags n1) = 2"
    by (simp_all add: n1_def n0_def n_def)
  have B: "bit (rn_tags n1 ! u) i = (i = 0 \<and> root_tag_get r u)" if "u < 2" for u i
    using that by (auto simp: n1_def n0_def n_def less_2_cases_iff nth_list_update bit_1_iff)
  have sl: "rn_slots n1 ! i = (if i = 0 then ?s else Null)" if "i < 64" for i using that by (simp add: N nth_list_update)
  have cnt: "length (filter (\<lambda>s. s \<noteq> Null) (rn_slots n1)) = 1"
    using length_filter_upd [of 0 "replicate 64 Null" "\<lambda>s. s \<noteq> Null" ?s] nz by (simp add: N)
  have tg: "tags_ok ?h (rn_slots n1) (rn_tags n1)"
    unfolding tags_ok_def using B sl nz R(2) by auto
  have len: "length (rn_slots n1) = 64" by (simp add: N)
  have wf: "wf_slot (Suc ?h) (Sub n1)" using N(1,2,4) len cnt tg sl R(1) by simp
  have st: "slot_tag u (Sub n1) = root_tag_get r u" if "u < 2" for u
    using B [OF that] unfolding slot_tag_simps word_0_iff by (metis zero_less_numeral)
  show "rt_ok (add_level r)" using wf h st by (simp add: al rt_ok_def del: wf_slot.simps slot_tag_simps(3))
  show "rt_height (add_level r) = Suc ?h" "rt_rnode (add_level r) \<noteq> Null" by (simp_all add: al)
  have dig: "digit ?h j = 0 \<longleftrightarrow> j < 64 ^ ?h" if "j < 64 ^ Suc ?h" for j
    using that by (simp add: digit_def less_mult_imp_div_less div_eq_0_iff)
  have le: "j < 64 ^ ?h \<Longrightarrow> j < 64 ^ Suc ?h" for j :: nat by simp
  have m: "rl (Suc ?h) (Sub n1) j = (if j < 64 ^ ?h then rl ?h ?s j else None)" if "j < 64 ^ Suc ?h" for j
    using dig [OF that] sl [OF digit_less, of ?h j] by (auto simp: split: if_splits)
  show "rt_map (add_level r) = rt_map r"
  proof
    fix index show "rt_map (add_level r) index = rt_map r index"
      using m [of "unat index"] le [of "unat index"] by (auto simp: rt_map_def al simp del: rl.simps)
  qed
  show "rt_tag (add_level r) t = rt_tag r t" if t: "t < 2"
  proof
    fix index :: u64
    have "rtag (Suc ?h) (Sub n1) t (unat index) = (if ?h = 0 then unat index = 0 \<and> root_tag_get r t
        else unat index < 64 ^ ?h \<and> rtag ?h ?s t (unat index))" if "unat index < 64 ^ Suc ?h"
    proof (cases "?h = 0")
      case True
      then show ?thesis using dig [OF that] B [OF t, of "digit ?h (unat index)"] by simp
    next
      case False
      then have "rtag (Suc ?h) (Sub n1) t (unat index) = rtag ?h (if digit ?h (unat index) = 0 then ?s else Null) t (unat index)"
        using sl [OF digit_less, of ?h "unat index"] by simp
      then show ?thesis using dig [OF that] False by simp
    qed
    then show "rt_tag (add_level r) t index = rt_tag r t index"
      using le [of "unat index"] nz by (auto simp: rt_tag_def al unat_eq_zero simp del: rtag.simps)
  qed
qed

lemma add_levels_ok:
  assumes "rt_ok r" "rt_height r + m \<le> 5" "rt_rnode r \<noteq> Null"
  shows "rt_ok (add_levels m r) \<and> rt_height (add_levels m r) = rt_height r + m \<and>
    rt_map (add_levels m r) = rt_map r \<and> (\<forall>t<2. rt_tag (add_levels m r) t = rt_tag r t)"
  using assms
proof (induction m arbitrary: r)
  case (Suc m)
  have l: "rt_height r < 5" using Suc.prems(2) by simp
  note A = add_level_ok [OF Suc.prems(1) l Suc.prems(3)]
  have h: "rt_height (add_level r) + m \<le> 5" using A(2) Suc.prems(2) by simp
  show ?case using Suc.IH [OF A(1) h A(3)] A(2,4,5) by simp
qed simp

lemma extend_height_ok:
  assumes "h \<le> 5" "unat index < 64 ^ 5"
  shows "\<exists>h'. extend_height index h = Some h' \<and> h \<le> h' \<and> h' \<le> 5 \<and> unat index < 64 ^ h'"
  using assms
proof (induction index h rule: extend_height.induct)
  case (1 index h)
  obtain mx where mx: "radix_tree_maxindex h = Some mx" "mx < index \<longleftrightarrow> 64 ^ h \<le> unat index"
    using maxindex_ok [OF 1(2)] by blast
  show ?case
  proof (cases "mx < index")
    case True
    then have "h \<noteq> 5" using mx(2) 1(3) by auto
    then have "h + 1 \<le> 5" using 1(2) by simp
    from 1(1) [OF mx(1) True this 1(3)] show ?thesis
      using mx(1) True by (auto simp: extend_height.simps [of index h])
  next
    case False
    then show ?thesis using mx 1(2) by (auto simp: extend_height.simps [of index h])
  qed
qed

lemma insert_in_range:
  assumes pre: "rt_pre r" and i: "unat index < 64 ^ rt_height r"
  shows "\<exists>s ok. insert_loop (rt_height r) index x (rt_rnode r) = Some (s, ok) \<and> ok = (rt_map r index = None) \<and>
    (\<not> ok \<longrightarrow> s = rt_rnode r) \<and> rt_ok (r\<lparr>rt_rnode := s\<rparr>) \<and>
    rt_map (r\<lparr>rt_rnode := s\<rparr>) = (if ok then (rt_map r)(index \<mapsto> x) else rt_map r) \<and>
    (\<forall>t<2. rt_height r \<noteq> 0 \<longrightarrow> rt_tag (r\<lparr>rt_rnode := s\<rparr>) t = rt_tag r t) \<and>
    (ok \<and> rt_height r = 0 \<longrightarrow> rt_rnode r = Null)"
proof -
  let ?h = "rt_height r" and ?s = "rt_rnode r" and ?i = "unat index"
  have R: "?h \<le> 5" "wf_slot ?h ?s" "t < 2 \<Longrightarrow> ?h \<noteq> 0 \<Longrightarrow> root_tag_get r t = slot_tag t ?s" for t
    using pre by (auto simp: rt_pre_def)
  obtain s ok where l: "insert_loop ?h index x ?s = Some (s, ok)" "ins_spec ?h ?i x ?s s ok"
    using insert_loop_ok [OF R(2)] by blast
  have S: "wf_slot ?h s" "s \<noteq> Null" "ok = (rl ?h ?s ?i = None)" "\<not> ok \<Longrightarrow> s = ?s"
    "rl ?h s j = (if ok \<and> same_low ?h j ?i then Some x else rl ?h ?s j)"
    "t < 2 \<Longrightarrow> slot_tag t s = slot_tag t ?s" "t < 2 \<Longrightarrow> rtag ?h s t j = rtag ?h ?s t j" for j t
    using l(2) by (auto simp: ins_spec_def)
  have "rt_map (r\<lparr>rt_rnode := s\<rparr>) j = (if ok then (rt_map r)(index \<mapsto> x) else rt_map r) j" for j
    using S(5) [of "unat j"] same_low_eq [of "unat j" ?h ?i] i
    by (auto simp: rt_map_def word_unat_eq_iff)
  then have m: "rt_map (r\<lparr>rt_rnode := s\<rparr>) = (if ok then (rt_map r)(index \<mapsto> x) else rt_map r)" by blast
  have o: "rt_ok (r\<lparr>rt_rnode := s\<rparr>)" using R S(1,2,6) by (auto simp: rt_ok_def)
  have b: "ok = (rt_map r index = None)" using S(3) i by (simp add: rt_map_def)
  have tg: "rt_tag (r\<lparr>rt_rnode := s\<rparr>) t = rt_tag r t" if "t < 2" "?h \<noteq> 0" for t
    using S(7) [OF that(1)] that(2) by (auto simp: rt_tag_def fun_eq_iff)
  have nl: "ok \<and> ?h = 0 \<longrightarrow> ?s = Null" using S(3) R(2) by (cases ?s) auto
  have "\<not> ok \<longrightarrow> s = ?s" "\<forall>t<2. ?h \<noteq> 0 \<longrightarrow> rt_tag (r\<lparr>rt_rnode := s\<rparr>) t = rt_tag r t"
    using S(4) tg by blast+
  then show ?thesis using l(1) b o m nl by (intro exI conjI)
qed

lemma insert_ok:
  assumes ok: "rt_ok r" and key: "rt_key index"
  shows "\<exists>r'. radix_tree_insert r index x = Some (r', if rt_map r index = None then 0 else - 1) \<and> rt_ok r' \<and>
    rt_map r' = (if rt_map r index = None then (rt_map r)(index \<mapsto> x) else rt_map r) \<and> (\<forall>t<2. rt_tag r' t = rt_tag r t)"
proof -
  have R: "rt_height r \<le> 5" "wf_slot (rt_height r) (rt_rnode r)" "rt_height r \<noteq> 0 \<Longrightarrow> rt_rnode r \<noteq> Null"
    "rt_rnode r = Null \<Longrightarrow> t < 2 \<Longrightarrow> \<not> root_tag_get r t" for t using ok by (auto simp: rt_ok_def)
  obtain mx where mx: "radix_tree_maxindex (rt_height r) = Some mx" "mx < index \<longleftrightarrow> 64 ^ rt_height r \<le> unat index"
    using maxindex_ok [OF R(1)] by blast
  have "\<exists>r1. (if mx < index then radix_tree_extend r index else Some r) = Some r1 \<and> rt_pre r1 \<and>
      unat index < 64 ^ rt_height r1 \<and> rt_map r1 = rt_map r \<and> (\<forall>t<2. rt_tag r1 t = rt_tag r t) \<and>
      (rt_map r index \<noteq> None \<longrightarrow> r1 = r)"
  proof (cases "mx < index")
    case False
    then show ?thesis using mx ok by (auto simp: rt_ok_pre)
  next
    case True
    have k5: "unat index < 64 ^ 5" using key by (simp add: rt_key_def)
    have "rt_height r \<noteq> 5" using True mx(2) k5 by auto
    then have h5: "rt_height r + 1 \<le> 5" using R(1) by simp
    obtain h where h: "extend_height index (rt_height r + 1) = Some h" "rt_height r + 1 \<le> h" "h \<le> 5" "unat index < 64 ^ h"
      using extend_height_ok [OF h5 k5] by blast
    have none: "rt_map r index = None" using True mx(2) by (simp add: rt_map_def)
    show ?thesis
    proof (cases "rt_rnode r = Null")
      case n: True
      let ?r1 = "r\<lparr>rt_height := h\<rparr>"
      have "rt_pre ?r1" using h(2,3) n R(4) by (auto simp: rt_pre_def)
      moreover have "rt_map ?r1 = rt_map r" using n by (auto simp: rt_map_def)
      moreover have "rt_tag ?r1 t = rt_tag r t" for t using n by (auto simp: rt_tag_def fun_eq_iff)
      ultimately show ?thesis using True n h none by (simp add: radix_tree_extend_def)
    next
      case n: False
      have e: "rt_height r + (h - rt_height r) = h" using h(2) by simp
      then have "rt_height r + (h - rt_height r) \<le> 5" using h(3) by simp
      note A = add_levels_ok [OF ok this n]
      show ?thesis using True n h(1,4) A e none by (simp add: radix_tree_extend_def rt_ok_pre)
    qed
  qed
  then obtain r1 where r1: "(if mx < index then radix_tree_extend r index else Some r) = Some r1" "rt_pre r1"
    "unat index < 64 ^ rt_height r1" "rt_map r1 = rt_map r" "\<forall>t<2. rt_tag r1 t = rt_tag r t"
    "rt_map r index \<noteq> None \<longrightarrow> r1 = r" by blast
  obtain s b where s: "insert_loop (rt_height r1) index x (rt_rnode r1) = Some (s, b)" "b = (rt_map r1 index = None)"
    "\<not> b \<longrightarrow> s = rt_rnode r1" "rt_ok (r1\<lparr>rt_rnode := s\<rparr>)"
    "rt_map (r1\<lparr>rt_rnode := s\<rparr>) = (if b then (rt_map r1)(index \<mapsto> x) else rt_map r1)"
    "\<forall>t<2. rt_height r1 \<noteq> 0 \<longrightarrow> rt_tag (r1\<lparr>rt_rnode := s\<rparr>) t = rt_tag r1 t"
    "b \<and> rt_height r1 = 0 \<longrightarrow> rt_rnode r1 = Null"
    using insert_in_range [OF r1(2,3), of x] by blast
  have tags: "\<not> root_tag_get r1 t" if b "rt_height r1 = 0" "t < 2" for t
    using s(7) that r1(2) by (auto simp: rt_pre_def)
  show ?thesis
  proof (cases b)
    case True
    have "radix_tree_insert r index x = Some (r1\<lparr>rt_rnode := s\<rparr>, 0)"
      using mx(1) r1(1) s(1) True tags by (simp add: radix_tree_insert_def)
    moreover have "rt_tag (r1\<lparr>rt_rnode := s\<rparr>) t = rt_tag r t" if "t < 2" for t
    proof (cases "rt_height r1 = 0")
      case h: True
      have "rt_tag (r1\<lparr>rt_rnode := s\<rparr>) t = rt_tag r1 t" using h tags [OF True h that] by (auto simp: rt_tag_def fun_eq_iff)
      then show ?thesis using r1(5) that by simp
    next
      case False
      then show ?thesis using s(6) r1(5) that by simp
    qed
    ultimately show ?thesis using True s(2,4,5) r1(4) by auto
  next
    case False
    then have "radix_tree_insert r index x = Some (r1, - 1)" "r1 = r"
      using mx(1) r1(1,4,6) s(1,2) by (simp_all add: radix_tree_insert_def)
    then show ?thesis using False s(2) r1(4) ok by auto
  qed
qed

lemma tag_get_ok:
  assumes ok: "rt_ok r" and t: "t < 2"
  shows "radix_tree_tag_get r index t = Some (rt_tag r t index)"
proof -
  have R: "rt_height r \<le> 5" "wf_slot (rt_height r) (rt_rnode r)" "rt_height r \<noteq> 0 \<Longrightarrow> root_tag_get r t = slot_tag t (rt_rnode r)"
    using ok t by (auto simp: rt_ok_def)
  show ?thesis
  proof (cases "root_tag_get r t")
    case False
    then have "\<not> rt_tag r t index" using R(3) rtag_slot_tag [OF R(2) t] by (auto simp: rt_tag_def)
    then show ?thesis using False by (simp add: radix_tree_tag_get_def)
  next
    case root: True
    show ?thesis
    proof (cases "rt_height r")
      case 0
      then show ?thesis using R(2) root by (cases "rt_rnode r") (auto simp: radix_tree_tag_get_def rt_tag_def)
    next
      case (Suc h)
      obtain mx where mx: "radix_tree_maxindex (Suc h) = Some mx" "mx < index \<longleftrightarrow> 64 ^ Suc h \<le> unat index"
        using maxindex_ok [of "Suc h"] R(1) Suc by auto
      have wf: "wf_slot (Suc h) (rt_rnode r)" using R(2) by (simp only: Suc)
      then obtain n where n: "rt_rnode r = Sub n" "rn_height n = Suc h"
        using root R(3) Suc by (cases rule: wf_SucE) auto
      have "tag_get_loop (Suc h) index t (Sub n) = Some (rtag (Suc h) (Sub n) t (unat index))"
        using tag_get_loop_ok [OF wf] by (simp only: n(1))
      then show ?thesis
        using n mx root by (simp add: radix_tree_tag_get_def rt_tag_def Suc del: tag_get_loop.simps rtag.simps)
    qed
  qed
qed

lemma tag_set_ok:
  assumes ok: "rt_ok r" and t: "t < 2" and present: "rt_map r index \<noteq> None"
  shows "\<exists>r'. radix_tree_tag_set r index t = Some r' \<and> rt_ok r' \<and> rt_map r' = rt_map r \<and>
    (\<forall>u<2. \<forall>j. rt_tag r' u j = (rt_tag r u j \<or> u = t \<and> j = index))"
proof -
  let ?h = "rt_height r" and ?s = "rt_rnode r" and ?i = "unat index"
  have R: "?h \<le> 5" "wf_slot ?h ?s" "u < 2 \<Longrightarrow> ?h \<noteq> 0 \<Longrightarrow> root_tag_get r u = slot_tag u ?s" for u
    using ok by (auto simp: rt_ok_def)
  have i: "?i < 64 ^ ?h" "rl ?h ?s ?i \<noteq> None" using present by (auto simp: rt_map_def split: if_splits)
  obtain mx where mx: "radix_tree_maxindex ?h = Some mx" "mx < index \<longleftrightarrow> 64 ^ ?h \<le> ?i"
    using maxindex_ok [OF R(1)] by blast
  obtain s where l: "tag_set_loop ?h index t ?s = Some s" "tset_spec ?h ?i t ?s s"
    using tag_set_loop_ok [OF R(2) t i(2)] by blast
  have S: "wf_slot ?h s" "s \<noteq> Null" "rl ?h s j = rl ?h ?s j" "u < 2 \<Longrightarrow> slot_tag u s = (slot_tag u ?s \<or> u = t \<and> ?h \<noteq> 0)"
    "u < 2 \<Longrightarrow> rtag ?h s u j = (rtag ?h ?s u j \<or> u = t \<and> ?h \<noteq> 0 \<and> same_low ?h j ?i)" for j u
    using l(2) by (auto simp: tset_spec_def)
  define r1 where "r1 = r\<lparr>rt_rnode := s\<rparr>"
  define r' where "r' = (if root_tag_get r1 t then r1 else root_tag_set r1 t)"
  have run: "radix_tree_tag_set r index t = Some r'"
    using mx i(1) l(1) S(2) by (simp add: radix_tree_tag_set_def r1_def r'_def linorder_not_less [symmetric])
  have sel: "rt_height r' = ?h" "rt_rnode r' = s" "u < 2 \<Longrightarrow> root_tag_get r' u = (root_tag_get r u \<or> u = t)" for u
    using t by (auto simp: r'_def r1_def)
  have "rt_ok r'" using R S(1,2,4) t by (auto simp: rt_ok_def sel)
  moreover have "rt_map r' = rt_map r" using S(3) by (auto simp: rt_map_def sel)
  moreover have "rt_tag r' u j = (rt_tag r u j \<or> u = t \<and> j = index)" if "u < 2" for u j
  proof (cases "?h = 0")
    case True
    then have "?s \<noteq> Null" "index = 0" using i by (auto simp: unat_eq_zero)
    then show ?thesis using True sel S(2) that by (auto simp: rt_tag_def)
  next
    case False
    then show ?thesis using S(5) [OF that, of "unat j"] same_low_eq [of "unat j" ?h ?i] i(1)
      by (auto simp: rt_tag_def sel word_unat_eq_iff)
  qed
  ultimately show ?thesis using run by blast
qed

lemma tag_clear_ok:
  assumes ok: "rt_ok r" and t: "t < 2"
  shows "\<exists>r'. radix_tree_tag_clear r index t = Some (r', slot_of (rt_map r index)) \<and> rt_ok r' \<and>
    rt_height r' = rt_height r \<and> rt_map r' = rt_map r \<and> (\<forall>u<2. \<forall>j. rt_tag r' u j = (rt_tag r u j \<and> \<not> (u = t \<and> j = index)))"
proof -
  let ?h = "rt_height r" and ?s = "rt_rnode r" and ?i = "unat index"
  have R: "?h \<le> 5" "wf_slot ?h ?s" "?h \<noteq> 0 \<Longrightarrow> ?s \<noteq> Null" "u < 2 \<Longrightarrow> ?h \<noteq> 0 \<Longrightarrow> root_tag_get r u = slot_tag u ?s"
    "u < 2 \<Longrightarrow> ?s = Null \<Longrightarrow> \<not> root_tag_get r u" for u
    using ok by (auto simp: rt_ok_def)
  obtain mx where mx: "radix_tree_maxindex ?h = Some mx" "mx < index \<longleftrightarrow> 64 ^ ?h \<le> ?i"
    using maxindex_ok [OF R(1)] by blast
  show ?thesis
  proof (cases "?i < 64 ^ ?h")
    case False
    then have "radix_tree_tag_clear r index t = Some (r, Null)" "rt_map r index = None" "\<not> rt_tag r u index" for u
      using mx by (auto simp: radix_tree_tag_clear_def rt_map_def rt_tag_def)
    then show ?thesis using ok by auto
  next
    case True
    obtain s item up where l: "tag_clear_loop ?h index t ?s = Some (s, item, up)" "tclr_spec ?h ?i t ?s s item up"
      using tag_clear_loop_ok [OF R(2) t] by blast
    have S: "wf_slot ?h s" "s = Null \<longleftrightarrow> ?s = Null" "rl ?h s j = rl ?h ?s j"
      "case rl ?h ?s ?i of None \<Rightarrow> item = Null | Some x \<Rightarrow> item = Item x"
      "up \<Longrightarrow> item \<noteq> Null \<and> \<not> slot_tag t s" "\<not> up \<Longrightarrow> slot_tag t s = slot_tag t ?s \<and> (?h = 0 \<longrightarrow> ?s = Null)"
      "u < 2 \<Longrightarrow> u \<noteq> t \<Longrightarrow> slot_tag u s = slot_tag u ?s"
      "u < 2 \<Longrightarrow> rtag ?h s u j = (rtag ?h ?s u j \<and> \<not> (u = t \<and> same_low ?h j ?i))" for j u
      using l(2) by (auto simp: tclr_spec_def)
    define r1 where "r1 = r\<lparr>rt_rnode := s\<rparr>"
    define r' where "r' = (if up \<and> root_tag_get r1 t then root_tag_clear r1 t else r1)"
    have it: "item = slot_of (rt_map r index)" using S(4) True by (simp add: rt_map_def slot_of_def split: option.splits)
    have run: "radix_tree_tag_clear r index t = Some (r', slot_of (rt_map r index))"
      using mx True l(1) it by (simp add: radix_tree_tag_clear_def Let_def r1_def r'_def)
    have sel: "rt_height r' = ?h" "rt_rnode r' = s" "u < 2 \<Longrightarrow> root_tag_get r' u = (root_tag_get r u \<and> \<not> (up \<and> u = t))" for u
      using t by (auto simp: r'_def r1_def)
    have "slot_tag u s = (slot_tag u ?s \<and> \<not> (up \<and> u = t))" if "u < 2" for u
      using S(5) S(6) S(7) [OF that] by (cases "u = t"; cases up) auto
    then have "rt_ok r'" using R S(1,2) by (auto simp: rt_ok_def sel)
    moreover have "rt_map r' = rt_map r" using S(3) by (auto simp: rt_map_def sel)
    moreover have "rt_tag r' u j = (rt_tag r u j \<and> \<not> (u = t \<and> j = index))" if "u < 2" for u j
    proof (cases "?h = 0")
      case h: True
      then have "index = 0" using True by (simp add: unat_eq_zero)
      then show ?thesis using h sel that S(2,6) by (auto simp: rt_tag_def)
    next
      case False
      then show ?thesis using S(8) [OF that, of "unat j"] same_low_eq [of "unat j" ?h ?i] True
        by (auto simp: rt_tag_def sel word_unat_eq_iff)
    qed
    ultimately show ?thesis using run sel(1) by blast
  qed
qed

text \<open>Shrinking keeps the map and the tags.\<close>

lemma shrink_ok:
  assumes ok: "rt_ok r" and h: "rt_height r \<noteq> 0"
  shows "\<exists>r'. radix_tree_shrink r = Some r' \<and> rt_ok r' \<and> rt_map r' = rt_map r \<and> (\<forall>t<2. rt_tag r' t = rt_tag r t)"
proof -
  let ?h = "rt_height r" and ?s = "rt_rnode r"
  have R: "?h \<le> 5" "wf_slot ?h ?s" "?s \<noteq> Null" "u < 2 \<Longrightarrow> root_tag_get r u = slot_tag u ?s" for u
    using ok h by (auto simp: rt_ok_def)
  obtain h' s' where l: "shrink_loop ?h ?s = Some (h', s')" "shr_spec ?h ?s h' s'"
    using shrink_loop_ok [OF R(2,3)] by blast
  have S: "h' \<le> ?h" "wf_slot h' s'" "s' \<noteq> Null"
    "j < 64 ^ ?h \<Longrightarrow> rl ?h ?s j = (if j < 64 ^ h' then rl h' s' j else None)"
    "t < 2 \<Longrightarrow> h' \<noteq> 0 \<Longrightarrow> slot_tag t s' = slot_tag t ?s"
    "t < 2 \<Longrightarrow> j < 64 ^ ?h \<Longrightarrow> h' \<noteq> 0 \<Longrightarrow> rtag ?h ?s t j = (j < 64 ^ h' \<and> rtag h' s' t j)"
    "t < 2 \<Longrightarrow> j < 64 ^ ?h \<Longrightarrow> h' = 0 \<Longrightarrow> rtag ?h ?s t j = (j = 0 \<and> slot_tag t ?s)" for j t
    using l(2) h by (auto simp: shr_spec_def)
  define r' where "r' = r\<lparr>rt_height := h', rt_rnode := s'\<rparr>"
  have run: "radix_tree_shrink r = Some r'" by (simp add: radix_tree_shrink_def l(1) r'_def)
  have sel: "rt_height r' = h'" "rt_rnode r' = s'" "root_tag_get r' t = root_tag_get r t" for t
    by (auto simp: r'_def root_tag_get_def)
  have le: "j < 64 ^ h' \<Longrightarrow> j < 64 ^ ?h" for j :: nat
    using S(1) power_increasing [of h' ?h "64::nat"] by linarith
  have "rt_ok r'" using R S(1,2,3,5) by (auto simp: rt_ok_def sel)
  moreover have "rt_map r' = rt_map r"
  proof
    fix j show "rt_map r' j = rt_map r j" using S(4) [of "unat j"] le [of "unat j"] by (auto simp: rt_map_def sel)
  qed
  moreover have "rt_tag r' t j = rt_tag r t j" if "t < 2" for t j
  proof (cases "h' = 0")
    case True
    then show ?thesis using S(7) [OF that, of "unat j"] R(4) [OF that] S(3) h
      by (auto simp: rt_tag_def sel unat_eq_zero)
  next
    case False
    then show ?thesis using S(6) [OF that, of "unat j"] le [of "unat j"] h by (auto simp: rt_tag_def sel)
  qed
  ultimately show ?thesis using run by blast
qed

text \<open>The ascent on a tree whose index carries no tag.\<close>

lemma delete_walk_ok:
  assumes ok: "rt_ok r" and h: "rt_height r \<noteq> 0" and present: "rt_map r index \<noteq> None"
    and untagged: "\<And>t. t < 2 \<Longrightarrow> \<not> rt_tag r t index"
  shows "\<exists>s. delete_loop (rt_height r) index (rt_rnode r) = Some s \<and>
    (s = Null \<longrightarrow> (rt_map r)(index := None) = Map.empty \<and> (\<forall>t<2. \<forall>j. \<not> rt_tag r t j)) \<and>
    (s \<noteq> Null \<longrightarrow> rt_ok (r\<lparr>rt_rnode := s\<rparr>) \<and> rt_map (r\<lparr>rt_rnode := s\<rparr>) = (rt_map r)(index := None) \<and>
       (\<forall>t<2. rt_tag (r\<lparr>rt_rnode := s\<rparr>) t = rt_tag r t))"
proof -
  let ?h = "rt_height r" and ?s = "rt_rnode r" and ?i = "unat index"
  have R: "?h \<le> 5" "wf_slot ?h ?s" "u < 2 \<Longrightarrow> root_tag_get r u = slot_tag u ?s" for u
    using ok h by (auto simp: rt_ok_def)
  have i: "?i < 64 ^ ?h" "rl ?h ?s ?i \<noteq> None" using present by (auto simp: rt_map_def split: if_splits)
  have nt: "\<not> rtag ?h ?s t ?i" if "t < 2" for t using untagged [OF that] h i(1) by (simp add: rt_tag_def)
  obtain s where l: "delete_loop ?h index ?s = Some s" "del_spec ?h ?i ?s s"
    using delete_loop_ok [OF R(2) i(2) nt] by blast
  have S: "wf_slot ?h s" "rl ?h s j = (if same_low ?h j ?i then None else rl ?h ?s j)"
    "t < 2 \<Longrightarrow> slot_tag t s = slot_tag t ?s" "t < 2 \<Longrightarrow> rtag ?h s t j = rtag ?h ?s t j" for j t
    using l(2) by (auto simp: del_spec_def)
  define r' where "r' = r\<lparr>rt_rnode := s\<rparr>"
  have sel: "rt_height r' = ?h" "rt_rnode r' = s" "root_tag_get r' t = root_tag_get r t" for t
    by (auto simp: r'_def root_tag_get_def)
  have m: "rt_map r' = (rt_map r)(index := None)"
  proof
    fix j show "rt_map r' j = ((rt_map r)(index := None)) j"
      using S(2) [of "unat j"] same_low_eq [of "unat j" ?h ?i] i(1) by (auto simp: rt_map_def sel word_unat_eq_iff)
  qed
  have tg: "rt_tag r' t = rt_tag r t" if "t < 2" for t
    using S(4) [OF that] h by (auto simp: rt_tag_def sel fun_eq_iff)
  have e: "(rt_map r)(index := None) = Map.empty" if "s = Null"
    unfolding m [symmetric] by (rule ext) (simp add: rt_map_def sel that)
  have et: "\<not> rt_tag r t j" if "s = Null" "t < 2" for t j
    using h that tg [OF that(2)] by (metis rt_tag_def rtag_Null sel(1,2))
  have ok': "rt_ok r'" if "s \<noteq> Null" using that R S(1,3) h by (auto simp: rt_ok_def sel)
  show ?thesis
    by (rule exI [of _ s], fold r'_def) (use l(1) m tg e et ok' in simp)
qed

text \<open>Only an index with an item carries a tag.\<close>

lemma rtag_rl: "wf_slot h s \<Longrightarrow> t < 2 \<Longrightarrow> rtag h s t i \<Longrightarrow> rl h s i \<noteq> None"
proof (induction h arbitrary: s)
  case (Suc h)
  from Suc.prems(1) show ?case
  proof (cases rule: wf_SucE)
    case 1
    then show ?thesis using Suc.prems(3) by simp
  next
    case (2 n)
    have wf: "wf_slot h (rn_slots n ! digit h i)" using 2(7) [OF digit_less] .
    show ?thesis
    proof (cases "h = 0")
      case True
      then have "rn_slots n ! digit h i \<noteq> Null"
        using tags_ok_bit [OF 2(8) Suc.prems(2) digit_less] Suc.prems(3) 2(1) by simp
      then show ?thesis using wf True 2(1) by (auto split: slot.splits)
    next
      case False
      then show ?thesis using Suc.IH [OF wf Suc.prems(2)] Suc.prems(3) 2(1) by simp
    qed
  qed
qed simp

lemma rt_tag_present: "rt_ok r \<Longrightarrow> t < 2 \<Longrightarrow> rt_tag r t index \<Longrightarrow> rt_map r index \<noteq> None"
  using rtag_rl [of "rt_height r" "rt_rnode r" t "unat index"]
  by (cases "rt_height r = 0"; cases "rt_rnode r") (auto simp: rt_ok_def rt_tag_def rt_map_def)

text \<open>Clearing one tag of the index, if it is set.\<close>

lemma clear_if_ok:
  assumes ok: "rt_ok r" and t: "t < 2" and h: "rt_height r \<noteq> 0" and present: "rt_map r index \<noteq> None"
  shows "\<exists>b r' s. tag_get_loop (rt_height r) index t (rt_rnode r) = Some b \<and>
    (if b then radix_tree_tag_clear r index t else Some (r, Null)) = Some (r', s) \<and> rt_ok r' \<and>
    rt_height r' = rt_height r \<and> rt_map r' = rt_map r \<and> (\<forall>u<2. \<forall>j. rt_tag r' u j = (rt_tag r u j \<and> \<not> (u = t \<and> j = index)))"
proof -
  have wf: "wf_slot (rt_height r) (rt_rnode r)" using ok by (simp add: rt_ok_def)
  have i: "unat index < 64 ^ rt_height r" using present by (auto simp: rt_map_def split: if_splits)
  have get: "tag_get_loop (rt_height r) index t (rt_rnode r) = Some (rt_tag r t index)"
    using tag_get_loop_ok [OF wf h] h i by (simp add: rt_tag_def)
  show ?thesis
  proof (cases "rt_tag r t index")
    case True
    then show ?thesis using tag_clear_ok [OF ok t, of index] get by auto
  next
    case False
    then show ?thesis using get ok by auto
  qed
qed

lemma delete_ok:
  assumes ok: "rt_ok r"
  shows "\<exists>r'. radix_tree_delete r index = Some (r', slot_of (rt_map r index)) \<and> rt_ok r' \<and>
    rt_map r' = (rt_map r)(index := None) \<and> (\<forall>t<2. \<forall>j. rt_tag r' t j = (rt_tag r t j \<and> j \<noteq> index))"
proof -
  let ?h = "rt_height r" and ?s = "rt_rnode r" and ?i = "unat index"
  have R: "?h \<le> 5" "wf_slot ?h ?s" using ok by (auto simp: rt_ok_def)
  obtain mx where mx: "radix_tree_maxindex ?h = Some mx" "mx < index \<longleftrightarrow> 64 ^ ?h \<le> ?i"
    using maxindex_ok [OF R(1)] by blast
  have absent: "\<not> rt_tag r t index" if "rt_map r index = None" "t < 2" for t
    using rt_tag_present [OF ok that(2), of index] that(1) by auto
  consider (out) "mx < index" | (flat) "\<not> mx < index" "?h = 0" | (none) "\<not> mx < index" "?h \<noteq> 0" "rt_map r index = None"
    | (walk) "\<not> mx < index" "?h \<noteq> 0" "rt_map r index \<noteq> None" by blast
  then show ?thesis
  proof cases
    case out
    then have "rt_map r index = None" using mx by (simp add: rt_map_def)
    then show ?thesis using out mx ok absent by (auto simp: radix_tree_delete_def)
  next
    case flat
    then have i: "index = 0" using mx by (simp add: not_less_eq_eq unat_eq_zero)
    let ?r = "(root_tag_clear_all r)\<lparr>rt_rnode := Null\<rparr>"
    have "?s = slot_of (rt_map r index)" using R(2) flat i by (cases ?s) (auto simp: rt_map_def)
    moreover have "rt_ok ?r" using flat by (auto simp: rt_ok_def)
    moreover have "rt_map ?r = (rt_map r)(index := None)" using flat i by (auto simp: rt_map_def fun_eq_iff unat_eq_zero)
    ultimately show ?thesis using flat i mx by (auto simp: radix_tree_delete_def rt_tag_def)
  next
    case none
    then have "lookup_loop ?h index ?s = Some Null"
      using lookup_loop_ok [OF R(2), of index] mx by (simp add: rt_map_def)
    then show ?thesis using none mx ok absent by (auto simp: radix_tree_delete_def)
  next
    case walk
    obtain b0 r0 s0 where c0: "tag_get_loop ?h index 0 ?s = Some b0"
      "(if b0 then radix_tree_tag_clear r index 0 else Some (r, Null)) = Some (r0, s0)" "rt_ok r0" "rt_height r0 = ?h"
      "rt_map r0 = rt_map r" "\<And>u j. u < 2 \<Longrightarrow> rt_tag r0 u j = (rt_tag r u j \<and> \<not> (u = 0 \<and> j = index))"
      using clear_if_ok [OF ok _ walk(2,3), of 0] by auto
    obtain b1 r1 s1 where c1: "tag_get_loop ?h index 1 (rt_rnode r0) = Some b1"
      "(if b1 then radix_tree_tag_clear r0 index 1 else Some (r0, Null)) = Some (r1, s1)" "rt_ok r1" "rt_height r1 = ?h"
      "rt_map r1 = rt_map r" "\<And>u j. u < 2 \<Longrightarrow> rt_tag r1 u j = (rt_tag r0 u j \<and> \<not> (u = 1 \<and> j = index))"
      using clear_if_ok [OF c0(3), of 1 index] walk(2,3) c0(4,5) by auto
    have tags: "rt_tag r1 u j = (rt_tag r u j \<and> j \<noteq> index)" if "u < 2" for u j
      using c0(6) [OF that] c1(6) [OF that] that by (auto simp: less_2_cases_iff)
    have look: "lookup_loop ?h index ?s = Some (slot_of (rt_map r index))"
      using lookup_loop_ok [OF R(2), of index] mx walk(1) by (simp add: rt_map_def)
    have h1: "rt_height r1 \<noteq> 0" and m1: "rt_map r1 index \<noteq> None" using walk c1(4,5) by simp_all
    obtain s where s: "delete_loop ?h index (rt_rnode r1) = Some s"
      "s = Null \<Longrightarrow> (rt_map r)(index := None) = Map.empty" "\<And>t j. s = Null \<Longrightarrow> t < 2 \<Longrightarrow> \<not> rt_tag r1 t j"
      "s \<noteq> Null \<Longrightarrow> rt_ok (r1\<lparr>rt_rnode := s\<rparr>)" "s \<noteq> Null \<Longrightarrow> rt_map (r1\<lparr>rt_rnode := s\<rparr>) = (rt_map r)(index := None)"
      "\<And>t. s \<noteq> Null \<Longrightarrow> t < 2 \<Longrightarrow> rt_tag (r1\<lparr>rt_rnode := s\<rparr>) t = rt_tag r1 t"
      using delete_walk_ok [OF c1(3) h1 m1] tags unfolding c1(4,5) by auto
    have pre: "radix_tree_delete r index =
      (if s = Null then Some ((root_tag_clear_all r1)\<lparr>rt_height := 0, rt_rnode := Null\<rparr>, slot_of (rt_map r index))
       else do {
         r3 \<leftarrow> (if top_slot (r1\<lparr>rt_rnode := s\<rparr>) index = Null then radix_tree_shrink (r1\<lparr>rt_rnode := s\<rparr>)
                 else Some (r1\<lparr>rt_rnode := s\<rparr>));
         Some (r3, slot_of (rt_map r index))
       })"
      using walk mx(1) look c0(1,2) c1(1,2,4) s(1) by (simp add: radix_tree_delete_def del: slot_of_simps(1,2) not_None_eq)
    show ?thesis
    proof (cases "s = Null")
      case True
      let ?r = "(root_tag_clear_all r1)\<lparr>rt_height := 0, rt_rnode := Null\<rparr>"
      have "rt_ok ?r" by (auto simp: rt_ok_def)
      moreover have "rt_map ?r = (rt_map r)(index := None)" unfolding s(2) [OF True] by (auto simp: rt_map_def fun_eq_iff)
      moreover have "rt_tag ?r t j = (rt_tag r t j \<and> j \<noteq> index)" if "t < 2" for t j
        using s(3) [OF True that, of j] tags [OF that, of j] by (simp add: rt_tag_def)
      ultimately show ?thesis using pre True by simp
    next
      case False
      have "rt_height (r1\<lparr>rt_rnode := s\<rparr>) \<noteq> 0" using h1 by simp
      from shrink_ok [OF s(4) [OF False] this] obtain r3 where r3: "radix_tree_shrink (r1\<lparr>rt_rnode := s\<rparr>) = Some r3" "rt_ok r3"
        "rt_map r3 = (rt_map r)(index := None)" "\<And>t. t < 2 \<Longrightarrow> rt_tag r3 t = rt_tag r1 t"
        using s(5,6) [OF False] by auto
      show ?thesis
        using pre False r3 tags s(4-6) [OF False] by (cases "top_slot (r1\<lparr>rt_rnode := s\<rparr>) index = Null") simp_all
    qed
  qed
qed

section \<open>The contract of a map\<close>

definition item_of :: "'a slot \<Rightarrow> 'a option" where
  "item_of s = (case s of Item x \<Rightarrow> Some x | _ \<Rightarrow> None)"

lemma item_of_slot_of [simp]: "item_of (slot_of x) = x"
  by (simp add: item_of_def slot_of_def split: option.splits)

text \<open>The operations of the tree as steps of a map.\<close>

fun radix_step :: "'a radix_tree_root \<Rightarrow> (u64, 'a) kv_op \<Rightarrow> ('a radix_tree_root \<times> 'a kv_out) option" where
  "radix_step r (Lookup i) = do { s \<leftarrow> radix_tree_lookup_node r i; Some (r, Found (item_of s)) }"
| "radix_step r (Insert i x) = do { (r', e) \<leftarrow> radix_tree_insert r i x; Some (r', Inserted (e = 0)) }"
| "radix_step r (Delete i) = do { (r', s) \<leftarrow> radix_tree_delete r i; Some (r', Deleted (item_of s)) }"

interpretation radix: kv_map rt_ok rt_map rt_key radix_step
proof
  fix r :: "'a radix_tree_root" and x :: "(u64, 'a) kv_op"
  assume ok: "rt_ok r" and key: "rt_key (kv_key x)"
  show "\<exists>r' y. radix_step r x = Some (r', y) \<and> rt_ok r' \<and> (rt_map r', y) = map_step (rt_map r) x"
  proof (cases x)
    case (Lookup i)
    then show ?thesis using lookup_ok [OF ok, of i] ok by simp
  next
    case (Insert i v)
    then have "rt_key i" using key by simp
    from insert_ok [OF ok this, of v] Insert show ?thesis by auto
  next
    case (Delete i)
    then show ?thesis using delete_ok [OF ok, of i] by auto
  qed
qed

lemma init_ok: "rt_ok (INIT_RADIX_TREE (m AND mask 22))" "rt_map (INIT_RADIX_TREE m) = Map.empty"
    "\<not> rt_tag (INIT_RADIX_TREE m) t j"
  by (auto simp: rt_ok_def rt_map_def rt_tag_def INIT_RADIX_TREE_def root_tag_get_bit bit_simps fun_eq_iff)

end
