(* ===== verification/RadixTree_Props.thy ===== *)
theory RadixTree_Props
  imports RadixTree_Correct
begin

text \<open>
  The properties of the radix tree (\<^verbatim>\<open>src/lib/radix-tree.c\<close>): its operations are those of a
  finite map, its tags are a set of indices each, and its range is \<open>2 ^ 30\<close> indices.
\<close>

lemma extend_height_out:
  assumes "h \<le> 6" "64 ^ 5 \<le> unat index"
  shows "extend_height index h = None"
  using assms
proof (induction index h rule: extend_height.induct)
  case (1 index h)
  show ?case
  proof (cases "h = 6")
    case True
    then show ?thesis by (subst extend_height.simps) (simp add: radix_tree_maxindex_def RADIX_TREE_MAP_SHIFT_def)
  next
    case False
    then have h: "h \<le> 5" using "1.prems"(1) by simp
    obtain mx where mx: "radix_tree_maxindex h = Some mx" "mx < index \<longleftrightarrow> 64 ^ h \<le> unat index"
      using maxindex_ok [OF h] by blast
    have "(64::nat) ^ h \<le> 64 ^ 5" using h by (intro power_increasing) auto
    then have "mx < index" using mx(2) "1.prems"(2) by linarith
    then show ?thesis using "1.IH" [OF mx(1)] mx(1) "1.prems"(2) h by (subst extend_height.simps) simp
  qed
qed

text \<open>C2.  Every sequence of lookups, insertions and deletions on a new radix tree, with indices
  below \<open>2 ^ 30\<close>, runs without a panic and gives the answers of a finite map: an insertion fails
  exactly on an index that is taken, a deletion returns what was stored.  The tree stays
  well-formed and denotes the map.\<close>

theorem radix_tree_refines_map:
  assumes "\<forall>x\<in>set xs. rt_key (kv_key x)"
  shows "\<exists>r ys. kv_run radix_step (INIT_RADIX_TREE (m AND mask 22)) xs = Some (r, ys) \<and> rt_ok r \<and>
    (rt_map r, ys) = map_run Map.empty xs"
  using radix.run_refines [OF init_ok(1), of xs m] assms by (simp add: init_ok(2))

theorem radix_tree_refines_map_witness:
  "\<exists>r ys. kv_run radix_step (INIT_RADIX_TREE (0 AND mask 22))
     [Insert 70 ''a'', Insert 5000 ''b'', Insert 70 ''c'', Delete 5000, Lookup 70, Lookup 5000] = Some (r, ys) \<and> rt_ok r \<and>
   ys = [Inserted True, Inserted True, Inserted False, Deleted (Some ''b''), Found (Some ''a''), Found None]"
  using radix_tree_refines_map [of "[Insert 70 ''a'', Insert 5000 ''b'', Insert 70 ''c'', Delete 5000, Lookup 70, Lookup 5000]" 0]
  by (auto simp: rt_key_def)

text \<open>C20.  Tags.  Setting a tag on an index that has an item adds the index to the set of that tag;
  clearing it removes it and returns the item; reading answers membership.  The stored items and
  the other tag do not change.\<close>

theorem radix_tree_tags_correct:
  assumes "rt_ok r" "t < 2" "rt_map r index = Some x"
  shows "radix_tree_tag_get r j t = Some (rt_tag r t j) \<and>
    (\<exists>r'. radix_tree_tag_set r index t = Some r' \<and> rt_ok r' \<and> rt_map r' = rt_map r \<and>
       (\<forall>u<2. \<forall>k. rt_tag r' u k = (rt_tag r u k \<or> u = t \<and> k = index))) \<and>
    (\<exists>r'. radix_tree_tag_clear r index t = Some (r', Item x) \<and> rt_ok r' \<and> rt_map r' = rt_map r \<and>
       (\<forall>u<2. \<forall>k. rt_tag r' u k = (rt_tag r u k \<and> \<not> (u = t \<and> k = index))))"
proof (intro conjI)
  show "radix_tree_tag_get r j t = Some (rt_tag r t j)" by (rule tag_get_ok [OF assms(1,2)])
  show "\<exists>r'. radix_tree_tag_set r index t = Some r' \<and> rt_ok r' \<and> rt_map r' = rt_map r \<and>
       (\<forall>u<2. \<forall>k. rt_tag r' u k = (rt_tag r u k \<or> u = t \<and> k = index))"
    using tag_set_ok [OF assms(1,2), of index] assms(3) by auto
  show "\<exists>r'. radix_tree_tag_clear r index t = Some (r', Item x) \<and> rt_ok r' \<and> rt_map r' = rt_map r \<and>
       (\<forall>u<2. \<forall>k. rt_tag r' u k = (rt_tag r u k \<and> \<not> (u = t \<and> k = index)))"
    using tag_clear_ok [OF assms(1,2), of index] assms(3) by auto
qed

text \<open>A tree with the single item \<open>x\<close> at index 0.\<close>

definition one_item :: "'a \<Rightarrow> 'a radix_tree_root" where
  "one_item x = \<lparr>rt_height = 0, rt_rnode = Item x, gfp_mask = 0\<rparr>"

lemma one_item_ok: "rt_ok (one_item x)" "rt_map (one_item x) 0 = Some x" "\<not> rt_tag (one_item x) t j"
  by (auto simp: one_item_def rt_ok_def rt_map_def rt_tag_def root_tag_get_def)

theorem radix_tree_tags_correct_witness:
  "\<exists>r'. radix_tree_tag_set (one_item (3::nat)) 0 1 = Some r' \<and> rt_ok r' \<and> rt_tag r' 1 0"
  using radix_tree_tags_correct [of "one_item (3::nat)" 1 0 3 0] by (auto simp: one_item_ok)

text \<open>C19.  Deletion removes the item of the index with its tags, returns the item, or NULL when there
  is none, and leaves every other index with its item and tags, although it also frees the
  nodes that become empty and lowers the tree.\<close>

theorem radix_tree_delete_correct:
  assumes "rt_ok r"
  shows "\<exists>r'. radix_tree_delete r index = Some (r', slot_of (rt_map r index)) \<and> rt_ok r' \<and>
    rt_map r' = (rt_map r)(index := None) \<and> (\<forall>t<2. \<forall>j. rt_tag r' t j = (rt_tag r t j \<and> j \<noteq> index))"
  by (rule delete_ok [OF assms])

theorem radix_tree_delete_correct_witness:
  "\<exists>r'. radix_tree_delete (one_item (3::nat)) 0 = Some (r', Item 3) \<and> rt_ok r' \<and> rt_map r' 0 = None"
  using radix_tree_delete_correct [OF one_item_ok(1), of "3::nat" 0] by (auto simp: one_item_ok)

text \<open>C26.  The range.  An index of \<open>2 ^ 30\<close> or more cannot be inserted: before the tree is high enough,
  \<open>radix_tree_maxindex\<close> shifts the \<open>int\<close> constant 1 by 36, which is undefined.\<close>

theorem radix_tree_insert_range:
  assumes "rt_ok r" "2 ^ 30 \<le> unat index"
  shows "radix_tree_insert r index x = None"
proof -
  have h: "rt_height r \<le> 5" using assms(1) by (simp add: rt_ok_def)
  obtain mx where mx: "radix_tree_maxindex (rt_height r) = Some mx" "mx < index \<longleftrightarrow> 64 ^ rt_height r \<le> unat index"
    using maxindex_ok [OF h] by blast
  have "(64::nat) ^ rt_height r \<le> 64 ^ 5" using h by (intro power_increasing) auto
  then have "mx < index" using mx(2) assms(2) by simp
  moreover have "extend_height index (rt_height r + 1) = None" using extend_height_out h assms(2) by simp
  ultimately show ?thesis using mx(1) by (simp add: radix_tree_insert_def radix_tree_extend_def)
qed

theorem radix_tree_insert_range_witness: "radix_tree_insert (one_item (3::nat)) 0x40000000 4 = None"
  using radix_tree_insert_range [OF one_item_ok(1), of "0x40000000" 3 4] by simp

end
