(* ===== verification/Sprintf.thy ===== *)
theory Sprintf
  imports Prelude
begin

text \<open>
  Formatted output (\<^verbatim>\<open>src/lib/sprintf.c\<close>).  The format and the string arguments are lists of
  characters without their terminator, the variable arguments a list of typed values; taking an
  argument of the wrong type, or one that is not there, is undefined and gives \<open>None\<close>.  What the
  functions store through \<^verbatim>\<open>buf\<close> is the list of the characters written, in order.
\<close>

section \<open>Numbers\<close>

definition is_digit :: "char \<Rightarrow> bool" where
  "is_digit c \<longleftrightarrow> (48::nat) \<le> of_char c \<and> (of_char c :: nat) \<le> 57"

text \<open>The accumulator of \<^verbatim>\<open>skip_atoi\<close> is an \<^verbatim>\<open>int\<close>: its overflow is undefined.\<close>

fun skip_atoi_loop :: "int \<Rightarrow> string \<Rightarrow> (int \<times> string) option" where
  "skip_atoi_loop i [] = Some (i, [])"
| "skip_atoi_loop i (c # cs) =
     (if is_digit c then do {
        let j = i * 10 + of_char c - 48;
        ASSERT (j < 2 ^ 31);
        skip_atoi_loop j cs
      }
      else Some (i, c # cs))"

definition skip_atoi :: "string \<Rightarrow> (int \<times> string) option" where
  "skip_atoi s = skip_atoi_loop 0 s"

definition ZEROPAD :: u32 where "ZEROPAD = 1"
definition SIGN :: u32 where "SIGN = 2"
definition PLUS :: u32 where "PLUS = 4"
definition SPACE :: u32 where "SPACE = 8"
definition LEFT :: u32 where "LEFT = 16"
definition SPECIAL :: u32 where "SPECIAL = 32"
definition LARGE :: u32 where "LARGE = 64"

definition has :: "u32 \<Rightarrow> u32 \<Rightarrow> bool" where
  "has flags f \<longleftrightarrow> flags AND f \<noteq> 0"

definition lower_digits :: string where
  "lower_digits = ''0123456789abcdefghijklmnopqrstuvwxyz''"

definition upper_digits :: string where
  "upper_digits = ''0123456789ABCDEFGHIJKLMNOPQRSTUVWXYZ''"

text \<open>\<^verbatim>\<open>do_div\<close> divides the number as an \<^verbatim>\<open>unsigned long\<close>.  The digits go to \<^verbatim>\<open>tmp\<close>, least
  significant first; \<open>room\<close> is what is left of its 66 entries.\<close>

primrec tmp_loop :: "nat \<Rightarrow> u64 \<Rightarrow> u64 \<Rightarrow> string \<Rightarrow> string option" where
  "tmp_loop 0 num base digits = (if num = 0 then Some [] else None)"
| "tmp_loop (Suc room) num base digits =
     (if num = 0 then Some []
      else do {
        rest \<leftarrow> tmp_loop room (num div base) base digits;
        Some (digits ! unat (num mod base) # rest)
      })"

text \<open>A loop \<^verbatim>\<open>while (size-- > 0) *str++ = c;\<close>: what it writes and the value it leaves in \<^verbatim>\<open>size\<close>.\<close>

definition pad_loop :: "int \<Rightarrow> char \<Rightarrow> string \<times> int" where
  "pad_loop sz c = (replicate (nat sz) c, min sz 0 - 1)"

text \<open>The sign character, the magnitude and the width that is left.\<close>

definition number_sign :: "u64 \<Rightarrow> int \<Rightarrow> u32 \<Rightarrow> string \<times> u64 \<times> int" where
  "number_sign num sz type =
     (if has type SIGN then
        if sint num < 0 then (''-'', - num, sz - 1)
        else if has type PLUS then (''+'', num, sz - 1)
        else if has type SPACE then ('' '', num, sz - 1)
        else ([], num, sz)
      else ([], num, sz))"

definition number :: "u64 \<Rightarrow> int \<Rightarrow> int \<Rightarrow> int \<Rightarrow> u32 \<Rightarrow> string option" where
  "number num base sz precision type =
     (let digits = (if has type LARGE then upper_digits else lower_digits);
          type1 = (if has type LEFT then type AND NOT ZEROPAD else type)
      in if base < 2 \<or> 36 < base then None
      else do {
        let c = (if has type1 ZEROPAD then CHR ''0'' else CHR '' '');
        let (sign, num1, size1) = number_sign num sz type1;
        let size2 = (if has type1 SPECIAL then if base = 16 then size1 - 2 else if base = 8 then size1 - 1 else size1
                     else size1);
        tmp \<leftarrow> (if num1 = 0 then Some ''0'' else tmp_loop 66 num1 (of_int base) digits);
        let prec = (if int (length tmp) > precision then int (length tmp) else precision);
        let size3 = size2 - prec;
        let (pad1, size4) = (if has type1 (ZEROPAD + LEFT) then ([], size3) else pad_loop size3 (CHR '' ''));
        let prefix = (if has type1 SPECIAL then
                        if base = 8 then ''0'' else if base = 16 then [CHR ''0'', digits ! 33] else []
                      else []);
        let (pad2, size5) = (if has type1 LEFT then ([], size4) else pad_loop size4 c);
        let zeros = replicate (nat (prec - int (length tmp))) (CHR ''0'');
        let (pad3, size6) = pad_loop size5 (CHR '' '');
        Some (pad1 @ sign @ prefix @ pad2 @ zeros @ rev tmp @ pad3)
      })"

section \<open>Conversion specifications\<close>

datatype varg = AInt u32 | ALong u64 | AStr "string option" | APtr u64 | ARef nat

text \<open>The flags after the percent sign.\<close>

fun parse_flags :: "u32 \<Rightarrow> string \<Rightarrow> u32 \<times> string" where
  "parse_flags flags [] = (flags, [])"
| "parse_flags flags (c # cs) =
     (if c = CHR ''-'' then parse_flags (flags OR LEFT) cs
      else if c = CHR ''+'' then parse_flags (flags OR PLUS) cs
      else if c = CHR '' '' then parse_flags (flags OR SPACE) cs
      else if c = CHR ''#'' then parse_flags (flags OR SPECIAL) cs
      else if c = CHR ''0'' then parse_flags (flags OR ZEROPAD) cs
      else (flags, c # cs))"

fun take_int :: "varg list \<Rightarrow> (u32 \<times> varg list) option" where
  "take_int (AInt v # args) = Some (v, args)"
| "take_int _ = None"

definition next_is :: "(char \<Rightarrow> bool) \<Rightarrow> string \<Rightarrow> bool" where
  "next_is P fmt = (case fmt of [] \<Rightarrow> False | c # _ \<Rightarrow> P c)"

definition parse_width :: "u32 \<Rightarrow> string \<Rightarrow> varg list \<Rightarrow> (int \<times> u32 \<times> string \<times> varg list) option" where
  "parse_width flags fmt args =
     (if next_is is_digit fmt then do {
        (w, fmt1) \<leftarrow> skip_atoi fmt;
        Some (w, flags, fmt1, args)
      }
      else if next_is (\<lambda>c. c = CHR ''*'') fmt then do {
        (v, args1) \<leftarrow> take_int args;
        ASSERT (sint v \<noteq> - (2 ^ 31));
        Some (if sint v < 0 then (- sint v, flags OR LEFT, tl fmt, args1) else (sint v, flags, tl fmt, args1))
      }
      else Some (- 1, flags, fmt, args))"

definition parse_precision :: "string \<Rightarrow> varg list \<Rightarrow> (int \<times> string \<times> varg list) option" where
  "parse_precision fmt args =
     (if next_is (\<lambda>c. c = CHR ''.'') fmt then do {
        let fmt1 = tl fmt;
        (p, fmt2, args1) \<leftarrow>
          (if next_is is_digit fmt1 then do { (p, fmt2) \<leftarrow> skip_atoi fmt1; Some (p, fmt2, args) }
           else if next_is (\<lambda>c. c = CHR ''*'') fmt1 then do { (v, args1) \<leftarrow> take_int args; Some (sint v, tl fmt1, args1) }
           else Some (- 1, fmt1, args));
        Some (if p < 0 then 0 else p, fmt2, args1)
      }
      else Some (- 1, fmt, args))"

definition parse_qualifier :: "string \<Rightarrow> char option \<times> string" where
  "parse_qualifier fmt =
     (if next_is (\<lambda>c. c = CHR ''l'' \<or> c = CHR ''L'') fmt then (Some (hd fmt), tl fmt) else (None, fmt))"

section \<open>One conversion\<close>

text \<open>What a conversion produces.  \<open>Chars\<close> is written character by character, \<open>Number\<close> and
  \<open>Pointer\<close> are written by \<^verbatim>\<open>number\<close>, \<open>Stored\<close> is the store of \<^verbatim>\<open>%n\<close>, and \<open>Bad\<close> is the default
  branch of the switch, with the character found there.\<close>

datatype emit = Chars string | Number string | Pointer string int | Stored nat bool nat | Bad "char option"

text \<open>The integer formats, after the switch.\<close>

definition conv_number :: "int \<Rightarrow> int \<Rightarrow> int \<Rightarrow> u32 \<Rightarrow> char option \<Rightarrow> varg list \<Rightarrow> (emit \<times> varg list) option" where
  "conv_number base width precision flags qualifier args =
     (case args of
        [] \<Rightarrow> None
      | a # args1 \<Rightarrow> do {
          num \<leftarrow> (if qualifier = Some (CHR ''l'') then (case a of ALong v \<Rightarrow> Some v | _ \<Rightarrow> None)
                  else if has flags SIGN then (case a of AInt v \<Rightarrow> Some (scast v) | _ \<Rightarrow> None)
                  else (case a of AInt v \<Rightarrow> Some (ucast v) | _ \<Rightarrow> None));
          s \<leftarrow> number num base width precision flags;
          Some (Number s, args1)
        })"

definition conv_string :: "int \<Rightarrow> int \<Rightarrow> u32 \<Rightarrow> string option \<Rightarrow> string" where
  "conv_string width precision flags so =
     (let s = (case so of None \<Rightarrow> ''<NULL>'' | Some s \<Rightarrow> s);
          len = (if precision < 0 then length s else min (nat precision) (length s));
          pad = replicate (nat (width - int len)) (CHR '' '')
      in if has flags LEFT then take len s @ pad else pad @ take len s)"

definition conv_char :: "int \<Rightarrow> u32 \<Rightarrow> u32 \<Rightarrow> string" where
  "conv_char width flags v =
     (let c = char_of (unat v mod 256);
          pad = replicate (nat (width - 1)) (CHR '' '')
      in if has flags LEFT then c # pad else pad @ [c])"

definition convert :: "nat \<Rightarrow> char option \<Rightarrow> int \<Rightarrow> int \<Rightarrow> u32 \<Rightarrow> char option \<Rightarrow> varg list \<Rightarrow> (emit \<times> varg list) option" where
  "convert pos c width precision flags qualifier args =
     (if c = Some (CHR ''c'') then do {
        (v, args1) \<leftarrow> take_int args;
        Some (Chars (conv_char width flags v), args1)
      }
      else if c = Some (CHR ''s'') then
        (case args of AStr s # args1 \<Rightarrow> Some (Chars (conv_string width precision flags s), args1) | _ \<Rightarrow> None)
      else if c = Some (CHR ''p'') then
        (case args of
           APtr v # args1 \<Rightarrow> do {
             let (width1, flags1) = (if width = - 1 then (16, flags OR ZEROPAD) else (width, flags));
             s \<leftarrow> number v 16 width1 precision flags1;
             Some (Pointer s width1, args1)
           }
         | _ \<Rightarrow> None)
      else if c = Some (CHR ''n'') then
        (case args of ARef r # args1 \<Rightarrow> Some (Stored r (qualifier = Some (CHR ''l'')) pos, args1) | _ \<Rightarrow> None)
      else if c = Some (CHR ''o'') then conv_number 8 width precision flags qualifier args
      else if c = Some (CHR ''X'') then conv_number 16 width precision (flags OR LARGE) qualifier args
      else if c = Some (CHR ''x'') then conv_number 16 width precision flags qualifier args
      else if c = Some (CHR ''d'') \<or> c = Some (CHR ''i'') then conv_number 10 width precision (flags OR SIGN) qualifier args
      else if c = Some (CHR ''u'') then conv_number 10 width precision flags qualifier args
      else Some (Bad c, args))"

text \<open>From the character after the percent sign to the one after the conversion.\<close>

definition conversion :: "nat \<Rightarrow> string \<Rightarrow> varg list \<Rightarrow> (emit \<times> string \<times> varg list) option" where
  "conversion pos fmt args = do {
     let (flags, fmt1) = parse_flags 0 fmt;
     (width, flags1, fmt2, args1) \<leftarrow> parse_width flags fmt1 args;
     (precision, fmt3, args2) \<leftarrow> parse_precision fmt2 args1;
     let (qualifier, fmt4) = parse_qualifier fmt3;
     (e, args3) \<leftarrow> convert pos (case fmt4 of [] \<Rightarrow> None | c # _ \<Rightarrow> Some c) width precision flags1 qualifier args2;
     Some (e, tl fmt4, args3)
   }"

lemma parse_flags_length: "length (snd (parse_flags fl fmt)) \<le> length fmt"
  by (induction fl fmt rule: parse_flags.induct) auto

lemma skip_atoi_loop_length: "skip_atoi_loop i fmt = Some (j, fmt') \<Longrightarrow> length fmt' \<le> length fmt"
  by (induction i fmt rule: skip_atoi_loop.induct) (auto simp: Let_def split: if_splits)

lemma parse_width_length: "parse_width fl fmt args = Some (w, fl', fmt', args') \<Longrightarrow> length fmt' \<le> length fmt"
  by (auto simp: parse_width_def skip_atoi_def bind_eq_Some_conv split: if_splits dest!: skip_atoi_loop_length)

lemma parse_precision_length: "parse_precision fmt args = Some (p, fmt', args') \<Longrightarrow> length fmt' \<le> length fmt"
  by (auto simp: parse_precision_def skip_atoi_def bind_eq_Some_conv Let_def split: if_splits dest!: skip_atoi_loop_length)

lemma parse_qualifier_length: "length (tl (snd (parse_qualifier fmt))) \<le> length fmt"
  by (auto simp: parse_qualifier_def)

lemma conversion_length:
  assumes "conversion pos fmt args = Some (e, fmt', args')"
  shows "length fmt' \<le> length fmt"
proof -
  obtain w fl2 fmt2 args1 p fmt3 args2 where
    s: "parse_width (fst (parse_flags 0 fmt)) (snd (parse_flags 0 fmt)) args = Some (w, fl2, fmt2, args1)"
    "parse_precision fmt2 args1 = Some (p, fmt3, args2)" "fmt' = tl (snd (parse_qualifier fmt3))"
    using assms by (auto simp: conversion_def split_beta bind_eq_Some_conv)
  show ?thesis
    using parse_width_length [OF s(1)] parse_precision_length [OF s(2)] parse_qualifier_length [of fmt3]
      parse_flags_length [of 0 fmt] s(3) by simp
qed

section \<open>The loops over the format\<close>

type_synonym stores = "(nat \<times> bool \<times> nat) list"

text \<open>What \<^verbatim>\<open>vsprintf\<close> writes for a conversion.\<close>

fun text_of :: "emit \<Rightarrow> string" where
  "text_of (Chars s) = s"
| "text_of (Number s) = s"
| "text_of (Pointer s w) = s"
| "text_of (Stored r l n) = []"
| "text_of (Bad None) = ''%''"
| "text_of (Bad (Some c)) = (if c \<noteq> CHR ''%'' then [CHR ''%'', c] else ''%'')"

fun stores_of :: "emit \<Rightarrow> stores" where
  "stores_of (Stored r l n) = [(r, l, n)]"
| "stores_of _ = []"

function vsprintf_loop :: "string \<Rightarrow> stores \<Rightarrow> string \<Rightarrow> varg list \<Rightarrow> (string \<times> stores) option" where
  "vsprintf_loop out st fmt args =
     (case fmt of
        [] \<Rightarrow> Some (out, st)
      | c # cs \<Rightarrow>
          if c \<noteq> CHR ''%'' then vsprintf_loop (out @ [c]) st cs args
          else do {
            (e, fmt1, args1) \<leftarrow> conversion (length out) cs args;
            vsprintf_loop (out @ text_of e) (st @ stores_of e) fmt1 args1
          })"
  by pat_completeness auto
termination
  by (relation "measure (\<lambda>(out, st, fmt, args). length fmt)") (auto dest!: conversion_length)

declare vsprintf_loop.simps [simp del]

text \<open>The bytes stored from \<^verbatim>\<open>buf\<close> on, the stores of \<^verbatim>\<open>%n\<close> and the result.\<close>

definition vsprintf :: "string \<Rightarrow> varg list \<Rightarrow> (string \<times> stores \<times> int) option" where
  "vsprintf fmt args = do {
     (out, st) \<leftarrow> vsprintf_loop [] [] fmt args;
     Some (out @ [CHR 0x00], st, int (length out))
   }"

definition sprintf :: "string \<Rightarrow> varg list \<Rightarrow> (string \<times> stores \<times> int) option" where
  "sprintf fmt args = vsprintf fmt args"

text \<open>\<^verbatim>\<open>vsnprintf_writechar\<close> on a run of characters: it stops, and leaves the whole function, once
  the count reaches \<^verbatim>\<open>size - 1\<close>.  The flag says that the function is finished.\<close>

fun writechars :: "int \<Rightarrow> int \<Rightarrow> string \<Rightarrow> string \<Rightarrow> string \<times> int \<times> bool" where
  "writechars sz cnt out [] = (out, cnt, False)"
| "writechars sz cnt out (c # cs) =
     (if cnt + 1 \<ge> sz - 1 then (out @ [c], cnt + 1, True) else writechars sz (cnt + 1) (out @ [c]) cs)"

text \<open>What \<^verbatim>\<open>vsnprintf\<close> writes for a conversion.  The text of \<^verbatim>\<open>number\<close> is not counted, except that
  \<^verbatim>\<open>%p\<close> takes the width off the count or ends the function.\<close>

fun emit_bounded :: "int \<Rightarrow> int \<Rightarrow> string \<Rightarrow> emit \<Rightarrow> string \<times> int \<times> bool" where
  "emit_bounded sz cnt out (Chars s) = writechars sz cnt out s"
| "emit_bounded sz cnt out (Number s) = (out @ s, cnt, False)"
| "emit_bounded sz cnt out (Pointer s w) =
     (let cnt1 = (if w \<ge> sz - 1 - cnt then 0 else cnt - w) in (out @ s, cnt1, cnt1 = 0))"
| "emit_bounded sz cnt out (Stored r l n) = (out, cnt, False)"
| "emit_bounded sz cnt out (Bad None) = writechars sz cnt out '' ''"
| "emit_bounded sz cnt out (Bad (Some c)) =
     writechars sz cnt out (if c \<noteq> CHR ''%'' then [CHR '' '', c] else ''%'')"

function vsnprintf_loop :: "int \<Rightarrow> int \<Rightarrow> string \<Rightarrow> stores \<Rightarrow> string \<Rightarrow> varg list \<Rightarrow> (string \<times> stores) option" where
  "vsnprintf_loop sz cnt out st fmt args =
     (case fmt of
        [] \<Rightarrow> Some (out, st)
      | c # cs \<Rightarrow>
          if c \<noteq> CHR ''%'' then
            let (out1, cnt1, fin) = writechars sz cnt out [c] in
            if fin then Some (out1, st) else vsnprintf_loop sz cnt1 out1 st cs args
          else do {
            (e, fmt1, args1) \<leftarrow> conversion (length out) cs args;
            let (out1, cnt1, fin) = emit_bounded sz cnt out e;
            if fin then Some (out1, st @ stores_of e) else vsnprintf_loop sz cnt1 out1 (st @ stores_of e) fmt1 args1
          })"
  by pat_completeness auto
termination
  by (relation "measure (\<lambda>(sz, cnt, out, st, fmt, args). length fmt)") (auto dest!: conversion_length)

declare vsnprintf_loop.simps [simp del]

definition vsnprintf :: "int \<Rightarrow> string \<Rightarrow> varg list \<Rightarrow> (string \<times> stores \<times> int) option" where
  "vsnprintf sz fmt args =
     (if sz = 0 then Some ([], [], 0)
      else do {
        (out, st) \<leftarrow> vsnprintf_loop sz 0 [] [] fmt args;
        Some (out @ [CHR 0x00], st, if sz > int (length out) then int (length out) else sz)
      })"

definition snprintf :: "int \<Rightarrow> string \<Rightarrow> varg list \<Rightarrow> (string \<times> stores \<times> int) option" where
  "snprintf sz fmt args = vsnprintf sz fmt args"

end
