(* ===== verification/Sprintf_Props.thy ===== *)
theory Sprintf_Props
  imports Sprintf
begin

text \<open>
  Formatted output is right: the digits that \<^verbatim>\<open>number\<close> writes denote the number, padding reaches the
  requested width, \<^verbatim>\<open>%d\<close> can be read back, and the bounded variant agrees with the unbounded one on
  text and overruns its buffer on numbers.
\<close>

section \<open>Numerals\<close>

definition digit_val :: "char \<Rightarrow> nat" where
  "digit_val c = (let n = of_char c in if n \<le> 57 then n - 48 else if n \<le> 90 then n - 55 else n - 87)"

definition numeral_value :: "nat \<Rightarrow> string \<Rightarrow> nat" where
  "numeral_value b s = foldl (\<lambda>v c. v * b + digit_val c) 0 s"

definition digits_of :: "u32 \<Rightarrow> string" where
  "digits_of t = (if has t LARGE then upper_digits else lower_digits)"

lemma digit_vals: "map digit_val lower_digits = [0..<36]" "map digit_val upper_digits = [0..<36]"
  by (simp_all add: lower_digits_def upper_digits_def digit_val_def Let_def upt_rec)

lemma digits_of_val: "d < 36 \<Longrightarrow> digit_val (digits_of t ! d) = d"
proof -
  assume d: "d < 36"
  have "length (digits_of t) = 36" "map digit_val (digits_of t) = [0..<36]"
    by (simp_all add: digits_of_def digit_vals) (simp_all add: lower_digits_def upper_digits_def)
  then show ?thesis using d by (metis add_0 nth_map nth_upt)
qed

lemma digit_val_0: "d < 36 \<Longrightarrow> digits_of t ! d = CHR ''0'' \<Longrightarrow> d = 0"
  using digits_of_val [of d t] by (simp add: digit_val_def)

lemma numeral_value_snoc: "numeral_value b (s @ [c]) = numeral_value b s * b + digit_val c"
  by (simp add: numeral_value_def)

text \<open>The digits of a number fit in \<^verbatim>\<open>tmp\<close>, denote it and have no leading zero.\<close>

lemma tmp_loop_ok:
  assumes "2 \<le> unat base" "unat base \<le> 36" "unat num < unat base ^ room"
  shows "\<exists>s. tmp_loop room num base (digits_of t) = Some s \<and> numeral_value (unat base) (rev s) = unat num \<and>
    set s \<subseteq> set (digits_of t) \<and> (num \<noteq> 0 \<longrightarrow> s \<noteq> [] \<and> last s \<noteq> CHR ''0'')"
  using assms(3)
proof (induction room arbitrary: num)
  case 0
  then show ?case by (simp add: numeral_value_def unat_eq_zero)
next
  case (Suc room)
  show ?case
  proof (cases "num = 0")
    case False
    have d: "unat (num div base) = unat num div unat base" "unat (num mod base) = unat num mod unat base"
      by (simp_all add: unat_div unat_mod)
    have "unat (num div base) < unat base ^ room"
      using Suc.prems assms(1) by (simp add: d less_mult_imp_div_less mult.commute)
    from Suc.IH [OF this] obtain s where s: "tmp_loop room (num div base) base (digits_of t) = Some s"
      "numeral_value (unat base) (rev s) = unat num div unat base"
      "set s \<subseteq> set (digits_of t)" "num div base \<noteq> 0 \<longrightarrow> s \<noteq> [] \<and> last s \<noteq> CHR ''0''" by (auto simp: d)
    have m: "unat num mod unat base < 36" using assms by (intro less_le_trans [OF mod_less_divisor]) auto
    have nil: "num div base = 0 \<Longrightarrow> s = []" using s(1) by (cases room) auto
    have "digits_of t ! unat (num mod base) \<noteq> CHR ''0''" if "num div base = 0"
    proof
      assume "digits_of t ! unat (num mod base) = CHR ''0''"
      then have "unat num mod unat base = 0" using digit_val_0 m by (simp add: d)
      moreover have "unat num div unat base = 0" using that d(1) by simp
      ultimately have "unat num = 0" by (metis div_mult_mod_eq mult_0 add_0)
      then show False using False by (simp add: unat_eq_zero)
    qed
    moreover have "digits_of t ! unat (num mod base) \<in> set (digits_of t)"
      using m by (intro nth_mem) (simp add: d digits_of_def upper_digits_def lower_digits_def)
    ultimately show ?thesis using s False nil m by (auto simp: numeral_value_snoc digits_of_val d)
  qed (simp add: numeral_value_def)
qed

text \<open>The contents of \<^verbatim>\<open>tmp\<close> for any number.\<close>

lemma tmp_ok:
  assumes b: "2 \<le> base" "base \<le> 36"
  shows "\<exists>tmp. (if m = 0 then Some ''0'' else tmp_loop 66 m (of_int base) (digits_of t)) = Some tmp \<and> tmp \<noteq> [] \<and>
    set tmp \<subseteq> set (digits_of t) \<and> numeral_value (nat base) (rev tmp) = unat m \<and> (last tmp = CHR ''0'' \<longrightarrow> tmp = ''0'')"
proof (cases "m = 0")
  case True
  have "CHR ''0'' \<in> set (digits_of t)" by (simp add: digits_of_def upper_digits_def lower_digits_def)
  then show ?thesis using True by (simp add: numeral_value_def digit_val_def)
next
  case False
  have ub: "unat (of_int base :: u64) = nat base"
    using b by (simp add: unat_eq_nat_uint uint_word_of_int)
  have "unat m < 2 ^ 64" using unsigned_less [of m] by simp
  then have "unat m < 2 ^ 66" by simp
  also have "(2::nat) ^ 66 \<le> nat base ^ 66" using b by (intro power_mono) auto
  finally have lt: "unat m < nat base ^ 66" .
  have nb: "2 \<le> nat base" "nat base \<le> 36" using b by auto
  from tmp_loop_ok [of "of_int base" m 66 t, unfolded ub, OF nb lt] False show ?thesis by auto
qed

section \<open>Layout\<close>

lemma has_zeropad_off:
  "has (t AND NOT ZEROPAD) SIGN = has t SIGN" "has (t AND NOT ZEROPAD) LEFT = has t LEFT" "\<not> has (t AND NOT ZEROPAD) ZEROPAD"
  by (simp_all add: has_def ZEROPAD_def SIGN_def LEFT_def and.assoc)

text \<open>The digits of a number in a base, most significant first, and its numeral.\<close>

function nat_digits :: "nat \<Rightarrow> nat \<Rightarrow> nat list" where
  "nat_digits b n = (if b < 2 \<or> n < b then [n] else nat_digits b (n div b) @ [n mod b])"
  by pat_completeness auto

termination by (relation "measure snd") auto

declare nat_digits.simps [simp del]

definition numeral_of :: "u32 \<Rightarrow> nat \<Rightarrow> nat \<Rightarrow> string" where
  "numeral_of t b n = map (\<lambda>d. digits_of t ! d) (nat_digits b n)"

lemma tmp_loop_digits:
  assumes b: "2 \<le> unat base"
  shows "num \<noteq> 0 \<Longrightarrow> unat num < unat base ^ room \<Longrightarrow>
    tmp_loop room num base (digits_of t) = Some (rev (numeral_of t (unat base) (unat num)))"
proof (induction room arbitrary: num)
  case 0
  then show ?case by (simp add: unat_eq_zero)
next
  case (Suc room)
  have d: "unat (num div base) = unat num div unat base" "unat (num mod base) = unat num mod unat base"
    by (simp_all add: unat_div unat_mod)
  show ?case
  proof (cases "num div base = 0")
    case True
    have "unat num div unat base = 0" using True d(1) by simp
    then have lt: "unat num < unat base" using b by (simp add: div_eq_0_iff)
    then have "numeral_of t (unat base) (unat num) = [digits_of t ! unat num]"
      by (subst numeral_of_def, subst nat_digits.simps) simp
    moreover have "tmp_loop room 0 base (digits_of t) = Some []" by (cases room) simp_all
    ultimately show ?thesis using Suc.prems(1) True lt by (simp add: d)
  next
    case False
    then have "unat num div unat base \<noteq> 0" using d(1) by (metis unat_eq_zero)
    then have ge: "\<not> unat num < unat base" by (auto simp: div_eq_0_iff)
    have "unat (num div base) < unat base ^ room"
      using Suc.prems(2) b by (simp add: d less_mult_imp_div_less mult.commute)
    then have "tmp_loop room (num div base) base (digits_of t) = Some (rev (numeral_of t (unat base) (unat num div unat base)))"
      using Suc.IH [OF False] by (simp add: d)
    moreover have "numeral_of t (unat base) (unat num) = numeral_of t (unat base) (unat num div unat base) @ [digits_of t ! (unat num mod unat base)]"
      unfolding numeral_of_def by (subst nat_digits.simps) (use ge b in simp)
    ultimately show ?thesis using Suc.prems(1) by (simp add: d)
  qed
qed

lemma tmp_digits:
  assumes b: "2 \<le> base" "base \<le> 36"
  shows "(if m = 0 then Some ''0'' else tmp_loop 66 m (of_int base) (digits_of t)) = Some (rev (numeral_of t (nat base) (unat m)))"
proof (cases "m = 0")
  case True
  have "nat_digits (nat base) 0 = [0]" using b by (subst nat_digits.simps) simp
  then show ?thesis using True by (simp add: numeral_of_def digits_of_def upper_digits_def lower_digits_def)
next
  case False
  have ub: "unat (of_int base :: u64) = nat base" using b by (simp add: unat_eq_nat_uint uint_word_of_int)
  have "unat m < 2 ^ 64" using unsigned_less [of m] by simp
  then have "unat m < 2 ^ 66" by simp
  also have "(2::nat) ^ 66 \<le> nat base ^ 66" using b by (intro power_mono) auto
  finally have lt: "unat m < unat (of_int base :: u64) ^ 66" by (simp add: ub)
  have "2 \<le> unat (of_int base :: u64)" using b by (simp add: ub)
  from tmp_loop_digits [OF this False lt, of t] show ?thesis using False by (simp add: ub)
qed

lemma numeral_of_value:
  assumes "2 \<le> b" "b \<le> 36"
  shows "numeral_value b (numeral_of t b n) = n"
proof (induction n rule: less_induct)
  case (less n)
  show ?case
  proof (cases "n < b")
    case True
    then show ?thesis using assms unfolding numeral_of_def
      by (subst nat_digits.simps) (simp add: numeral_value_def digits_of_val)
  next
    case False
    then have "numeral_of t b n = numeral_of t b (n div b) @ [digits_of t ! (n mod b)]"
      unfolding numeral_of_def by (subst nat_digits.simps) (use assms in simp)
    moreover have "n div b < n" using False assms(1) by simp
    moreover have "n mod b < 36" using assms by (intro less_le_trans [OF mod_less_divisor]) auto
    ultimately show ?thesis using less.IH [of "n div b"] by (simp add: numeral_value_snoc digits_of_val)
  qed
qed

text \<open>The text of a formatted number, piece by piece: the sign, the prefix of the alternative form,
  the numeral with the zeros that the precision asks for, and the characters that fill the width:
  spaces on the right, zeros after the prefix, or spaces on the left.\<close>

definition magnitude :: "u64 \<Rightarrow> u32 \<Rightarrow> nat" where
  "magnitude num t = (if has t SIGN then nat \<bar>sint num\<bar> else unat num)"

definition sign_text :: "u64 \<Rightarrow> u32 \<Rightarrow> string" where
  "sign_text num t =
     (if \<not> has t SIGN then [] else if sint num < 0 then ''-'' else if has t PLUS then ''+'' else if has t SPACE then '' '' else [])"

definition prefix_text :: "int \<Rightarrow> u32 \<Rightarrow> string" where
  "prefix_text base t =
     (if \<not> has t SPECIAL then [] else if base = 8 then ''0''
      else if base = 16 then (if has t LARGE then ''0X'' else ''0x'') else [])"

definition number_text :: "u64 \<Rightarrow> int \<Rightarrow> int \<Rightarrow> int \<Rightarrow> u32 \<Rightarrow> string" where
  "number_text num base w p t =
     (let ds = numeral_of t (nat base) (magnitude num t);
          body = replicate (nat p - length ds) (CHR ''0'') @ ds;
          front = sign_text num t @ prefix_text base t;
          fill = nat w - length (front @ body)
      in if has t LEFT then front @ body @ replicate fill (CHR '' '')
         else if has t ZEROPAD then front @ replicate fill (CHR ''0'') @ body
         else replicate fill (CHR '' '') @ front @ body)"

lemma unat_magnitude: "unat (if has t SIGN \<and> sint num < 0 then - num else num) = magnitude num t"
proof -
  have u: "uint num = sint num mod 2 ^ 64" by (simp add: uint_sint take_bit_eq_mod)
  have b: "- (2 ^ 63) \<le> sint num" "sint num < 2 ^ 63" using sint_ge [of num] sint_lt [of num] by simp_all
  show ?thesis
  proof (cases "has t SIGN")
    case True
    have "uint (- num) = (- sint num) mod 2 ^ 64" by (simp add: uint_word_ariths(4) u mod_minus_eq)
    then have "sint num < 0 \<Longrightarrow> uint (- num) = - sint num" using b by simp
    moreover have "\<not> sint num < 0 \<Longrightarrow> uint num = sint num" using b u by simp
    ultimately show ?thesis using True by (cases "sint num < 0") (simp_all add: magnitude_def unat_eq_nat_uint)
  qed (simp add: magnitude_def)
qed

lemma has_zeropad_off2:
  "has (t AND NOT ZEROPAD) PLUS = has t PLUS" "has (t AND NOT ZEROPAD) SPACE = has t SPACE" "has (t AND NOT ZEROPAD) SPECIAL = has t SPECIAL"
  by (simp_all add: has_def ZEROPAD_def PLUS_def SPACE_def SPECIAL_def and.assoc)

lemma has_pad_left: "has t (ZEROPAD + LEFT) \<longleftrightarrow> has t ZEROPAD \<or> has t LEFT"
proof -
  have "ZEROPAD + LEFT = (ZEROPAD OR LEFT :: u32)" by (simp add: ZEROPAD_def LEFT_def)
  then show ?thesis by (simp add: has_def bit.conj_disj_distrib or_eq_0_iff)
qed

lemma number_eq:
  assumes b: "2 \<le> base" "base \<le> 36"
  shows "number num base w p t = Some (number_text num base w p t)"
proof -
  define t1 where "t1 = (if has t LEFT then t AND NOT ZEROPAD else t)"
  have t1: "has t1 SIGN = has t SIGN" "has t1 LEFT = has t LEFT" "has t1 ZEROPAD \<longleftrightarrow> has t ZEROPAD \<and> \<not> has t LEFT"
    "has t1 PLUS = has t PLUS" "has t1 SPACE = has t SPACE" "has t1 SPECIAL = has t SPECIAL"
    by (auto simp: t1_def has_zeropad_off has_zeropad_off2)
  define m where "m = (if has t SIGN \<and> sint num < 0 then - num else num)"
  have ns: "number_sign num w t1 = (sign_text num t, m, w - int (length (sign_text num t)))"
    by (simp add: number_sign_def sign_text_def m_def t1)
  define tmp where "tmp = rev (numeral_of t (nat base) (magnitude num t))"
  have tmp: "(if m = 0 then Some ''0'' else tmp_loop 66 m (of_int base) (digits_of t)) = Some tmp"
    unfolding tmp_digits [OF b] tmp_def m_def unat_magnitude ..
  define L where "L = length tmp"
  define prec where "prec = (if int L > p then int L else p)"
  define pf where "pf = (if has t1 SPECIAL then
      if base = 8 then ''0'' else if base = 16 then [CHR ''0'', digits_of t ! 33] else [] else [])"
  have pf: "pf = prefix_text base t" by (simp add: pf_def prefix_text_def t1 digits_of_def upper_digits_def lower_digits_def)
  define sz where "sz = w - int (length (sign_text num t)) - int (length pf) - prec"
  define pad where "pad c = replicate (nat sz) (c::char)" for c
  have N: "number num base w p t = Some ((if has t1 (ZEROPAD + LEFT) then [] else pad (CHR '' '')) @ sign_text num t @ pf @
      (if has t1 LEFT \<or> \<not> has t1 (ZEROPAD + LEFT) then [] else pad (if has t1 ZEROPAD then CHR ''0'' else CHR '' '')) @
      replicate (nat (prec - int L)) (CHR ''0'') @ rev tmp @
      (if has t1 (ZEROPAD + LEFT) \<and> has t1 LEFT then pad (CHR '' '') else []))"
    unfolding number_def Let_def t1_def [symmetric] digits_of_def [symmetric] ns prod.case tmp L_def [symmetric] prec_def [symmetric] bind.bind_lunit
    using b by (simp add: pad_def pf_def sz_def pad_loop_def algebra_simps)
  have zs: "nat (prec - int L) = nat p - L" by (auto simp: prec_def)
  have fill: "nat sz = nat w - (length (sign_text num t) + length pf + (nat p - L + L))"
    by (auto simp: sz_def prec_def)
  have rt: "rev tmp = numeral_of t (nat base) (magnitude num t)" "L = length (numeral_of t (nat base) (magnitude num t))"
    by (simp_all add: tmp_def L_def)
  show ?thesis
    unfolding N number_text_def Let_def pad_def zs fill rt(1) unfolding rt(2) pf
    by (simp add: has_pad_left t1 add.assoc)
qed

lemma number_text_length:
  "length (number_text num base w p t) =
     max (nat w) (length (sign_text num t @ prefix_text base t) + max (nat p) (length (numeral_of t (nat base) (magnitude num t))))"
proof -
  define F where "F = length (sign_text num t @ prefix_text base t)"
  define L where "L = length (numeral_of t (nat base) (magnitude num t))"
  have "length (number_text num base w p t) = F + (nat p - L + L) + (nat w - (F + (nat p - L + L)))"
    by (simp add: number_text_def Let_def F_def L_def)
  also have "\<dots> = max (nat w) (F + max (nat p) L)" by linarith
  finally show ?thesis by (simp only: F_def L_def)
qed

text \<open>C29.  \<^verbatim>\<open>number\<close> writes exactly the sign, the prefix of the alternative form and the numeral of the
  magnitude in the base, padded with zeros to the precision, and fills the rest of the width with
  spaces on the right, zeros after the prefix or spaces on the left, as the flags say.  The numeral
  denotes the magnitude, and the text is exactly as long as the width or its content, whichever is
  larger.\<close>

theorem number_correct:
  assumes "2 \<le> base" "base \<le> 36"
  shows "number num base w p t = Some (number_text num base w p t) \<and>
    numeral_value (nat base) (numeral_of t (nat base) (magnitude num t)) = magnitude num t \<and>
    length (number_text num base w p t) =
      max (nat w) (length (sign_text num t @ prefix_text base t) +
        max (nat p) (length (numeral_of t (nat base) (magnitude num t))))"
  using number_eq [OF assms, of num w p t] numeral_of_value [of "nat base" t "magnitude num t"] assms
  by (simp add: number_text_length)

theorem number_correct_witness:
  "number (- 42) 10 8 4 SIGN = Some ''   -0042'' \<and> number 255 16 8 (- 1) (ZEROPAD OR SPECIAL) = Some ''0x0000ff'' \<and>
    number 5 10 4 (- 1) (LEFT OR PLUS OR SIGN) = Some ''+5  ''"
proof -
  have "replicate 2 c = [c, c]" "replicate 3 c = [c, c, c]" "replicate 4 c = [c, c, c, c]" for c :: char
    by (simp_all add: numeral_eq_Suc)
  then show ?thesis
    using number_correct [of 10 "- 42" 8 4 SIGN] number_correct [of 16 255 8 "- 1" "ZEROPAD OR SPECIAL"]
      number_correct [of 10 5 4 "- 1" "LEFT OR PLUS OR SIGN"]
    by (simp add: number_text_def sign_text_def prefix_text_def magnitude_def numeral_of_def nat_digits.simps has_def
        SIGN_def PLUS_def SPACE_def LEFT_def ZEROPAD_def SPECIAL_def LARGE_def digits_of_def lower_digits_def)
qed

section \<open>Formats\<close>

lemma vsprintf_loop_Nil [simp]: "vsprintf_loop out st [] args = Some (out, st)"
  by (simp add: vsprintf_loop.simps)

lemma vsprintf_loop_lit: "c \<noteq> CHR ''%'' \<Longrightarrow> vsprintf_loop out st (c # cs) args = vsprintf_loop (out @ [c]) st cs args"
  by (simp add: vsprintf_loop.simps)

lemma vsprintf_loop_conv: "vsprintf_loop out st (CHR ''%'' # cs) args = do {
    (e, fmt1, args1) \<leftarrow> conversion (length out) cs args; vsprintf_loop (out @ text_of e) (st @ stores_of e) fmt1 args1 }"
  by (subst vsprintf_loop.simps) simp

lemma conv_plain:
  "conversion pos (CHR ''d'' # fmt) (AInt v # args) = do { s \<leftarrow> number (scast v) 10 (- 1) (- 1) SIGN; Some (Number s, fmt, args) }"
  "conversion pos (CHR ''s'' # fmt) (AStr so # args) = Some (Chars (conv_string (- 1) (- 1) 0 so), fmt, args)"
  "conversion pos (CHR ''c'' # fmt) (AInt v # args) = Some (Chars [char_of (unat v mod 256)], fmt, args)"
  "conversion pos (CHR ''%'' # fmt) args = Some (Bad (Some CHR ''%''), fmt, args)"
  by (simp_all add: conversion_def parse_width_def parse_precision_def parse_qualifier_def next_is_def is_digit_def
      convert_def conv_number_def conv_char_def has_def SIGN_def)

definition signed_value :: "string \<Rightarrow> int" where
  "signed_value s = (if s \<noteq> [] \<and> hd s = CHR ''-'' then - int (numeral_value 10 (tl s)) else int (numeral_value 10 s))"

text \<open>\<^verbatim>\<open>number\<close> without width, precision or flags but the sign.\<close>

lemma number_plain:
  fixes v :: u32
  shows "\<exists>ds. number (scast v) 10 (- 1) (- 1) SIGN = Some ((if sint v < 0 then ''-'' else []) @ ds) \<and> ds \<noteq> [] \<and>
    hd ds \<noteq> CHR ''-'' \<and> int (numeral_value 10 ds) = \<bar>sint v\<bar>"
proof -
  have fl: "\<not> has SIGN LARGE" "\<not> has SIGN LEFT" "has SIGN SIGN" "\<not> has SIGN PLUS" "\<not> has SIGN SPACE" "\<not> has SIGN SPECIAL"
    "\<not> has SIGN (ZEROPAD + LEFT)" "\<not> has SIGN ZEROPAD"
    by (simp_all add: has_def SIGN_def LARGE_def LEFT_def PLUS_def SPACE_def SPECIAL_def ZEROPAD_def)
  define m :: u64 where "m = (if sint v < 0 then - scast v else scast v)"
  have b: "- (2 ^ 31) \<le> sint v" "sint v < 2 ^ 31" using sint_ge [of v] sint_lt [of v] by simp_all
  have s: "sint (scast v :: u64) = sint v"
    using b by (simp add: signed_scast_eq signed_take_bit_int_eq_self)
  have um: "int (unat m) = \<bar>sint v\<bar>"
  proof -
    have u: "uint (scast v :: u64) = sint v mod 2 ^ 64"
      by (simp add: s [symmetric] uint_sint take_bit_eq_mod)
    have "uint m = (if sint v < 0 then (- sint v) mod 2 ^ 64 else sint v mod 2 ^ 64)"
      unfolding m_def by (simp add: uint_word_ariths(4) u mod_minus_eq)
    then have "uint m = \<bar>sint v\<bar>" using b by (cases "sint v < 0") (simp_all add: mod_pos_pos_trivial)
    then show ?thesis by (simp add: unat_eq_nat_uint)
  qed
  obtain tmp where tmp: "(if m = 0 then Some ''0'' else tmp_loop 66 m (of_int 10) (digits_of SIGN)) = Some tmp" "tmp \<noteq> []"
    "set tmp \<subseteq> set (digits_of SIGN)" "numeral_value (nat 10) (rev tmp) = unat m"
    using tmp_ok [of 10 m SIGN] by auto
  have ns: "number_sign (scast v) (- 1) SIGN = (if sint v < 0 then ''-'' else [], m, if sint v < 0 then - 2 else - 1)"
    by (simp add: number_sign_def fl s m_def)
  have "number (scast v) 10 (- 1) (- 1) SIGN = Some ((if sint v < 0 then ''-'' else []) @ rev tmp)"
    unfolding number_def Let_def digits_of_def [symmetric] if_not_P [OF fl(2)] ns prod.case tmp(1)
    using tmp(2) by (simp add: pad_loop_def fl)
  moreover have "hd (rev tmp) \<noteq> CHR ''-''"
  proof -
    have "hd (rev tmp) \<in> set (digits_of SIGN)" using tmp(2,3) by (simp add: hd_rev subset_iff)
    then show ?thesis by (auto simp: digits_of_def upper_digits_def lower_digits_def split: if_splits)
  qed
  ultimately show ?thesis using tmp(2,4) um by (intro exI [of _ "rev tmp"]) simp
qed

text \<open>C30.  \<^verbatim>\<open>sprintf\<close> with the format \<^verbatim>\<open>%d\<close> writes a decimal numeral that reads back as the
  argument, for every \<^verbatim>\<open>int\<close>, and returns its length.\<close>

theorem sprintf_d_roundtrip:
  "\<exists>s. sprintf ''%d'' [AInt v] = Some (s @ [CHR 0x00], [], int (length s)) \<and> signed_value s = sint v"
proof -
  obtain ds where ds: "number (scast v) 10 (- 1) (- 1) SIGN = Some ((if sint v < 0 then ''-'' else []) @ ds)" "ds \<noteq> []"
    "hd ds \<noteq> CHR ''-''" "int (numeral_value 10 ds) = \<bar>sint v\<bar>" using number_plain [of v] by blast
  have "sprintf ''%d'' [AInt v] = Some (((if sint v < 0 then ''-'' else []) @ ds) @ [CHR 0x00], [],
      int (length ((if sint v < 0 then ''-'' else []) @ ds)))"
    by (simp add: sprintf_def vsprintf_def vsprintf_loop_conv conv_plain ds(1))
  moreover have "signed_value ((if sint v < 0 then ''-'' else []) @ ds) = sint v"
    using ds(2-4) by (auto simp: signed_value_def)
  ultimately show ?thesis by blast
qed

section \<open>The bounded variant\<close>

text \<open>Formats with literal text and the conversions \<^verbatim>\<open>%s\<close>, \<^verbatim>\<open>%c\<close> and \<^verbatim>\<open>%%\<close> only.\<close>

fun text_only :: "string \<Rightarrow> bool" where
  "text_only [] = True"
| "text_only [c] = (c \<noteq> CHR ''%'')"
| "text_only (c # d # cs) =
     (if c = CHR ''%'' then (d = CHR ''s'' \<or> d = CHR ''c'' \<or> d = CHR ''%'') \<and> text_only cs else text_only (d # cs))"

lemma writechars_eq:
  "int (length out) = cnt \<Longrightarrow> cnt < sz - 1 \<Longrightarrow>
    writechars sz cnt out s =
      (if cnt + int (length s) < sz - 1 then (out @ s, cnt + int (length s), False)
       else (take (nat (sz - 1)) (out @ s), sz - 1, True))"
proof (induction s arbitrary: cnt out)
  case (Cons c s)
  show ?case
  proof (cases "cnt + 1 \<ge> sz - 1")
    case True
    then have "nat (sz - 1) = Suc (length out)" using Cons.prems by linarith
    then show ?thesis using True Cons.prems by simp
  next
    case False
    then show ?thesis using Cons.IH [of "out @ [c]" "cnt + 1"] Cons.prems by simp
  qed
qed simp

text \<open>A conversion of such a format.\<close>

lemma text_conv:
  assumes "text_only (CHR ''%'' # fmt)" "conversion pos fmt args = Some (e, fmt1, args1)"
  shows "text_only fmt1 \<and> length fmt1 < length fmt \<and> stores_of e = [] \<and>
    (\<forall>sz cnt out. emit_bounded sz cnt out e = writechars sz cnt out (text_of e))"
proof (cases fmt)
  case (Cons d cs)
  then consider "d = CHR ''s''" | "d = CHR ''c''" | "d = CHR ''%''" using assms(1) by auto
  then show ?thesis
  proof cases
    case 1
    then show ?thesis using assms Cons
      by (cases args rule: list.exhaust; cases "hd args")
        (auto simp: conv_plain, simp_all add: conversion_def parse_width_def parse_precision_def parse_qualifier_def next_is_def is_digit_def convert_def)
  next
    case 2
    then show ?thesis using assms Cons
      by (cases args rule: list.exhaust; cases "hd args")
        (auto simp: conv_plain, simp_all add: conversion_def parse_width_def parse_precision_def parse_qualifier_def next_is_def is_digit_def convert_def)
  next
    case 3
    then show ?thesis using assms Cons by (auto simp: conv_plain)
  qed
qed (use assms in simp)

lemma vsnprintf_loop_lit: "c \<noteq> CHR ''%'' \<Longrightarrow> vsnprintf_loop sz cnt out st (c # cs) args =
    (let (out1, cnt1, fin) = writechars sz cnt out [c] in
     if fin then Some (out1, st) else vsnprintf_loop sz cnt1 out1 st cs args)"
  by (subst vsnprintf_loop.simps) (simp only: list.case if_True if_False refl not_False_eq_True)

lemma vsnprintf_loop_conv: "vsnprintf_loop sz cnt out st (CHR ''%'' # cs) args = do {
    (e, fmt1, args1) \<leftarrow> conversion (length out) cs args;
    let (out1, cnt1, fin) = emit_bounded sz cnt out e;
    if fin then Some (out1, st @ stores_of e) else vsnprintf_loop sz cnt1 out1 (st @ stores_of e) fmt1 args1 }"
  by (subst vsnprintf_loop.simps) (simp only: list.case if_True if_False refl not_True_eq_False)

lemma text_only_lit: "c \<noteq> CHR ''%'' \<Longrightarrow> text_only (c # cs) = text_only cs"
  by (cases cs) auto

text \<open>One step of the unbounded loop on such a format, a literal character or a conversion.\<close>

lemma vsprintf_loop_step:
  assumes "vsprintf_loop out st (c # cs) args = Some (res, st')" "text_only (c # cs)"
  shows "\<exists>e fmt1 args1. vsprintf_loop (out @ text_of e) st fmt1 args1 = Some (res, st') \<and> text_only fmt1 \<and>
    length fmt1 < length (c # cs) \<and> (\<forall>sz cnt. vsnprintf_loop sz cnt out st (c # cs) args =
      (let (out1, cnt1, fin) = writechars sz cnt out (text_of e) in
       if fin then Some (out1, st) else vsnprintf_loop sz cnt1 out1 st fmt1 args1))"
proof (cases "c = CHR ''%''")
  case True
  then obtain e fmt1 args1 where e: "conversion (length out) cs args = Some (e, fmt1, args1)"
    "vsprintf_loop (out @ text_of e) (st @ stores_of e) fmt1 args1 = Some (res, st')"
    using assms(1) by (auto simp: vsprintf_loop_conv bind_eq_Some_conv)
  have "text_only fmt1" "length fmt1 < length cs" "stores_of e = []" "emit_bounded sz cnt out' e = writechars sz cnt out' (text_of e)" for sz cnt out'
    using text_conv [OF _ e(1)] assms(2) True by auto
  then show ?thesis using e True
    by (intro exI [of _ e] exI [of _ fmt1] exI [of _ args1]) (simp add: vsnprintf_loop_conv split_beta)
next
  case False
  then show ?thesis using assms
    by (intro exI [of _ "Chars [c]"] exI [of _ cs] exI [of _ args])
      (simp add: vsprintf_loop_lit text_only_lit vsnprintf_loop_lit del: writechars.simps)
qed

lemma vsprintf_loop_prefix:
  "vsprintf_loop out st fmt args = Some (res, st') \<Longrightarrow> text_only fmt \<Longrightarrow> (\<exists>r. res = out @ r) \<and> st' = st"
proof (induction "length fmt" arbitrary: out fmt args rule: less_induct)
  case less
  show ?case
  proof (cases fmt)
    case (Cons c cs)
    from vsprintf_loop_step [OF less.prems [unfolded Cons]] less.hyps Cons show ?thesis by fastforce
  qed (use less.prems in simp)
qed

lemma vsnprintf_loop_text:
  "vsprintf_loop out st fmt args = Some (res, st') \<Longrightarrow> text_only fmt \<Longrightarrow> int (length out) < sz - 1 \<Longrightarrow>
    vsnprintf_loop sz (int (length out)) out st fmt args = Some (take (nat (sz - 1)) res, st)"
proof (induction "length fmt" arbitrary: out fmt args rule: less_induct)
  case less
  show ?case
  proof (cases fmt)
    case Nil
    then show ?thesis using less.prems by (subst vsnprintf_loop.simps) auto
  next
    case (Cons c cs)
    obtain e fmt1 args1 where e: "vsprintf_loop (out @ text_of e) st fmt1 args1 = Some (res, st')" "text_only fmt1"
      "length fmt1 < length fmt" "\<And>cnt. vsnprintf_loop sz cnt out st fmt args =
         (let (out1, cnt1, fin) = writechars sz cnt out (text_of e) in
          if fin then Some (out1, st) else vsnprintf_loop sz cnt1 out1 st fmt1 args1)"
      using vsprintf_loop_step [OF less.prems(1,2) [unfolded Cons]] unfolding Cons by blast
    obtain r where r: "res = (out @ text_of e) @ r" using vsprintf_loop_prefix [OF e(1,2)] by blast
    have IH: "int (length (out @ text_of e)) < sz - 1 \<Longrightarrow>
      vsnprintf_loop sz (int (length (out @ text_of e))) (out @ text_of e) st fmt1 args1 = Some (take (nat (sz - 1)) res, st)"
      using less.hyps [OF e(3,1,2)] .
    show ?thesis
    proof (cases "int (length (out @ text_of e)) < sz - 1")
      case True
      then show ?thesis using IH e(4) writechars_eq [OF refl less.prems(3), of "text_of e"] by simp
    next
      case False
      then have "take (nat (sz - 1)) (out @ text_of e) = take (nat (sz - 1)) res" by (simp add: r)
      then show ?thesis using False e(4) writechars_eq [OF refl less.prems(3), of "text_of e"] by simp
    qed
  qed
qed

text \<open>C31.  On a format of text and \<^verbatim>\<open>%s\<close>, \<^verbatim>\<open>%c\<close>, \<^verbatim>\<open>%%\<close> conversions, \<^verbatim>\<open>snprintf\<close> with a buffer of at least two
  bytes writes what \<^verbatim>\<open>sprintf\<close> writes, cut to \<^verbatim>\<open>size - 1\<close> characters and terminated, and returns the
  number of characters before the terminator.\<close>

theorem snprintf_truncates:
  assumes "text_only fmt" "2 \<le> sz" "sprintf fmt args = Some (s @ [CHR 0x00], st, n)"
  shows "snprintf sz fmt args = Some (take (nat (sz - 1)) s @ [CHR 0x00], [], min n (sz - 1))"
proof -
  have v: "vsprintf_loop [] [] fmt args = Some (s, st)" "n = int (length s)"
    using assms(3) by (auto simp: sprintf_def vsprintf_def bind_eq_Some_conv)
  have "vsnprintf_loop sz 0 [] [] fmt args = Some (take (nat (sz - 1)) s, [])"
    using vsnprintf_loop_text [OF v(1) assms(1), of sz] assms(2) by simp
  then show ?thesis using assms(2) v(2) by (auto simp: snprintf_def vsnprintf_def min_def)
qed

theorem snprintf_truncates_witness:
  "snprintf 4 ''<%s>'' [AStr (Some ''abcd'')] = Some (''<ab'' @ [CHR 0x00], [], 3)"
proof -
  have s: "sprintf ''<%s>'' [AStr (Some ''abcd'')] = Some (''<abcd>'' @ [CHR 0x00], [], 6)"
    by (simp add: sprintf_def vsprintf_def vsprintf_loop_conv vsprintf_loop_lit conv_plain conv_string_def has_def)
  show ?thesis using snprintf_truncates [OF _ _ s, of 4] by simp
qed

text \<open>C32.  The bound does not hold for numbers: \<^verbatim>\<open>snprintf\<close> with the format \<^verbatim>\<open>%d\<close> stores the same bytes
  whatever the size of the buffer, so a numeral longer than the buffer overruns it.\<close>

theorem snprintf_d_overruns:
  "\<exists>b n. sprintf ''%d'' [AInt v] = Some (b, [], n) \<and> snprintf (int k + 1) ''%d'' [AInt v] = Some (b, [], min n (int k + 1))"
proof -
  obtain s where s: "number (scast v) 10 (- 1) (- 1) SIGN = Some s" using number_plain [of v] by blast
  have "vsnprintf_loop (int k + 1) 0 [] [] ''%d'' [AInt v] = Some (s, [])"
    by (simp add: vsnprintf_loop_conv conv_plain s) (simp add: vsnprintf_loop.simps)
  then show ?thesis
    by (auto simp: sprintf_def vsprintf_def vsprintf_loop_conv conv_plain s snprintf_def vsnprintf_def min_def)
qed

end
