(* ===== verification/Klist.thy ===== *)
theory Klist
  imports Prelude
begin

text \<open>
  The kernel's circular doubly linked lists (\<^verbatim>\<open>include/lib/list.h\<close>).  A list head is an address with a
  next and a prev pointer; the heap of all list heads is a pair of functions over a type of
  addresses that each client chooses.  \<open>dl h c xs\<close> says that the ring of \<open>c\<close> holds the nodes \<open>xs\<close>
  in order.
\<close>

record 'a lheap =
  lnext :: "'a \<Rightarrow> 'a"
  lprev :: "'a \<Rightarrow> 'a"

definition set_next :: "'a \<Rightarrow> 'a \<Rightarrow> 'a lheap \<Rightarrow> 'a lheap" where
  "set_next a b h = h\<lparr>lnext := (lnext h)(a := b)\<rparr>"

definition set_prev :: "'a \<Rightarrow> 'a \<Rightarrow> 'a lheap \<Rightarrow> 'a lheap" where
  "set_prev a b h = h\<lparr>lprev := (lprev h)(a := b)\<rparr>"

section \<open>Operations\<close>

definition INIT_LIST_HEAD :: "'a \<Rightarrow> 'a lheap \<Rightarrow> 'a lheap" where
  "INIT_LIST_HEAD l h = set_prev l l (set_next l l h)"

definition list_add_between :: "'a \<Rightarrow> 'a \<Rightarrow> 'a \<Rightarrow> 'a lheap \<Rightarrow> 'a lheap" where
  "list_add_between pnew pr nx h =
     (let h1 = set_prev nx pnew h;
          h2 = set_next pnew nx h1;
          h3 = set_prev pnew pr h2
      in set_next pr pnew h3)"

definition list_add :: "'a \<Rightarrow> 'a \<Rightarrow> 'a lheap \<Rightarrow> 'a lheap" where
  "list_add pnew head h = list_add_between pnew head (lnext h head) h"

definition list_del_between :: "'a \<Rightarrow> 'a \<Rightarrow> 'a lheap \<Rightarrow> 'a lheap" where
  "list_del_between pr nx h = set_next pr nx (set_prev nx pr h)"

definition list_del_entry :: "'a \<Rightarrow> 'a lheap \<Rightarrow> 'a lheap" where
  "list_del_entry entry h = list_del_between (lprev h entry) (lnext h entry) h"

definition list_del :: "'a \<Rightarrow> 'a \<Rightarrow> 'a lheap \<Rightarrow> 'a lheap" where
  "list_del NULL entry h = set_prev entry NULL (set_next entry NULL (list_del_entry entry h))"

definition list_del_reinit :: "'a \<Rightarrow> 'a \<Rightarrow> 'a lheap \<Rightarrow> 'a lheap" where
  "list_del_reinit NULL entry h = INIT_LIST_HEAD entry (list_del NULL entry h)"

definition list_add_tail :: "'a \<Rightarrow> 'a \<Rightarrow> 'a lheap \<Rightarrow> 'a lheap" where
  "list_add_tail pnew head h = list_add_between pnew (lprev h head) head h"

definition list_move :: "'a \<Rightarrow> 'a \<Rightarrow> 'a lheap \<Rightarrow> 'a lheap" where
  "list_move l head h = list_add l head (list_del_entry l h)"

definition list_move_tail :: "'a \<Rightarrow> 'a \<Rightarrow> 'a lheap \<Rightarrow> 'a lheap" where
  "list_move_tail l head h = list_add_tail l head (list_del_entry l h)"

definition list_empty :: "'a \<Rightarrow> 'a lheap \<Rightarrow> bool" where
  "list_empty head h \<longleftrightarrow> lnext h head = head"

definition list_splice_at :: "'a \<Rightarrow> 'a \<Rightarrow> 'a lheap \<Rightarrow> 'a lheap" where
  "list_splice_at l head h =
     (let first = lnext h l;
          last = lprev h l;
          at = lnext h head;
          h1 = set_prev first head h;
          h2 = set_next head first h1;
          h3 = set_next last at h2
      in set_prev at last h3)"

definition list_splice :: "'a \<Rightarrow> 'a \<Rightarrow> 'a lheap \<Rightarrow> 'a lheap" where
  "list_splice l head h = (if \<not> list_empty l h then list_splice_at l head h else h)"

text \<open>The nodes a \<^verbatim>\<open>list_for_each\<close> loop visits from \<open>pos\<close> on.\<close>

partial_function (option) list_for_each :: "'a \<Rightarrow> 'a \<Rightarrow> 'a lheap \<Rightarrow> 'a list option" where
  "list_for_each pos head h =
     (if pos = head then Some []
      else Option.bind (list_for_each (lnext h pos) head h) (\<lambda>ps. Some (pos # ps)))"

section \<open>Rings\<close>

fun links :: "'a lheap \<Rightarrow> 'a list \<Rightarrow> bool" where
  "links h (x # y # zs) \<longleftrightarrow> lnext h x = y \<and> lprev h y = x \<and> links h (y # zs)"
| "links h _ \<longleftrightarrow> True"

definition dl :: "'a lheap \<Rightarrow> 'a \<Rightarrow> 'a list \<Rightarrow> bool" where
  "dl h c xs \<longleftrightarrow> distinct (c # xs) \<and> links h (c # xs @ [c])"

lemma links_app: "links h (xs @ y # zs) \<longleftrightarrow> links h (xs @ [y]) \<and> links h (y # zs)"
proof (induction xs)
  case (Cons x xs)
  then show ?case by (cases xs) auto
qed simp

lemma sel_upd [simp]:
  "lnext (set_next a b h) = (lnext h)(a := b)" "lprev (set_next a b h) = lprev h"
  "lprev (set_prev a b h) = (lprev h)(a := b)" "lnext (set_prev a b h) = lnext h"
  by (simp_all add: set_next_def set_prev_def)

text \<open>A segment depends on the next pointers of all but its last and the prev pointers of all but
  its first node.\<close>

lemma links_cong:
  "(\<And>x. x \<in> set (butlast xs) \<Longrightarrow> lnext h' x = lnext h x) \<Longrightarrow> (\<And>x. x \<in> set (tl xs) \<Longrightarrow> lprev h' x = lprev h x) \<Longrightarrow>
    links h' xs = links h xs"
proof (induction h xs rule: links.induct)
  case (1 h x y zs)
  have "links h' (y # zs) = links h (y # zs)"
    by (rule "1.IH") (use "1.prems" in \<open>auto dest: in_set_butlastD split: if_splits intro: list.set_sel(2)\<close>)
  then show ?case using "1.prems" by simp
qed simp_all

text \<open>Rings that share no node with what an operation writes stay as they are.\<close>

lemma dl_frame:
  assumes "dl h c xs" "\<And>x. x \<in> set (c # xs) \<Longrightarrow> lnext h' x = lnext h x" "\<And>x. x \<in> set (c # xs) \<Longrightarrow> lprev h' x = lprev h x"
  shows "dl h' c xs"
proof -
  have "links h' (c # xs @ [c]) = links h (c # xs @ [c])"
    using assms(2,3) by (intro links_cong) (auto simp: butlast_append split: if_splits)
  then show ?thesis using assms(1) by (simp add: dl_def)
qed

lemma dl_ends:
  assumes "dl h c xs"
  shows "lnext h c = (if xs = [] then c else hd xs)" "lprev h c = (if xs = [] then c else last xs)"
proof -
  show "lnext h c = (if xs = [] then c else hd xs)"
    using assms by (cases xs) (auto simp: dl_def)
  show "lprev h c = (if xs = [] then c else last xs)"
  proof (cases xs rule: rev_cases)
    case (snoc ys y)
    then show ?thesis using assms links_app [of h "c # ys" y "[c]"] by (simp add: dl_def)
  qed (use assms in \<open>simp add: dl_def\<close>)
qed

lemma list_empty_ok: "dl h c xs \<Longrightarrow> list_empty c h \<longleftrightarrow> xs = []"
  by (cases xs) (auto simp: list_empty_def dl_ends dl_def)

lemma INIT_ok: "dl (INIT_LIST_HEAD l h) l []"
  by (simp add: INIT_LIST_HEAD_def dl_def)

lemma INIT_frame: "dl h c xs \<Longrightarrow> l \<notin> set (c # xs) \<Longrightarrow> dl (INIT_LIST_HEAD l h) c xs"
  by (rule dl_frame [of h]) (auto simp: INIT_LIST_HEAD_def)

text \<open>Insertion between two neighbours of a ring.\<close>

lemma add_between_ok:
  assumes ring: "dl h c (ps @ qs)" and new: "n \<notin> set (c # ps @ qs)"
    and pr: "pr = last (c # ps)" and nx: "nx = hd (qs @ [c])"
  shows "dl (list_add_between n pr nx h) c (ps @ n # qs)"
proof -
  let ?h = "list_add_between n pr nx h"
  obtain ps' where ps': "c # ps = ps' @ [pr]" using pr by (metis append_butlast_last_id list.distinct(1))
  obtain qs' where qs': "qs @ [c] = nx # qs'" using nx by (cases qs) auto
  have lk: "links h (ps' @ [pr])" "links h (nx # qs')"
  proof -
    have "links h ((c # ps) @ qs @ [c])" using ring by (simp add: dl_def)
    then have "links h (ps' @ pr # nx # qs')" by (simp only: ps' qs' append_assoc append_Cons append_Nil)
    then show "links h (ps' @ [pr])" "links h (nx # qs')"
      using links_app [of h ps' pr "nx # qs'"] by auto
  qed
  have s1: "set (ps' @ [pr]) = set (c # ps)" and s2: "set (nx # qs') = set (c # qs)"
    unfolding ps' [symmetric] qs' [symmetric] by auto
  have "distinct (c # ps)" "distinct (qs @ [c])" using ring by (auto simp: dl_def)
  then have dp: "distinct (ps' @ [pr])" and dq: "distinct (nx # qs')" unfolding ps' qs' .
  have "n \<notin> set (c # ps)" "n \<notin> set (c # qs)" using new by auto
  then have dis: "distinct (ps' @ [pr])" "n \<notin> set (ps' @ [pr])" "n \<notin> set (nx # qs')"
    unfolding s1 s2 using dp by auto
  have f: "lnext ?h = (lnext h)(n := nx, pr := n)" "lprev ?h = (lprev h)(nx := n, n := pr)"
    by (auto simp: list_add_between_def Let_def)
  have 1: "links ?h (ps' @ [pr])"
  proof -
    have "lprev ?h x = lprev h x" if "x \<in> set (tl (ps' @ [pr]))" for x
    proof -
      have "x \<in> set ps" using that ps' by (metis list.sel(3))
      then have "x \<noteq> nx" using ring nx by (cases qs) (auto simp: dl_def)
      then show ?thesis using that dis(2) by (auto simp: f dest: list.set_sel(2) [rotated])
    qed
    moreover have "lnext ?h x = lnext h x" if "x \<in> set (butlast (ps' @ [pr]))" for x
      using that dis(1,2) by (auto simp: f)
    ultimately show ?thesis using lk(1) links_cong [of "ps' @ [pr]" ?h h] by blast
  qed
  have 2: "links ?h (nx # qs')"
  proof -
    have "lnext ?h x = lnext h x" if "x \<in> set (butlast (nx # qs'))" for x
    proof -
      have "x \<in> set qs" using that qs' by (metis butlast_snoc)
      moreover have "pr \<in> set (c # ps)" using pr by (metis last_in_set list.distinct(1))
      ultimately have "x \<noteq> pr" using ring by (auto simp: dl_def)
      moreover have "x \<noteq> n" using in_set_butlastD [OF that] dis(3) by auto
      ultimately show ?thesis by (simp add: f)
    qed
    moreover have "lprev ?h x = lprev h x" if "x \<in> set (tl (nx # qs'))" for x
      using that dq dis(3) by (auto simp: f)
    ultimately show ?thesis using lk(2) links_cong [of "nx # qs'" ?h h] by blast
  qed
  have "links ?h (ps' @ pr # n # nx # qs')"
    using 1 2 dis(2,3) by (subst links_app) (auto simp: f)
  then have "links ?h ((c # ps) @ n # qs @ [c])" by (simp only: ps' qs' append_assoc append_Cons append_Nil)
  then show ?thesis using ring new by (auto simp: dl_def)
qed

lemma add_between_frame:
  assumes "dl h c' ys" "{n, pr, nx} \<inter> set (c' # ys) = {}"
  shows "dl (list_add_between n pr nx h) c' ys"
  using assms(2) by (intro dl_frame [OF assms(1)]) (auto simp: list_add_between_def Let_def)

lemma list_add_ok: "dl h c xs \<Longrightarrow> n \<notin> set (c # xs) \<Longrightarrow> dl (list_add n c h) c (n # xs)"
  using add_between_ok [of h c "[]" xs n c "lnext h c"] by (cases xs) (auto simp: list_add_def dl_ends)

lemma list_add_tail_ok: "dl h c xs \<Longrightarrow> n \<notin> set (c # xs) \<Longrightarrow> dl (list_add_tail n c h) c (xs @ [n])"
  using add_between_ok [of h c xs "[]" n "lprev h c" c] by (simp add: list_add_tail_def dl_ends)

lemma list_add_tail_frame:
  assumes "dl h c xs" "dl h c' ys" "set (n # c # xs) \<inter> set (c' # ys) = {}"
  shows "dl (list_add_tail n c h) c' ys"
proof -
  have "lprev h c \<in> set (c # xs)" using dl_ends(2) [OF assms(1)] by simp
  then show ?thesis using assms(3) unfolding list_add_tail_def by (intro add_between_frame [OF assms(2)]) auto
qed

text \<open>Removal of a node of a ring.\<close>

lemma links_neighbours:
  assumes "dl h c (ps @ n # qs)"
  shows "lprev h n = last (c # ps)" "lnext h n = hd (qs @ [c])"
proof -
  have l: "links h ((c # ps) @ n # qs @ [c])" using assms by (simp add: dl_def)
  obtain ps' p where p: "c # ps = ps' @ [p]" "p = last (c # ps)" by (metis append_butlast_last_id list.distinct(1))
  have "links h (ps' @ p # n # qs @ [c])" using l by (simp only: p(1) append_assoc append_Cons append_Nil)
  then show "lprev h n = last (c # ps)" using links_app [of h ps' p "n # qs @ [c]"] p(2) by simp
  have "links h (n # qs @ [c])" using l links_app [of h "c # ps" n "qs @ [c]"] by blast
  then show "lnext h n = hd (qs @ [c])" by (cases qs) auto
qed

lemma del_entry_ok:
  assumes ring: "dl h c (ps @ n # qs)"
  shows "dl (list_del_entry n h) c (ps @ qs)"
proof -
  let ?h = "list_del_entry n h"
  define pr where "pr = last (c # ps)"
  define nx where "nx = hd (qs @ [c])"
  obtain ps' where ps': "c # ps = ps' @ [pr]" unfolding pr_def by (metis append_butlast_last_id list.distinct(1))
  obtain qs' where qs': "qs @ [c] = nx # qs'" unfolding nx_def by (cases qs) auto
  have lk: "links h (ps' @ [pr])" "links h (nx # qs')"
  proof -
    have "links h ((c # ps) @ n # qs @ [c])" using ring by (simp add: dl_def)
    then have "links h (ps' @ pr # n # nx # qs')" by (simp only: ps' qs' append_assoc append_Cons append_Nil)
    then show "links h (ps' @ [pr])" "links h (nx # qs')"
      using links_app [of h ps' pr "n # nx # qs'"] by auto
  qed
  have f: "lnext ?h = (lnext h)(pr := nx)" "lprev ?h = (lprev h)(nx := pr)"
    using links_neighbours [OF ring] by (simp_all add: list_del_entry_def list_del_between_def pr_def nx_def)
  have dp: "distinct (ps' @ [pr])" using ring arg_cong [OF ps', of distinct] by (auto simp: dl_def)
  have dq: "distinct (nx # qs')" using ring arg_cong [OF qs', of distinct] by (auto simp: dl_def)
  have 1: "links ?h (ps' @ [pr])"
  proof -
    have "lprev ?h x = lprev h x" if "x \<in> set (tl (ps' @ [pr]))" for x
    proof -
      have "x \<in> set ps" using that ps' by (metis list.sel(3))
      then have "x \<noteq> nx" using ring nx_def by (cases qs) (auto simp: dl_def)
      then show ?thesis by (simp add: f)
    qed
    moreover have "lnext ?h x = lnext h x" if "x \<in> set (butlast (ps' @ [pr]))" for x
      using that dp by (auto simp: f)
    ultimately show ?thesis using lk(1) links_cong [of "ps' @ [pr]" ?h h] by blast
  qed
  have 2: "links ?h (nx # qs')"
  proof -
    have "lnext ?h x = lnext h x" if "x \<in> set (butlast (nx # qs'))" for x
    proof -
      have "x \<in> set qs" using that qs' by (metis butlast_snoc)
      moreover have "pr \<in> set (c # ps)" using pr_def by (metis last_in_set list.distinct(1))
      ultimately have "x \<noteq> pr" using ring by (auto simp: dl_def)
      then show ?thesis by (simp add: f)
    qed
    moreover have "lprev ?h x = lprev h x" if "x \<in> set (tl (nx # qs'))" for x
      using that dq by (auto simp: f)
    ultimately show ?thesis using lk(2) links_cong [of "nx # qs'" ?h h] by blast
  qed
  have "links ?h (ps' @ pr # nx # qs')" using 1 2 by (subst links_app) (auto simp: f)
  then have "links ?h ((c # ps) @ qs @ [c])" by (simp only: ps' qs' append_assoc append_Cons append_Nil)
  then show ?thesis using ring by (auto simp: dl_def)
qed

lemma del_entry_frame:
  assumes "dl h c xs" "n \<in> set xs" "dl h c' ys" "set (c # xs) \<inter> set (c' # ys) = {}"
  shows "dl (list_del_entry n h) c' ys"
proof -
  obtain ps qs where s: "xs = ps @ n # qs" using assms(2) by (meson split_list)
  have "lprev h n \<in> set (c # xs)" "lnext h n \<in> set (c # xs)"
    using links_neighbours [of h c ps n qs] assms(1) s by (cases qs; auto)+
  then show ?thesis using assms(4) unfolding list_del_entry_def list_del_between_def
    by (intro dl_frame [OF assms(3)]) auto
qed

lemma list_del_reinit_ok:
  assumes "dl h c (ps @ n # qs)"
  shows "dl (list_del_reinit NULL n h) c (ps @ qs)" "dl (list_del_reinit NULL n h) n []"
proof -
  have "n \<notin> set (c # ps @ qs)" using assms by (auto simp: dl_def)
  then show "dl (list_del_reinit NULL n h) c (ps @ qs)"
    by (intro dl_frame [OF del_entry_ok [OF assms]]) (auto simp: list_del_reinit_def list_del_def INIT_LIST_HEAD_def)
  show "dl (list_del_reinit NULL n h) n []" unfolding list_del_reinit_def by (rule INIT_ok)
qed

lemma list_del_reinit_frame:
  assumes "dl h c xs" "n \<in> set xs" "dl h c' ys" "set (c # xs) \<inter> set (c' # ys) = {}"
  shows "dl (list_del_reinit NULL n h) c' ys"
  using assms(2,4) by (intro dl_frame [OF del_entry_frame [OF assms]])
    (auto simp: list_del_reinit_def list_del_def INIT_LIST_HEAD_def)

text \<open>A node in no list stays in none when it is removed again.\<close>

lemma list_del_reinit_single: "dl h n [] \<Longrightarrow> list_del_reinit NULL n h = h"
  by (simp add: list_del_reinit_def list_del_def list_del_entry_def list_del_between_def INIT_LIST_HEAD_def dl_def
      set_next_def set_prev_def fun_upd_idem)

lemma list_for_each_ok: "dl h c xs \<Longrightarrow> list_for_each (lnext h c) c h = Some xs"
proof -
  assume d: "dl h c xs"
  have "links h (ys @ [c]) \<Longrightarrow> c \<notin> set ys \<Longrightarrow> list_for_each (hd (ys @ [c])) c h = Some ys" for ys
  proof (induction ys)
    case (Cons y ys)
    have "lnext h y = hd (ys @ [c])" "links h (ys @ [c])" using Cons.prems(1) by (cases ys; simp)+
    then show ?case using Cons by (subst list_for_each.simps) auto
  qed (subst list_for_each.simps; simp)
  moreover have "links h (xs @ [c])" "c \<notin> set xs" using d by (cases xs; auto simp: dl_def)+
  moreover have "lnext h c = hd (xs @ [c])" using dl_ends(1) [OF d] by (cases xs) auto
  ultimately show ?thesis by simp
qed

section \<open>Several rings in one heap\<close>

text \<open>\<open>rings h H R\<close>: the heads \<open>H\<close> have the disjoint rings \<open>R\<close>.  A node that is in no list but linked to
  itself is a ring of its own.\<close>

definition rings :: "'a lheap \<Rightarrow> 'a set \<Rightarrow> ('a \<Rightarrow> 'a list) \<Rightarrow> bool" where
  "rings h H R \<longleftrightarrow> (\<forall>c\<in>H. dl h c (R c)) \<and> (\<forall>c\<in>H. \<forall>d\<in>H. c \<noteq> d \<longrightarrow> set (c # R c) \<inter> set (d # R d) = {})"

lemma rings_dl: "rings h H R \<Longrightarrow> c \<in> H \<Longrightarrow> dl h c (R c)"
  by (simp add: rings_def)

lemma rings_disjoint: "rings h H R \<Longrightarrow> c \<in> H \<Longrightarrow> d \<in> H \<Longrightarrow> c \<noteq> d \<Longrightarrow> set (c # R c) \<inter> set (d # R d) = {}"
  by (simp add: rings_def)

lemma rings_distinct: "rings h H R \<Longrightarrow> c \<in> H \<Longrightarrow> distinct (c # R c)"
  by (auto simp: rings_def dl_def)

lemma rings_push:
  assumes r: "rings h H R" and c: "c \<in> H" "n \<noteq> c" and n: "n \<in> H \<Longrightarrow> R n = []" "\<And>d. d \<in> H \<Longrightarrow> n \<notin> set (R d)"
  shows "rings (list_add_tail n c h) (H - {n}) (R(c := R c @ [n]))"
  unfolding rings_def
proof (intro conjI ballI impI)
  fix d assume d: "d \<in> H - {n}"
  show "dl (list_add_tail n c h) d ((R(c := R c @ [n])) d)"
  proof (cases "d = c")
    case True
    then show ?thesis using list_add_tail_ok [OF rings_dl [OF r c(1)], of n] c(2) n(2) [OF c(1)] by simp
  next
    case False
    have "set (n # c # R c) \<inter> set (d # R d) = {}"
      using rings_disjoint [OF r c(1), of d] d False n(2) [of d] by auto
    then show ?thesis using list_add_tail_frame [OF rings_dl [OF r c(1)] rings_dl [OF r, of d], of n] d False by simp
  qed
next
  fix d e assume de: "d \<in> H - {n}" "e \<in> H - {n}" "d \<noteq> e"
  then have "set (d # R d) \<inter> set (e # R e) = {}" using rings_disjoint [OF r] by simp
  then show "set (d # (R(c := R c @ [n])) d) \<inter> set (e # (R(c := R c @ [n])) e) = {}"
    using de n(2) [of d] n(2) [of e] by auto
qed

lemma rings_remove:
  assumes r: "rings h H R" and c: "c \<in> H" and n: "n \<in> set (R c)"
  shows "rings (list_del_reinit NULL n h) (insert n H) (R(c := remove1 n (R c), n := []))" "n \<notin> H"
proof -
  have nc: "n \<noteq> c" using rings_distinct [OF r c] n by auto
  show nH: "n \<notin> H" using rings_disjoint [OF r c, of n] n nc by auto
  obtain ps qs where s: "R c = ps @ n # qs" "n \<notin> set ps" using n by (meson split_list_first)
  have nq: "n \<notin> set (ps @ qs)" "remove1 n (R c) = ps @ qs" using rings_distinct [OF r c] s by (auto simp: remove1_append)
  have ring: "dl h c (ps @ n # qs)" using rings_dl [OF r c] s(1) by simp
  have sub: "set (c # ps @ qs) \<subseteq> set (c # R c)" using s(1) by auto
  show "rings (list_del_reinit NULL n h) (insert n H) (R(c := remove1 n (R c), n := []))"
    unfolding rings_def
  proof (intro conjI ballI impI)
    fix d assume d: "d \<in> insert n H"
    show "dl (list_del_reinit NULL n h) d ((R(c := remove1 n (R c), n := [])) d)"
    proof (cases "d = n")
      case True
      then show ?thesis using list_del_reinit_ok(2) [OF ring] by simp
    next
      case False
      show ?thesis
      proof (cases "d = c")
        case True
        then show ?thesis using list_del_reinit_ok(1) [OF ring] nq(2) nc by simp
      next
        case dc: False
        then show ?thesis
          using list_del_reinit_frame [OF rings_dl [OF r c] n rings_dl [OF r, of d]] rings_disjoint [OF r c, of d] d False by auto
      qed
    qed
  next
    fix d e assume de: "d \<in> insert n H" "e \<in> insert n H" "d \<noteq> e"
    have off: "n \<notin> set (d # R d)" if "d \<in> H" "d \<noteq> c" for d
      using rings_disjoint [OF r c that(1)] that n by auto
    have dis: "set (d # R d) \<inter> set (e # R e) = {}" if "d \<in> H" "e \<in> H" "d \<noteq> e" for d e
      using rings_disjoint [OF r that] .
    have subc: "set (remove1 n (R c)) \<subseteq> set (R c)" "n \<notin> set (remove1 n (R c))" using nq s(1) by auto
    show "set (d # (R(c := remove1 n (R c), n := [])) d) \<inter> set (e # (R(c := remove1 n (R c), n := [])) e) = {}"
    proof (cases "d = n \<or> e = n")
      case True
      then show ?thesis using de off [of d] off [of e] subc nc by auto
    next
      case False
      then have "d \<in> H" "e \<in> H" using de by auto
      then show ?thesis using dis [of d e] subc False de(3) by auto
    qed
  qed
qed

lemma rings_single: "rings h H R \<Longrightarrow> n \<in> H \<Longrightarrow> R n = [] \<Longrightarrow> list_del_reinit NULL n h = h"
  using rings_dl [of h H R n] by (simp add: list_del_reinit_single)

lemma rings_init:
  assumes r: "rings h H R" and n: "\<And>d. d \<in> H \<Longrightarrow> n \<notin> set (d # R d)"
  shows "rings (INIT_LIST_HEAD n h) (insert n H) (R(n := []))"
  using assms INIT_ok [of n h] INIT_frame [OF rings_dl [OF r], of _ n]
  by (fastforce simp: rings_def)

lemma rings_empty: "rings h H R \<Longrightarrow> c \<in> H \<Longrightarrow> list_empty c h \<longleftrightarrow> R c = []"
  by (rule list_empty_ok [OF rings_dl])

lemma rings_first: "rings h H R \<Longrightarrow> c \<in> H \<Longrightarrow> R c = n # xs \<Longrightarrow> lnext h c = n"
  using dl_ends(1) [OF rings_dl] by fastforce

end
