(* ===== verification/Sched.thy ===== *)
theory Sched
  imports Klist
begin

text \<open>
  Thread queues and the operations that move threads between them: \<^verbatim>\<open>src/lib/queue.c\<close>,
  \<^verbatim>\<open>src/proc/sched.c\<close>, \<^verbatim>\<open>src/atomic/cond.c\<close> and \<^verbatim>\<open>src/atomic/semaphore.c\<close>.  The lists are those of
  \<^verbatim>\<open>include/lib/list.h\<close> in one heap; an address is the head of a queue or the list node embedded in a
  thread or process.  A function that the code brackets with a spin lock is one atomic step here;
  \<^verbatim>\<open>cond_signal\<close>, which takes several locks in turn, is also given step by step.
\<close>

section \<open>Queues\<close>

datatype thread_state = TCB_UNUSED | TCB_USED | TCB_RUNNABLE | TCB_RUNNING | TCB_SLEEPING

datatype procstate = PCB_UNUSED | PCB_USED | PCB_ZOMBIE

datatype queue_type = TCB_STATE_QUEUE | PCB_STATE_QUEUE | TCB_WAIT_QUEUE | INODE_FREE_QUEUE

text \<open>The heads of the state queues, those of the wait queues, which a number identifies, and the
  nodes \<^verbatim>\<open>state_list\<close> and \<^verbatim>\<open>wait_list\<close>.\<close>

datatype laddr = LNULL | QHead thread_state | PHead procstate | WHead nat | StateL nat | PStateL nat | WaitL nat

record queue =
  q_head :: laddr
  q_type :: queue_type

definition Queue_init :: "queue \<Rightarrow> laddr lheap \<Rightarrow> laddr lheap" where
  "Queue_init q h = INIT_LIST_HEAD (q_head q) h"

definition Queue_isempty :: "queue \<Rightarrow> laddr lheap \<Rightarrow> bool" where
  "Queue_isempty q h = list_empty (q_head q) h"

fun queue_entry :: "nat \<Rightarrow> queue_type \<Rightarrow> laddr option" where
  "queue_entry node TCB_STATE_QUEUE = Some (StateL node)"
| "queue_entry node PCB_STATE_QUEUE = Some (PStateL node)"
| "queue_entry node TCB_WAIT_QUEUE = Some (WaitL node)"
| "queue_entry node INODE_FREE_QUEUE = None"

text \<open>\<^verbatim>\<open>list_first_entry\<close>: the thread or process that contains the first list node.\<close>

definition queue_first_node :: "queue \<Rightarrow> laddr lheap \<Rightarrow> nat option" where
  "queue_first_node q h =
     (case (q_type q, lnext h (q_head q)) of
        (TCB_STATE_QUEUE, StateL i) \<Rightarrow> Some i
      | (PCB_STATE_QUEUE, PStateL i) \<Rightarrow> Some i
      | (TCB_WAIT_QUEUE, WaitL i) \<Rightarrow> Some i
      | _ \<Rightarrow> None)"

definition Queue_push_back :: "queue \<Rightarrow> nat \<Rightarrow> laddr lheap \<Rightarrow> laddr lheap option" where
  "Queue_push_back q node h = do {
     l \<leftarrow> queue_entry node (q_type q);
     Some (list_add_tail l (q_head q) h)
   }"

definition Queue_remove :: "nat \<Rightarrow> queue_type \<Rightarrow> laddr lheap \<Rightarrow> laddr lheap option" where
  "Queue_remove node type h = do {
     l \<leftarrow> queue_entry node type;
     Some (list_del_reinit LNULL l h)
   }"

definition Queue_remove_atomic :: "queue \<Rightarrow> nat \<Rightarrow> laddr lheap \<Rightarrow> laddr lheap option" where
  "Queue_remove_atomic q node h = Queue_remove node (q_type q) h"

definition Queue_pop :: "queue \<Rightarrow> bool \<Rightarrow> laddr lheap \<Rightarrow> (laddr lheap \<times> nat option) option" where
  "Queue_pop q rem h =
     (if Queue_isempty q h then Some (h, None)
      else do {
        node \<leftarrow> queue_first_node q h;
        h1 \<leftarrow> (if rem then Queue_remove node (q_type q) h else Some h);
        Some (h1, Some node)
      })"

section \<open>Scheduling states\<close>

record sched =
  heap :: "laddr lheap"
  tstate :: "nat \<Rightarrow> thread_state"
  pstate :: "nat \<Rightarrow> procstate"
  wait_chan_entry :: "nat \<Rightarrow> queue option"
  tkilled :: "nat \<Rightarrow> bool"

text \<open>The arrays \<^verbatim>\<open>STATES\<close> and \<^verbatim>\<open>T_STATES\<close>: there is no queue of the running threads.\<close>

definition STATES :: "procstate \<Rightarrow> queue" where
  "STATES st = \<lparr>q_head = PHead st, q_type = PCB_STATE_QUEUE\<rparr>"

definition T_STATES :: "thread_state \<Rightarrow> queue option" where
  "T_STATES st = (if st = TCB_RUNNING then None else Some \<lparr>q_head = QHead st, q_type = TCB_STATE_QUEUE\<rparr>)"

definition TCB_Q_ALL_INIT :: "laddr lheap \<Rightarrow> laddr lheap" where
  "TCB_Q_ALL_INIT h =
     fold (\<lambda>st. INIT_LIST_HEAD (QHead st)) [TCB_UNUSED, TCB_USED, TCB_RUNNABLE, TCB_SLEEPING] h"

definition PCB_Q_ALL_INIT :: "laddr lheap \<Rightarrow> laddr lheap" where
  "PCB_Q_ALL_INIT h = fold (\<lambda>st. Queue_init (STATES st)) [PCB_UNUSED, PCB_USED, PCB_ZOMBIE] h"

definition PCB_Q_changeState :: "nat \<Rightarrow> procstate \<Rightarrow> sched \<Rightarrow> sched option" where
  "PCB_Q_changeState p new s = do {
     h1 \<leftarrow> Queue_remove_atomic (STATES (pstate s p)) p (heap s);
     h2 \<leftarrow> Queue_push_back (STATES new) p h1;
     Some (s\<lparr>heap := h2, pstate := (pstate s)(p := new)\<rparr>)
   }"

definition TCB_Q_changeState :: "nat \<Rightarrow> thread_state \<Rightarrow> sched \<Rightarrow> sched option" where
  "TCB_Q_changeState t new s = do {
     h1 \<leftarrow> (if tstate s t \<noteq> TCB_RUNNING then do {
              q_old \<leftarrow> T_STATES (tstate s t);
              Queue_remove_atomic q_old t (heap s)
            }
            else Queue_remove t TCB_STATE_QUEUE (heap s));
     q_new \<leftarrow> T_STATES new;
     h2 \<leftarrow> Queue_push_back q_new t h1;
     Some (s\<lparr>heap := h2, tstate := (tstate s)(t := new)\<rparr>)
   }"

text \<open>The thread table at boot: every thread is unused.\<close>

primrec tcb_init_loop :: "nat \<Rightarrow> laddr lheap \<Rightarrow> laddr lheap option" where
  "tcb_init_loop 0 h = Some h"
| "tcb_init_loop (Suc n) h = do {
     h1 \<leftarrow> tcb_init_loop n h;
     q \<leftarrow> T_STATES TCB_UNUSED;
     Queue_push_back q n h1
   }"

definition tcb_init :: "nat \<Rightarrow> sched \<Rightarrow> sched option" where
  "tcb_init ntcb s = do {
     h \<leftarrow> tcb_init_loop ntcb (TCB_Q_ALL_INIT (heap s));
     Some (s\<lparr>heap := h, tstate := (\<lambda>i. if i < ntcb then TCB_UNUSED else tstate s i)\<rparr>)
   }"

definition thread_wakeup :: "nat \<Rightarrow> sched \<Rightarrow> sched option" where
  "thread_wakeup t s = do {
     q \<leftarrow> wait_chan_entry s t;
     h \<leftarrow> Queue_remove_atomic q t (heap s);
     ASSERT (tstate s t = TCB_SLEEPING);
     TCB_Q_changeState t TCB_RUNNABLE (s\<lparr>heap := h, wait_chan_entry := (wait_chan_entry s)(t := None)\<rparr>)
   }"

definition thread_wakeup_atomic :: "nat \<Rightarrow> sched \<Rightarrow> sched option" where
  "thread_wakeup_atomic t s = thread_wakeup t s"

text \<open>\<^verbatim>\<open>thread_yield\<close> up to the switch to the scheduler.\<close>

definition thread_yield :: "nat \<Rightarrow> sched \<Rightarrow> sched option" where
  "thread_yield t s = TCB_Q_changeState t TCB_RUNNABLE s"

text \<open>One round of \<^verbatim>\<open>thread_scheduler\<close>: the thread it switches to, if any.\<close>

definition thread_scheduler :: "sched \<Rightarrow> (sched \<times> nat option) option" where
  "thread_scheduler s = do {
     q \<leftarrow> T_STATES TCB_RUNNABLE;
     (h, r) \<leftarrow> Queue_pop q True (heap s);
     case r of
       None \<Rightarrow> Some (s\<lparr>heap := h\<rparr>, None)
     | Some t \<Rightarrow> Some (s\<lparr>heap := h, tstate := (tstate s)(t := TCB_RUNNING)\<rparr>, Some t)
   }"

section \<open>Condition variables\<close>

text \<open>A condition variable is its wait queue.\<close>

definition cond_queue :: "nat \<Rightarrow> queue" where
  "cond_queue w = \<lparr>q_head = WHead w, q_type = TCB_WAIT_QUEUE\<rparr>"

definition cond_init :: "nat \<Rightarrow> sched \<Rightarrow> sched" where
  "cond_init w s = s\<lparr>heap := Queue_init (cond_queue w) (heap s)\<rparr>"

text \<open>\<^verbatim>\<open>cond_wait\<close> up to the switch to the scheduler.\<close>

definition cond_wait :: "nat \<Rightarrow> nat \<Rightarrow> sched \<Rightarrow> sched option" where
  "cond_wait w t s = do {
     s1 \<leftarrow> TCB_Q_changeState t TCB_SLEEPING s;
     h \<leftarrow> Queue_push_back (cond_queue w) t (heap s1);
     Some (s1\<lparr>heap := h, wait_chan_entry := (wait_chan_entry s1)(t := Some (cond_queue w))\<rparr>)
   }"

text \<open>The rest of \<^verbatim>\<open>cond_wait\<close>, when the thread runs again: it goes on to take the mutex, unless it has been
  killed, and then it never returns but calls \<^verbatim>\<open>do_exit\<close>.\<close>

definition cond_return :: "nat \<Rightarrow> sched \<Rightarrow> bool" where
  "cond_return t s \<longleftrightarrow> \<not> tkilled s t"

definition thread_setkilled :: "nat \<Rightarrow> sched \<Rightarrow> sched" where
  "thread_setkilled t s = s\<lparr>tkilled := (tkilled s)(t := True)\<rparr>"

text \<open>\<^verbatim>\<open>cond_signal\<close> locks the queue twice and then the thread, so that it has three steps: the test,
  taking a thread off the queue, and making the thread in hand runnable.  A null thread is
  dereferenced before the test for it.\<close>

definition cond_take :: "nat \<Rightarrow> sched \<Rightarrow> (sched \<times> nat option) option" where
  "cond_take w s = do {
     (h, r) \<leftarrow> Queue_pop (cond_queue w) True (heap s);
     Some (s\<lparr>heap := h\<rparr>, r)
   }"

definition cond_wake :: "nat option \<Rightarrow> sched \<Rightarrow> sched option" where
  "cond_wake r s = do {
     t \<leftarrow> r;
     ASSERT (tstate s t = TCB_SLEEPING);
     ASSERT (wait_chan_entry s t \<noteq> None);
     TCB_Q_changeState t TCB_RUNNABLE (s\<lparr>wait_chan_entry := (wait_chan_entry s)(t := None)\<rparr>)
   }"

definition wake_first :: "nat \<Rightarrow> sched \<Rightarrow> sched option" where
  "wake_first w s = do {
     (s1, r) \<leftarrow> cond_take w s;
     cond_wake r s1
   }"

definition cond_signal :: "nat \<Rightarrow> sched \<Rightarrow> sched option" where
  "cond_signal w s = (if \<not> Queue_isempty (cond_queue w) (heap s) then wake_first w s else Some s)"

partial_function (option) cond_broadcast :: "nat \<Rightarrow> sched \<Rightarrow> sched option" where
  "cond_broadcast w s =
     (if \<not> Queue_isempty (cond_queue w) (heap s) then Option.bind (wake_first w s) (cond_broadcast w) else Some s)"

section \<open>Semaphores\<close>

text \<open>Both counters are of type \<^verbatim>\<open>int\<close>: their overflow is undefined.\<close>

record semaphore =
  sem_value :: int
  sem_wakeup :: int

definition sema_init :: "int \<Rightarrow> semaphore" where
  "sema_init v = \<lparr>sem_value = v, sem_wakeup = 0\<rparr>"

text \<open>\<^verbatim>\<open>sema_wait\<close> up to the first switch: the flag tells that the thread sleeps.\<close>

definition sema_wait :: "nat \<Rightarrow> nat \<Rightarrow> semaphore \<Rightarrow> sched \<Rightarrow> (semaphore \<times> sched \<times> bool) option" where
  "sema_wait w t S s = do {
     ASSERT (int_ok (sem_value S - 1));
     let S1 = S\<lparr>sem_value := sem_value S - 1\<rparr>;
     if sem_value S1 < 0 then do { s1 \<leftarrow> cond_wait w t s; Some (S1, s1, True) } else Some (S1, s, False)
   }"

text \<open>From a return of \<^verbatim>\<open>cond_wait\<close> in the loop to the end of \<^verbatim>\<open>sema_wait\<close> or the next switch.\<close>

definition sema_resume :: "nat \<Rightarrow> nat \<Rightarrow> semaphore \<Rightarrow> sched \<Rightarrow> (semaphore \<times> sched \<times> bool) option" where
  "sema_resume w t S s =
     (if sem_wakeup S = 0 then do { s1 \<leftarrow> cond_wait w t s; Some (S, s1, True) }
      else do {
        ASSERT (int_ok (sem_wakeup S - 1));
        Some (S\<lparr>sem_wakeup := sem_wakeup S - 1\<rparr>, s, False)
      })"

text \<open>\<^verbatim>\<open>sema_signal\<close>: the counters, with a flag that tells whether it goes on to \<^verbatim>\<open>cond_signal\<close>, and the
  whole function.\<close>

definition sema_post :: "semaphore \<Rightarrow> (semaphore \<times> bool) option" where
  "sema_post S = do {
     ASSERT (int_ok (sem_value S + 1));
     let S1 = S\<lparr>sem_value := sem_value S + 1\<rparr>;
     if sem_value S1 \<le> 0 then do {
       ASSERT (int_ok (sem_wakeup S1 + 1));
       Some (S1\<lparr>sem_wakeup := sem_wakeup S1 + 1\<rparr>, True)
     }
     else Some (S1, False)
   }"

definition sema_signal :: "nat \<Rightarrow> semaphore \<Rightarrow> sched \<Rightarrow> (semaphore \<times> sched) option" where
  "sema_signal w S s = do {
     (S1, wake) \<leftarrow> sema_post S;
     s1 \<leftarrow> (if wake then cond_signal w s else Some s);
     Some (S1, s1)
   }"

end
