(* ===== verification/Sched_Correct.thy ===== *)
theory Sched_Correct
  imports Sched
begin

text \<open>
  The invariant of the thread queues: every thread that is not running is in the queue of its
  state, every waiting thread is in the queue its \<^verbatim>\<open>wait_chan_entry\<close> names, and waiting threads sleep.
  Every operation keeps it and none panics.
\<close>

section \<open>The invariant\<close>

text \<open>\<open>N\<close> threads, \<open>M\<close> processes and the wait queues \<open>W\<close>; \<open>H\<close> and \<open>R\<close> are the rings of the heap.\<close>

definition sched_rep :: "nat \<Rightarrow> nat \<Rightarrow> nat set \<Rightarrow> sched \<Rightarrow> laddr set \<Rightarrow> (laddr \<Rightarrow> laddr list) \<Rightarrow> bool" where
  "sched_rep N M W s H R \<longleftrightarrow> rings (heap s) H R \<and>
     (\<forall>st. st \<noteq> TCB_RUNNING \<longrightarrow> QHead st \<in> H \<and> set (R (QHead st)) = StateL ` {t. t < N \<and> tstate s t = st}) \<and>
     QHead TCB_RUNNING \<notin> H \<and>
     (\<forall>t<N. tstate s t = TCB_RUNNING \<longrightarrow> StateL t \<in> H) \<and>
     (\<forall>st. PHead st \<in> H \<and> set (R (PHead st)) = PStateL ` {p. p < M \<and> pstate s p = st}) \<and>
     (\<forall>w. WHead w \<in> H \<longleftrightarrow> w \<in> W) \<and>
     (\<forall>w\<in>W. set (R (WHead w)) = WaitL ` {t. t < N \<and> wait_chan_entry s t = Some (cond_queue w)}) \<and>
     (\<forall>t<N. \<forall>q. wait_chan_entry s t = Some q \<longrightarrow> tstate s t = TCB_SLEEPING \<and> (\<exists>w\<in>W. q = cond_queue w)) \<and>
     (\<forall>c\<in>H. (\<forall>st. c \<noteq> QHead st) \<and> (\<forall>st. c \<noteq> PHead st) \<and> (\<forall>w. c \<noteq> WHead w) \<longrightarrow> R c = [])"

lemma cond_queue_eq [simp]: "cond_queue w = cond_queue v \<longleftrightarrow> w = v"
  by (auto simp: cond_queue_def)

lemma cond_queue_sel [simp]: "q_head (cond_queue w) = WHead w" "q_type (cond_queue w) = TCB_WAIT_QUEUE"
  by (simp_all add: cond_queue_def)

lemma rep_rings: "sched_rep N M W s H R \<Longrightarrow> rings (heap s) H R"
  by (simp add: sched_rep_def)

lemma rep_state: "sched_rep N M W s H R \<Longrightarrow> st \<noteq> TCB_RUNNING \<Longrightarrow>
    QHead st \<in> H \<and> set (R (QHead st)) = StateL ` {t. t < N \<and> tstate s t = st}"
  by (simp add: sched_rep_def)

lemma rep_wait: "sched_rep N M W s H R \<Longrightarrow> w \<in> W \<Longrightarrow>
    WHead w \<in> H \<and> set (R (WHead w)) = WaitL ` {t. t < N \<and> wait_chan_entry s t = Some (cond_queue w)}"
  by (simp add: sched_rep_def)

lemma rep_proc: "sched_rep N M W s H R \<Longrightarrow> PHead st \<in> H \<and> set (R (PHead st)) = PStateL ` {p. p < M \<and> pstate s p = st}"
  by (simp add: sched_rep_def)

lemma rep_chan: "sched_rep N M W s H R \<Longrightarrow> t < N \<Longrightarrow> wait_chan_entry s t = Some q \<Longrightarrow>
    tstate s t = TCB_SLEEPING \<and> (\<exists>w\<in>W. q = cond_queue w)"
  by (simp add: sched_rep_def)

text \<open>Where a node can be.\<close>

lemma rep_mem:
  assumes r: "sched_rep N M W s H R" and d: "d \<in> H" "x \<in> set (R d)"
  shows "(\<exists>st t. d = QHead st \<and> st \<noteq> TCB_RUNNING \<and> x = StateL t \<and> t < N \<and> tstate s t = st) \<or>
    (\<exists>st p. d = PHead st \<and> x = PStateL p \<and> p < M \<and> pstate s p = st) \<or>
    (\<exists>w t. d = WHead w \<and> w \<in> W \<and> x = WaitL t \<and> t < N \<and> wait_chan_entry s t = Some (cond_queue w))"
proof (cases d)
  case (QHead st)
  then have "st \<noteq> TCB_RUNNING" using r d(1) by (auto simp: sched_rep_def)
  then show ?thesis using rep_state [OF r] d(2) QHead by auto
next
  case (PHead st)
  then show ?thesis using rep_proc [OF r] d(2) by auto
next
  case (WHead w)
  then have "w \<in> W" using r d(1) by (simp add: sched_rep_def)
  then show ?thesis using rep_wait [OF r] d(2) WHead by auto
qed (use r d in \<open>auto simp: sched_rep_def\<close>)

section \<open>Changing the state of a thread\<close>

text \<open>The rings after a thread has moved from the queue of one state to the end of another.\<close>

definition off_queue :: "nat \<Rightarrow> thread_state \<Rightarrow> (laddr \<Rightarrow> laddr list) \<Rightarrow> laddr \<Rightarrow> laddr list" where
  "off_queue t old R = (if old = TCB_RUNNING then R
     else R(QHead old := remove1 (StateL t) (R (QHead old)), StateL t := []))"

definition moved :: "nat \<Rightarrow> thread_state \<Rightarrow> thread_state \<Rightarrow> (laddr \<Rightarrow> laddr list) \<Rightarrow> laddr \<Rightarrow> laddr list" where
  "moved t old new R = (let R1 = off_queue t old R in R1(QHead new := R1 (QHead new) @ [StateL t]))"

lemma off_queue_ok:
  assumes r: "sched_rep N M W s H R" and t: "t < N"
  shows "rings (list_del_reinit LNULL (StateL t) (heap s)) (insert (StateL t) H) (off_queue t (tstate s t) R)"
    "off_queue t (tstate s t) R (StateL t) = []"
    "d \<in> insert (StateL t) H \<Longrightarrow> StateL t \<notin> set (off_queue t (tstate s t) R d)"
    "st \<noteq> TCB_RUNNING \<Longrightarrow> set (off_queue t (tstate s t) R (QHead st)) = StateL ` {u. u < N \<and> tstate s u = st \<and> u \<noteq> t}"
proof -
  have rr: "rings (heap s) H R" using r by (rule rep_rings)
  let ?R = "off_queue t (tstate s t) R"
  have run: "StateL t \<in> H" "R (StateL t) = []" if "tstate s t = TCB_RUNNING"
    using r t that by (auto simp: sched_rep_def)
  have in_q: "QHead (tstate s t) \<in> H" "StateL t \<in> set (R (QHead (tstate s t)))" if "tstate s t \<noteq> TCB_RUNNING"
    using rep_state [OF r that] t by auto
  show 1: "rings (list_del_reinit LNULL (StateL t) (heap s)) (insert (StateL t) H) ?R"
  proof (cases "tstate s t = TCB_RUNNING")
    case True
    then show ?thesis using rings_single [OF rr run] rr run(1) by (simp add: off_queue_def insert_absorb)
  next
    case False
    then show ?thesis using rings_remove(1) [OF rr in_q] by (simp add: off_queue_def)
  qed
  show 2: "?R (StateL t) = []" using run by (simp add: off_queue_def)
  show "StateL t \<notin> set (?R d)" if d: "d \<in> insert (StateL t) H" for d
  proof (cases "d = StateL t")
    case False
    then show ?thesis using rings_disjoint [OF 1, of "StateL t" d] d by auto
  qed (simp add: 2)
  show "set (?R (QHead st)) = StateL ` {u. u < N \<and> tstate s u = st \<and> u \<noteq> t}" if "st \<noteq> TCB_RUNNING"
    using rep_state [OF r that] rings_distinct [OF rr, of "QHead st"] that by (auto simp: off_queue_def)
qed

lemma changeState_ok:
  assumes r: "sched_rep N M W s H R" and t: "t < N" and new: "new \<noteq> TCB_RUNNING"
    and chan: "wait_chan_entry s t = None"
  shows "\<exists>h. TCB_Q_changeState t new s = Some (s\<lparr>heap := h, tstate := (tstate s)(t := new)\<rparr>) \<and>
    sched_rep N M W (s\<lparr>heap := h, tstate := (tstate s)(t := new)\<rparr>) (H - {StateL t}) (moved t (tstate s t) new R)"
proof -
  let ?h1 = "list_del_reinit LNULL (StateL t) (heap s)"
  let ?h2 = "list_add_tail (StateL t) (QHead new) ?h1"
  let ?R1 = "off_queue t (tstate s t) R"
  let ?s = "s\<lparr>heap := ?h2, tstate := (tstate s)(t := new)\<rparr>"
  have run: "TCB_Q_changeState t new s = Some ?s"
    using new by (simp add: TCB_Q_changeState_def T_STATES_def Queue_remove_atomic_def Queue_remove_def Queue_push_back_def)
  have R2: "moved t (tstate s t) new R = ?R1(QHead new := ?R1 (QHead new) @ [StateL t])"
    by (simp add: moved_def Let_def)
  have "rings ?h2 (insert (StateL t) H - {StateL t}) (?R1(QHead new := ?R1 (QHead new) @ [StateL t]))"
    using off_queue_ok [OF r t] rep_state [OF r new] by (intro rings_push) auto
  then have "rings ?h2 (H - {StateL t}) (moved t (tstate s t) new R)" by (simp add: R2)
  moreover have same: "?R1 c = R c" if "c \<noteq> StateL t" "\<forall>st. c \<noteq> QHead st" for c
    using that by (simp add: off_queue_def)
  moreover have "set (moved t (tstate s t) new R (QHead st)) = StateL ` {u. u < N \<and> ((tstate s)(t := new)) u = st}"
    if "st \<noteq> TCB_RUNNING" for st
    using off_queue_ok(4) [OF r t that] t by (auto simp: R2)
  moreover have "moved t (tstate s t) new R c = R c" if "c \<noteq> StateL t" "\<forall>st. c \<noteq> QHead st" for c
    using same [OF that] that by (simp add: R2)
  ultimately have "sched_rep N M W ?s (H - {StateL t}) (moved t (tstate s t) new R)"
    using r new chan unfolding sched_rep_def by auto
  then show ?thesis using run by blast
qed

text \<open>Processes.\<close>

lemma PCB_changeState_ok:
  assumes r: "sched_rep N M W s H R" and p: "p < M"
  shows "\<exists>s' H' R'. PCB_Q_changeState p new s = Some s' \<and> sched_rep N M W s' H' R' \<and>
    pstate s' = (pstate s)(p := new) \<and> tstate s' = tstate s \<and> wait_chan_entry s' = wait_chan_entry s"
proof -
  let ?old = "pstate s p"
  let ?h1 = "list_del_reinit LNULL (PStateL p) (heap s)"
  let ?R1 = "R(PHead ?old := remove1 (PStateL p) (R (PHead ?old)), PStateL p := [])"
  let ?h2 = "list_add_tail (PStateL p) (PHead new) ?h1"
  let ?R2 = "?R1(PHead new := ?R1 (PHead new) @ [PStateL p])"
  let ?s = "s\<lparr>heap := ?h2, pstate := (pstate s)(p := new)\<rparr>"
  have rr: "rings (heap s) H R" using r by (rule rep_rings)
  have mem: "PStateL p \<in> set (R (PHead ?old))" "PHead ?old \<in> H" using rep_proc [OF r, of ?old] p by auto
  have 1: "rings ?h1 (insert (PStateL p) H) ?R1" using rings_remove(1) [OF rr mem(2,1)] .
  have nH: "PStateL p \<notin> H" using rings_remove(2) [OF rr mem(2,1)] .
  have off: "PStateL p \<notin> set (?R1 d)" if "d \<in> insert (PStateL p) H" for d
  proof (cases "d = PStateL p")
    case False
    then show ?thesis using rings_disjoint [OF 1, of "PStateL p" d] that by auto
  qed simp
  have "rings ?h2 (insert (PStateL p) H - {PStateL p}) ?R2"
    using rep_proc [OF r, of new] by (intro rings_push [OF 1]) (use off in auto)
  then have "rings ?h2 H ?R2" using nH by simp
  moreover have "set (?R1 (PHead st)) = PStateL ` {q. q < M \<and> pstate s q = st \<and> q \<noteq> p}" for st
    using rep_proc [OF r, of st] rings_distinct [OF rr, of "PHead st"] by auto
  then have "set (?R2 (PHead st)) = PStateL ` {q. q < M \<and> ((pstate s)(p := new)) q = st}" for st
    using p by auto
  ultimately have "sched_rep N M W ?s H ?R2"
    using r nH unfolding sched_rep_def by auto
  moreover have "PCB_Q_changeState p new s = Some ?s"
    by (simp add: PCB_Q_changeState_def STATES_def Queue_remove_atomic_def Queue_remove_def Queue_push_back_def)
  ultimately show ?thesis by (intro exI [of _ ?s] exI [of _ H] exI [of _ ?R2]) simp
qed

section \<open>Waiting and waking\<close>

text \<open>A waiting thread taken off its wait queue.\<close>

lemma unwait_ok:
  assumes r: "sched_rep N M W s H R" and t: "t < N" and q: "wait_chan_entry s t = Some (cond_queue w)"
  shows "w \<in> W" "tstate s t = TCB_SLEEPING"
    "sched_rep N M W (s\<lparr>heap := list_del_reinit LNULL (WaitL t) (heap s), wait_chan_entry := (wait_chan_entry s)(t := None)\<rparr>)
       (insert (WaitL t) H) (R(WHead w := remove1 (WaitL t) (R (WHead w)), WaitL t := []))"
proof -
  show w: "w \<in> W" and "tstate s t = TCB_SLEEPING" using rep_chan [OF r t q] by auto
  let ?s = "s\<lparr>heap := list_del_reinit LNULL (WaitL t) (heap s), wait_chan_entry := (wait_chan_entry s)(t := None)\<rparr>"
  let ?R = "R(WHead w := remove1 (WaitL t) (R (WHead w)), WaitL t := [])"
  have rr: "rings (heap s) H R" using r by (rule rep_rings)
  have mem: "WHead w \<in> H" "WaitL t \<in> set (R (WHead w))" using rep_wait [OF r w] t q by auto
  have "rings (heap ?s) (insert (WaitL t) H) ?R" using rings_remove(1) [OF rr mem] by simp
  moreover have "set (?R (WHead v)) = WaitL ` {u. u < N \<and> ((wait_chan_entry s)(t := None)) u = Some (cond_queue v)}" if "v \<in> W" for v
    using rep_wait [OF r that] rings_distinct [OF rr, of "WHead v"] q by auto
  ultimately show "sched_rep N M W ?s (insert (WaitL t) H) ?R"
    using r unfolding sched_rep_def by auto
qed

lemma wakeup_ok:
  assumes r: "sched_rep N M W s H R" and t: "t < N" and q: "wait_chan_entry s t \<noteq> None"
  shows "\<exists>s' H' R'. thread_wakeup t s = Some s' \<and> sched_rep N M W s' H' R' \<and>
    tstate s' = (tstate s)(t := TCB_RUNNABLE) \<and> wait_chan_entry s' = (wait_chan_entry s)(t := None)"
proof -
  obtain w where w: "wait_chan_entry s t = Some (cond_queue w)" using q rep_chan [OF r t] by auto
  note u = unwait_ok [OF r t w]
  let ?s1 = "s\<lparr>heap := list_del_reinit LNULL (WaitL t) (heap s), wait_chan_entry := (wait_chan_entry s)(t := None)\<rparr>"
  have "wait_chan_entry ?s1 t = None" by simp
  from changeState_ok [OF u(3) t _ this, of TCB_RUNNABLE] obtain h H' R' where
    h: "TCB_Q_changeState t TCB_RUNNABLE ?s1 = Some (?s1\<lparr>heap := h, tstate := (tstate ?s1)(t := TCB_RUNNABLE)\<rparr>)"
    "sched_rep N M W (?s1\<lparr>heap := h, tstate := (tstate ?s1)(t := TCB_RUNNABLE)\<rparr>) H' R'" by blast
  have "thread_wakeup t s = Some (?s1\<lparr>heap := h, tstate := (tstate ?s1)(t := TCB_RUNNABLE)\<rparr>)"
    using w u(2) h(1) by (simp add: thread_wakeup_def Queue_remove_atomic_def Queue_remove_def)
  then show ?thesis using h(2) by auto
qed

lemma cond_wait_ok:
  assumes r: "sched_rep N M W s H R" and t: "t < N" and w: "w \<in> W" and chan: "wait_chan_entry s t = None"
  shows "\<exists>s' H' R'. cond_wait w t s = Some s' \<and> sched_rep N M W s' H' R' \<and> tstate s' = (tstate s)(t := TCB_SLEEPING) \<and>
    wait_chan_entry s' = (wait_chan_entry s)(t := Some (cond_queue w)) \<and> R' (WHead w) = R (WHead w) @ [WaitL t]"
proof -
  let ?R = "moved t (tstate s t) TCB_SLEEPING R" and ?H = "H - {StateL t}"
  obtain h where h: "TCB_Q_changeState t TCB_SLEEPING s = Some (s\<lparr>heap := h, tstate := (tstate s)(t := TCB_SLEEPING)\<rparr>)"
    "sched_rep N M W (s\<lparr>heap := h, tstate := (tstate s)(t := TCB_SLEEPING)\<rparr>) ?H ?R"
    using changeState_ok [OF r t _ chan, of TCB_SLEEPING] by auto
  let ?s1 = "s\<lparr>heap := h, tstate := (tstate s)(t := TCB_SLEEPING)\<rparr>"
  let ?h2 = "list_add_tail (WaitL t) (WHead w) h"
  let ?s2 = "?s1\<lparr>heap := ?h2, wait_chan_entry := (wait_chan_entry s)(t := Some (cond_queue w))\<rparr>"
  let ?R2 = "?R(WHead w := ?R (WHead w) @ [WaitL t])"
  have rr: "rings h ?H ?R" using rep_rings [OF h(2)] by simp
  have none: "WaitL t \<notin> set (?R d)" if "d \<in> ?H" for d using rep_mem [OF h(2) that, of "WaitL t"] chan by auto
  have "rings ?h2 (?H - {WaitL t}) ?R2"
    using rep_wait [OF h(2) w] h(2) none by (intro rings_push [OF rr]) (auto simp: sched_rep_def)
  moreover have "set (?R2 (WHead v)) = WaitL ` {u. u < N \<and> ((wait_chan_entry s)(t := Some (cond_queue w))) u = Some (cond_queue v)}"
    if "v \<in> W" for v
    using rep_wait [OF h(2) that] t chan by auto
  ultimately have "sched_rep N M W ?s2 (?H - {WaitL t}) ?R2"
    using h(2) w unfolding sched_rep_def by auto
  moreover have "cond_wait w t s = Some ?s2" by (simp add: cond_wait_def h(1) Queue_push_back_def)
  moreover have "?R (WHead w) = R (WHead w)" by (simp add: moved_def off_queue_def Let_def)
  ultimately show ?thesis by (intro exI [of _ ?s2] exI [of _ "?H - {WaitL t}"] exI [of _ ?R2]) simp
qed

text \<open>Taking the first thread off a wait queue that is not empty.\<close>

lemma wake_first_ok:
  assumes r: "sched_rep N M W s H R" and w: "w \<in> W" and ne: "R (WHead w) = x # xs"
  shows "\<exists>t s' H' R'. x = WaitL t \<and> t < N \<and> wait_chan_entry s t = Some (cond_queue w) \<and> wake_first w s = Some s' \<and>
    sched_rep N M W s' H' R' \<and> tstate s' = (tstate s)(t := TCB_RUNNABLE) \<and>
    wait_chan_entry s' = (wait_chan_entry s)(t := None) \<and> R' (WHead w) = xs"
proof -
  have rr: "rings (heap s) H R" and wH: "WHead w \<in> H" using rep_rings [OF r] rep_wait [OF r w] by auto
  have "x \<in> set (R (WHead w))" using ne by simp
  then obtain t where t: "x = WaitL t" "t < N" "wait_chan_entry s t = Some (cond_queue w)" using rep_wait [OF r w] by auto
  note u = unwait_ok [OF r t(2,3)]
  have pop: "Queue_pop (cond_queue w) True (heap s) = Some (list_del_reinit LNULL (WaitL t) (heap s), Some t)"
    using rings_first [OF rr wH ne] rings_empty [OF rr wH] ne t(1)
    by (simp add: Queue_pop_def Queue_isempty_def queue_first_node_def Queue_remove_def)
  let ?s1 = "s\<lparr>heap := list_del_reinit LNULL (WaitL t) (heap s), wait_chan_entry := (wait_chan_entry s)(t := None)\<rparr>"
  have "wait_chan_entry ?s1 t = None" by simp
  from changeState_ok [OF u(3) t(2) _ this, of TCB_RUNNABLE] obtain h where
    h: "TCB_Q_changeState t TCB_RUNNABLE ?s1 = Some (?s1\<lparr>heap := h, tstate := (tstate ?s1)(t := TCB_RUNNABLE)\<rparr>)"
    "sched_rep N M W (?s1\<lparr>heap := h, tstate := (tstate ?s1)(t := TCB_RUNNABLE)\<rparr>) (insert (WaitL t) H - {StateL t})
      (moved t (tstate s t) TCB_RUNNABLE (R(WHead w := remove1 (WaitL t) (R (WHead w)), WaitL t := [])))" by auto
  let ?s2 = "?s1\<lparr>heap := h, tstate := (tstate ?s1)(t := TCB_RUNNABLE)\<rparr>"
  have "wake_first w s = Some ?s2" using pop u(2) t(3) h(1) by (simp add: wake_first_def cond_take_def cond_wake_def)
  moreover have "moved t (tstate s t) TCB_RUNNABLE (R(WHead w := remove1 (WaitL t) (R (WHead w)), WaitL t := [])) (WHead w) = xs"
    using ne t(1) by (simp add: moved_def off_queue_def Let_def)
  ultimately show ?thesis using t h(2) by (intro exI [of _ t] exI [of _ ?s2]) auto
qed

lemma isempty_iff:
  assumes r: "sched_rep N M W s H R" and w: "w \<in> W"
  shows "Queue_isempty (cond_queue w) (heap s) \<longleftrightarrow> \<not> (\<exists>t<N. wait_chan_entry s t = Some (cond_queue w))"
proof -
  have "Queue_isempty (cond_queue w) (heap s) \<longleftrightarrow> R (WHead w) = []"
    using rings_empty [OF rep_rings [OF r], of "WHead w"] rep_wait [OF r w] by (simp add: Queue_isempty_def)
  also have "\<dots> \<longleftrightarrow> set (R (WHead w)) = {}" by simp
  finally show ?thesis using rep_wait [OF r w] by auto
qed

lemma cond_take_ok:
  assumes r: "sched_rep N M W s H R" and w: "w \<in> W" and ne: "\<exists>t<N. wait_chan_entry s t = Some (cond_queue w)"
  shows "\<exists>t h H' R'. t < N \<and> wait_chan_entry s t = Some (cond_queue w) \<and> cond_take w s = Some (s\<lparr>heap := h\<rparr>, Some t) \<and>
    sched_rep N M W (s\<lparr>heap := h, wait_chan_entry := (wait_chan_entry s)(t := None)\<rparr>) H' R'"
proof -
  have rr: "rings (heap s) H R" and wH: "WHead w \<in> H" using rep_rings [OF r] rep_wait [OF r w] by auto
  obtain x xs where x: "R (WHead w) = x # xs" using ne rep_wait [OF r w] by (cases "R (WHead w)") auto
  then have "x \<in> set (R (WHead w))" by simp
  then obtain t where t: "x = WaitL t" "t < N" "wait_chan_entry s t = Some (cond_queue w)" using rep_wait [OF r w] by auto
  have "cond_take w s = Some (s\<lparr>heap := list_del_reinit LNULL (WaitL t) (heap s)\<rparr>, Some t)"
    using rings_first [OF rr wH x] rings_empty [OF rr wH] x t(1)
    by (simp add: cond_take_def Queue_pop_def Queue_isempty_def queue_first_node_def Queue_remove_def)
  then show ?thesis using t unwait_ok(3) [OF r t(2,3)] by blast
qed

lemma cond_signal_ok:
  assumes r: "sched_rep N M W s H R" and w: "w \<in> W"
  shows "\<exists>s' H' R'. cond_signal w s = Some s' \<and> sched_rep N M W s' H' R' \<and>
    (if \<exists>t<N. wait_chan_entry s t = Some (cond_queue w)
     then \<exists>t<N. wait_chan_entry s t = Some (cond_queue w) \<and> tstate s' = (tstate s)(t := TCB_RUNNABLE) \<and>
            wait_chan_entry s' = (wait_chan_entry s)(t := None)
     else s' = s)"
proof (cases "R (WHead w)")
  case Nil
  then have "\<not> (\<exists>t<N. wait_chan_entry s t = Some (cond_queue w))" using rep_wait [OF r w] by auto
  moreover have "Queue_isempty (cond_queue w) (heap s)"
    using rings_empty [OF rep_rings [OF r], of "WHead w"] rep_wait [OF r w] Nil by (simp add: Queue_isempty_def)
  ultimately show ?thesis using r by (auto simp: cond_signal_def)
next
  case (Cons x xs)
  have "\<not> Queue_isempty (cond_queue w) (heap s)"
    using rings_empty [OF rep_rings [OF r], of "WHead w"] rep_wait [OF r w] Cons by (simp add: Queue_isempty_def)
  then show ?thesis using wake_first_ok [OF r w Cons] by (auto simp: cond_signal_def)
qed

text \<open>A broadcast ends and wakes every thread of the queue.\<close>

lemma cond_broadcast_ok:
  assumes "sched_rep N M W s H R" "w \<in> W"
  shows "\<exists>s' H' R'. cond_broadcast w s = Some s' \<and> sched_rep N M W s' H' R' \<and>
    (\<forall>t<N. wait_chan_entry s' t = (if wait_chan_entry s t = Some (cond_queue w) then None else wait_chan_entry s t)) \<and>
    (\<forall>t<N. tstate s' t = (if wait_chan_entry s t = Some (cond_queue w) then TCB_RUNNABLE else tstate s t))"
  using assms(1)
proof (induction "R (WHead w)" arbitrary: s H R)
  case Nil
  then have "\<not> (\<exists>t<N. wait_chan_entry s t = Some (cond_queue w))" using rep_wait [OF Nil.prems assms(2)] by auto
  moreover have "Queue_isempty (cond_queue w) (heap s)"
    using rings_empty [OF rep_rings [OF Nil.prems], of "WHead w"] rep_wait [OF Nil.prems assms(2)] Nil.hyps
    by (simp add: Queue_isempty_def)
  ultimately show ?case using Nil.prems by (subst cond_broadcast.simps) auto
next
  case (Cons x xs)
  have ne: "\<not> Queue_isempty (cond_queue w) (heap s)"
    using rings_empty [OF rep_rings [OF Cons.prems], of "WHead w"] rep_wait [OF Cons.prems assms(2)] Cons.hyps(2) [symmetric]
    by (simp add: Queue_isempty_def)
  obtain t s1 H1 R1 where t: "t < N" "wait_chan_entry s t = Some (cond_queue w)" "wake_first w s = Some s1"
    "sched_rep N M W s1 H1 R1" "tstate s1 = (tstate s)(t := TCB_RUNNABLE)"
    "wait_chan_entry s1 = (wait_chan_entry s)(t := None)" "R1 (WHead w) = xs"
    using wake_first_ok [OF Cons.prems assms(2) Cons.hyps(2) [symmetric]] by blast
  obtain s2 H2 R2 where s2: "cond_broadcast w s1 = Some s2" "sched_rep N M W s2 H2 R2"
    "\<And>u. u < N \<Longrightarrow> wait_chan_entry s2 u = (if wait_chan_entry s1 u = Some (cond_queue w) then None else wait_chan_entry s1 u)"
    "\<And>u. u < N \<Longrightarrow> tstate s2 u = (if wait_chan_entry s1 u = Some (cond_queue w) then TCB_RUNNABLE else tstate s1 u)"
    using Cons.hyps(1) [OF t(7) [symmetric] t(4)] by blast
  have "cond_broadcast w s = Some s2" using ne t(3) s2(1) by (subst cond_broadcast.simps) simp
  moreover have "wait_chan_entry s2 u = (if wait_chan_entry s u = Some (cond_queue w) then None else wait_chan_entry s u)"
    "tstate s2 u = (if wait_chan_entry s u = Some (cond_queue w) then TCB_RUNNABLE else tstate s u)" if "u < N" for u
    using s2(3,4) [OF that] t(2,5,6) by auto
  ultimately show ?case using s2(2) by (intro exI [of _ s2] exI [of _ H2] exI [of _ R2]) simp
qed

section \<open>The scheduler\<close>

lemma scheduler_ok:
  assumes r: "sched_rep N M W s H R"
  shows "case R (QHead TCB_RUNNABLE) of
      [] \<Rightarrow> thread_scheduler s = Some (s, None)
    | x # xs \<Rightarrow> \<exists>t s' H' R'. x = StateL t \<and> t < N \<and> tstate s t = TCB_RUNNABLE \<and> thread_scheduler s = Some (s', Some t) \<and>
        sched_rep N M W s' H' R' \<and> tstate s' = (tstate s)(t := TCB_RUNNING) \<and> wait_chan_entry s' = wait_chan_entry s \<and>
        R' (QHead TCB_RUNNABLE) = xs"
proof (cases "R (QHead TCB_RUNNABLE)")
  case Nil
  then have "list_empty (QHead TCB_RUNNABLE) (heap s)"
    using rings_empty [OF rep_rings [OF r]] rep_state [OF r, of TCB_RUNNABLE] by simp
  then show ?thesis using Nil by (simp add: thread_scheduler_def T_STATES_def Queue_pop_def Queue_isempty_def)
next
  case (Cons x xs)
  let ?c = "QHead TCB_RUNNABLE"
  have rr: "rings (heap s) H R" and qH: "?c \<in> H" using rep_rings [OF r] rep_state [OF r, of TCB_RUNNABLE] by auto
  have "x \<in> set (R ?c)" using Cons by simp
  then obtain t where t: "x = StateL t" "t < N" "tstate s t = TCB_RUNNABLE" using rep_state [OF r, of TCB_RUNNABLE] by auto
  let ?h = "list_del_reinit LNULL (StateL t) (heap s)"
  let ?s = "s\<lparr>heap := ?h, tstate := (tstate s)(t := TCB_RUNNING)\<rparr>"
  let ?R = "off_queue t TCB_RUNNABLE R"
  have run: "thread_scheduler s = Some (?s, Some t)"
    using rings_first [OF rr qH Cons] rings_empty [OF rr qH] Cons t(1)
    by (simp add: thread_scheduler_def T_STATES_def Queue_pop_def Queue_isempty_def queue_first_node_def Queue_remove_def)
  note o = off_queue_ok [OF r t(2), unfolded t(3)]
  have chan: "wait_chan_entry s t = None" using rep_chan [OF r t(2)] t(3) by (cases "wait_chan_entry s t") auto
  have same: "?R c = R c" if "c \<noteq> StateL t" "\<forall>st. c \<noteq> QHead st" for c using that by (simp add: off_queue_def)
  have "set (?R (QHead st)) = StateL ` {u. u < N \<and> ((tstate s)(t := TCB_RUNNING)) u = st}" if "st \<noteq> TCB_RUNNING" for st
    using o(4) [OF that] that by auto
  moreover have "?R c = []" if "c \<in> insert (StateL t) H" "\<forall>st. c \<noteq> QHead st" "\<forall>st. c \<noteq> PHead st" "\<forall>w. c \<noteq> WHead w" for c
    using that same [of c] o(2) r by (cases "c = StateL t") (auto simp: sched_rep_def)
  ultimately have "sched_rep N M W ?s (insert (StateL t) H) ?R"
    using r o(1) same chan unfolding sched_rep_def by auto
  moreover have "?R ?c = xs" using Cons t(1) by (simp add: off_queue_def)
  ultimately show ?thesis using Cons t run by (auto intro!: exI [of _ t])
qed

end
