(* ===== verification/Sema.thy ===== *)
theory Sema
  imports Sched_Correct
begin

text \<open>
  Semaphores under every interleaving of their lock-protected stretches.  Threads are dispatched and
  preempted, wait on and signal any semaphores, are killed at any time, and are woken out of turn by
  signals (\<^verbatim>\<open>thread_send_signal\<close>).  A call of \<^verbatim>\<open>sema_signal\<close> that finds a waiting thread takes three steps,
  since \<^verbatim>\<open>cond_signal\<close> locks the queue twice and then the thread; it holds \<^verbatim>\<open>sem_lock\<close> throughout.  The
  state adds to the queues the semaphores, where each thread and each signalling call is, and
  counters per semaphore that record what has happened.
\<close>

text \<open>A thread outside \<^verbatim>\<open>sema_wait\<close>, in \<^verbatim>\<open>cond_wait\<close> before or at the switch, and on its way from there to the
  mutex.\<close>

datatype wait_pc = Out | InCond nat | Relock nat

fun waits_on :: "wait_pc \<Rightarrow> nat option" where
  "waits_on Out = None"
| "waits_on (InCond w) = Some w"
| "waits_on (Relock w) = Some w"

text \<open>The holder of \<^verbatim>\<open>sem_lock\<close>, if any: it has found the wait queue not empty, or has taken a thread off it.\<close>

datatype sig_pc = SigIdle | SigTake | SigWake "nat option"

record ksys =
  sch :: sched
  sems :: "nat \<Rightarrow> semaphore"
  wpc :: "nat \<Rightarrow> wait_pc"
  sigpc :: "nat \<Rightarrow> sig_pc"
  acquired :: "nat \<Rightarrow> int"
  exited :: "nat \<Rightarrow> int"
  signalled :: "nat \<Rightarrow> int"

definition in_wait :: "ksys \<Rightarrow> nat \<Rightarrow> nat option" where
  "in_wait k t = waits_on (wpc k t)"

datatype act = Dispatch | Yield nat | Wait nat nat | Return nat | Resume nat nat
  | Signal nat | Take nat | Wake nat | Kill nat | Interrupt nat

text \<open>\<open>Wait t w\<close> is a call of \<^verbatim>\<open>sema_wait\<close> by thread \<open>t\<close>, \<open>Return t\<close> the end of its sleep, where it looks whether it
  has been killed, \<open>Resume t w\<close> its continuation once it has the mutex again.  \<open>Signal w\<close> is a call of
  \<^verbatim>\<open>sema_signal\<close>, also from an interrupt handler, up to the test of the queue, \<open>Take w\<close> and \<open>Wake w\<close> its two
  other steps.  Those that need \<^verbatim>\<open>sem_lock\<close> are enabled only while no signalling call holds it.
  \<open>Interrupt t\<close> is \<^verbatim>\<open>thread_wakeup\<close>, which does not take \<^verbatim>\<open>sem_lock\<close>; here it happens only while that lock
  is free, and what it does at other moments is the subject of \<open>cond_signal_race\<close>.\<close>

definition enabled :: "nat \<Rightarrow> act \<Rightarrow> ksys \<Rightarrow> bool" where
  "enabled N a k =
     (case a of
        Dispatch \<Rightarrow> True
      | Yield t \<Rightarrow> t < N \<and> tstate (sch k) t = TCB_RUNNING
      | Wait t w \<Rightarrow> t < N \<and> tstate (sch k) t = TCB_RUNNING \<and> wpc k t = Out \<and> sigpc k w = SigIdle
      | Return t \<Rightarrow> t < N \<and> tstate (sch k) t = TCB_RUNNING \<and> (case wpc k t of InCond w \<Rightarrow> True | _ \<Rightarrow> False)
      | Resume t w \<Rightarrow> t < N \<and> tstate (sch k) t = TCB_RUNNING \<and> wpc k t = Relock w \<and> sigpc k w = SigIdle
      | Signal w \<Rightarrow> sigpc k w = SigIdle
      | Take w \<Rightarrow> sigpc k w = SigTake
      | Wake w \<Rightarrow> (case sigpc k w of SigWake r \<Rightarrow> True | _ \<Rightarrow> False)
      | Kill t \<Rightarrow> t < N
      | Interrupt t \<Rightarrow> t < N \<and> tstate (sch k) t = TCB_SLEEPING \<and> 
          (case wpc k t of InCond w \<Rightarrow> sigpc k w = SigIdle | _ \<Rightarrow> True))"

fun do_act :: "act \<Rightarrow> ksys \<Rightarrow> ksys option" where
  "do_act Dispatch k = do { (s, _) \<leftarrow> thread_scheduler (sch k); Some (k\<lparr>sch := s\<rparr>) }"
| "do_act (Yield t) k = do { s \<leftarrow> thread_yield t (sch k); Some (k\<lparr>sch := s\<rparr>) }"
| "do_act (Wait t w) k = do {
     (S, s, sleeps) \<leftarrow> sema_wait w t (sems k w) (sch k);
     Some (if sleeps then k\<lparr>sch := s, sems := (sems k)(w := S), wpc := (wpc k)(t := InCond w)\<rparr>
           else k\<lparr>sch := s, sems := (sems k)(w := S), acquired := (acquired k)(w := acquired k w + 1)\<rparr>)
   }"
| "do_act (Return t) k =
     (case wpc k t of
        InCond w \<Rightarrow>
          Some (if cond_return t (sch k) then k\<lparr>wpc := (wpc k)(t := Relock w)\<rparr>
                else k\<lparr>wpc := (wpc k)(t := Out), exited := (exited k)(w := exited k w + 1)\<rparr>)
      | _ \<Rightarrow> None)"
| "do_act (Resume t w) k = do {
     (S, s, sleeps) \<leftarrow> sema_resume w t (sems k w) (sch k);
     Some (if sleeps then k\<lparr>sch := s, sems := (sems k)(w := S), wpc := (wpc k)(t := InCond w)\<rparr>
           else k\<lparr>sch := s, sems := (sems k)(w := S), wpc := (wpc k)(t := Out),
                  acquired := (acquired k)(w := acquired k w + 1)\<rparr>)
   }"
| "do_act (Signal w) k = do {
     (S, wake) \<leftarrow> sema_post (sems k w);
     Some (k\<lparr>sems := (sems k)(w := S), signalled := (signalled k)(w := signalled k w + 1),
             sigpc := (sigpc k)(w := if wake \<and> \<not> Queue_isempty (cond_queue w) (heap (sch k)) then SigTake else SigIdle)\<rparr>)
   }"
| "do_act (Take w) k = do { (s, r) \<leftarrow> cond_take w (sch k); Some (k\<lparr>sch := s, sigpc := (sigpc k)(w := SigWake r)\<rparr>) }"
| "do_act (Wake w) k =
     (case sigpc k w of
        SigWake r \<Rightarrow> do { s \<leftarrow> cond_wake r (sch k); Some (k\<lparr>sch := s, sigpc := (sigpc k)(w := SigIdle)\<rparr>) }
      | _ \<Rightarrow> None)"
| "do_act (Kill t) k = Some (k\<lparr>sch := thread_setkilled t (sch k)\<rparr>)"
| "do_act (Interrupt t) k = do { s \<leftarrow> thread_wakeup t (sch k); Some (k\<lparr>sch := s\<rparr>) }"

text \<open>The steps of a signalling call, one after the other, are \<^verbatim>\<open>sema_signal\<close>.\<close>

lemma signal_steps:
  assumes "do_act (Signal w) k = Some k1" "sigpc k w = SigIdle"
  shows "map_option snd (sema_signal w (sems k w) (sch k)) =
    map_option sch (if sigpc k1 w = SigIdle then Some k1 else Option.bind (do_act (Take w) k1) (do_act (Wake w)))"
proof -
  obtain S wake where p: "sema_post (sems k w) = Some (S, wake)" using assms(1) by (auto simp: bind_eq_Some_conv)
  let ?go = "wake \<and> \<not> Queue_isempty (cond_queue w) (heap (sch k))"
  have k1: "sch k1 = sch k" "sigpc k1 w = (if ?go then SigTake else SigIdle)" using assms(1) p by auto
  show ?thesis
  proof (cases ?go)
    case True
    then show ?thesis using p k1
      by (cases "cond_take w (sch k)") (auto simp: sema_signal_def cond_signal_def wake_first_def split: Option.bind_splits)
  next
    case False
    then show ?thesis using p k1 by (auto simp: sema_signal_def cond_signal_def)
  qed
qed

text \<open>At the start the queues are in order, no thread waits and every semaphore has its initial value.\<close>

inductive sem_reach :: "nat \<Rightarrow> nat \<Rightarrow> (nat \<Rightarrow> int) \<Rightarrow> ksys \<Rightarrow> bool" for N M ini where
  start: "sched_rep N M UNIV (sch k) H R \<Longrightarrow> (\<forall>t<N. tstate (sch k) t \<noteq> TCB_SLEEPING) \<Longrightarrow> wpc k = (\<lambda>_. Out) \<Longrightarrow>
    sigpc k = (\<lambda>_. SigIdle) \<Longrightarrow> sems k = (\<lambda>w. sema_init (ini w)) \<Longrightarrow> (\<forall>w. 0 \<le> ini w) \<Longrightarrow> acquired k = (\<lambda>_. 0) \<Longrightarrow>
    exited k = (\<lambda>_. 0) \<Longrightarrow> signalled k = (\<lambda>_. 0) \<Longrightarrow> sem_reach N M ini k"
| step: "sem_reach N M ini k \<Longrightarrow> enabled N a k \<Longrightarrow> do_act a k = Some k' \<Longrightarrow> sem_reach N M ini k'"

section \<open>Threads in the hand of a signaller\<close>

text \<open>A thread that has been taken off its queue still names it.  The queues are in order when such
  entries are left out.\<close>

definition wc :: "(nat \<Rightarrow> queue option) \<Rightarrow> sched \<Rightarrow> sched" where
  "wc f s = s\<lparr>wait_chan_entry := f\<rparr>"

lemma wc_sel [simp]: "heap (wc f s) = heap s" "tstate (wc f s) = tstate s" "pstate (wc f s) = pstate s"
  "wait_chan_entry (wc f s) = f" "tkilled (wc f s) = tkilled s" "wc f (wc g s) = wc f s"
  by (simp_all add: wc_def)

lemma wc_self: "wait_chan_entry s = f \<Longrightarrow> wc f s = s"
  by (auto simp: wc_def)

lemma changeState_wc: "TCB_Q_changeState t new (wc f s) = map_option (wc f) (TCB_Q_changeState t new s)"
  by (auto simp: TCB_Q_changeState_def wc_def split: Option.bind_splits)

lemma take_wc: "cond_take w (wc f s) = map_option (\<lambda>(s, r). (wc f s, r)) (cond_take w s)"
  by (auto simp: cond_take_def wc_def split: Option.bind_splits)

lemma scheduler_wc: "thread_scheduler (wc f s) = map_option (\<lambda>(s, r). (wc f s, r)) (thread_scheduler s)"
  by (auto simp: thread_scheduler_def wc_def split: Option.bind_splits option.splits)

lemma changeState_chan: "TCB_Q_changeState t new (s\<lparr>heap := h, wait_chan_entry := g\<rparr>) =
    map_option (wc g) (TCB_Q_changeState t new (s\<lparr>heap := h\<rparr>))"
  using changeState_wc [of t new g "s\<lparr>heap := h\<rparr>"] by (simp add: wc_def)

lemma cond_wait_wc: "cond_wait w t (wc f s) = map_option (wc (f(t := Some (cond_queue w)))) (cond_wait w t s)"
  by (cases "TCB_Q_changeState t TCB_SLEEPING s")
    (simp_all add: cond_wait_def changeState_wc, auto simp: wc_def split: Option.bind_splits)

lemma wakeup_wc: "f t = wait_chan_entry s t \<Longrightarrow> thread_wakeup t (wc f s) = map_option (wc (f(t := None))) (thread_wakeup t s)"
proof -
  assume f: "f t = wait_chan_entry s t"
  have u: "(wc f s)\<lparr>heap := h, wait_chan_entry := g\<rparr> = s\<lparr>heap := h, wait_chan_entry := g\<rparr>" for h g by (simp add: wc_def)
  show ?thesis using f
    by (auto simp: thread_wakeup_def u changeState_chan option.map_comp comp_def split: Option.bind_splits)
qed

definition hands :: "ksys \<Rightarrow> nat set" where
  "hands k = {t. \<exists>w. sigpc k w = SigWake (Some t)}"

definition chans :: "ksys \<Rightarrow> nat \<Rightarrow> queue option" where
  "chans k t = (if t \<in> hands k then None else wait_chan_entry (sch k) t)"

definition hid :: "ksys \<Rightarrow> sched" where
  "hid k = wc (chans k) (sch k)"

lemma hid_sel [simp]: "heap (hid k) = heap (sch k)" "tstate (hid k) = tstate (sch k)" "wait_chan_entry (hid k) = chans k"
  "tkilled (hid k) = tkilled (sch k)"
  by (simp_all add: hid_def)

lemma sch_hid: "sch k = wc (wait_chan_entry (sch k)) (hid k)"
  by (simp add: hid_def wc_self)

lemma hid_eq: "sch k' = wc f s \<Longrightarrow> (\<And>t. (if t \<in> hands k' then None else f t) = wait_chan_entry s t) \<Longrightarrow> hid k' = s"
proof -
  assume "sch k' = wc f s" and f: "\<And>t. (if t \<in> hands k' then None else f t) = wait_chan_entry s t"
  have "chans k' t = wait_chan_entry s t" for t
    using f [of t] \<open>sch k' = wc f s\<close> by (cases "t \<in> hands k'") (simp_all add: chans_def)
  then have "chans k' = wait_chan_entry s" by (rule ext)
  then show ?thesis using \<open>sch k' = wc f s\<close> by (simp add: hid_def wc_self)
qed

section \<open>The invariant\<close>

definition waiting :: "nat \<Rightarrow> ksys \<Rightarrow> nat \<Rightarrow> int" where
  "waiting N k w = (\<Sum>t<N. of_bool (in_wait k t = Some w))"

definition awake :: "nat \<Rightarrow> ksys \<Rightarrow> nat \<Rightarrow> int" where
  "awake N k w = (\<Sum>t<N. of_bool (in_wait k t = Some w \<and> tstate (sch k) t \<noteq> TCB_SLEEPING))"

definition count_ok :: "nat \<Rightarrow> (nat \<Rightarrow> int) \<Rightarrow> ksys \<Rightarrow> nat \<Rightarrow> bool" where
  "count_ok N ini k w \<longleftrightarrow> 0 \<le> acquired k w \<and> 0 \<le> exited k w \<and> 0 \<le> sem_wakeup (sems k w) \<and>
     sem_wakeup (sems k w) \<le> awake N k w + exited k w + of_bool (sigpc k w \<noteq> SigIdle) \<and>
     waiting N k w + exited k w = sem_wakeup (sems k w) + max 0 (- sem_value (sems k w)) \<and>
     acquired k w + waiting N k w + exited k w + sem_value (sems k w) = ini w + signalled k w"

text \<open>A thread that sleeps waits on a semaphore, in whose queue it is or in the hand of whose signaller; a
  signaller has found a thread in the queue or has one in its hand.\<close>

definition sig_ok :: "nat \<Rightarrow> ksys \<Rightarrow> nat \<Rightarrow> bool" where
  "sig_ok N k w =
     (case sigpc k w of
        SigIdle \<Rightarrow> True
      | SigTake \<Rightarrow> \<exists>t<N. wait_chan_entry (sch k) t = Some (cond_queue w)
      | SigWake r \<Rightarrow> \<exists>t<N. r = Some t \<and> tstate (sch k) t = TCB_SLEEPING \<and> wpc k t = InCond w \<and>
          wait_chan_entry (sch k) t = Some (cond_queue w))"

definition sem_inv :: "nat \<Rightarrow> nat \<Rightarrow> (nat \<Rightarrow> int) \<Rightarrow> ksys \<Rightarrow> bool" where
  "sem_inv N M ini k \<longleftrightarrow> (\<exists>H R. sched_rep N M UNIV (hid k) H R) \<and> (\<forall>w. count_ok N ini k w) \<and> (\<forall>w. sig_ok N k w) \<and>
     (\<forall>t<N. tstate (sch k) t = TCB_SLEEPING \<longrightarrow> (\<exists>w. wpc k t = InCond w \<and> wait_chan_entry (sch k) t = Some (cond_queue w)))"

lemma sem_invD:
  assumes "sem_inv N M ini k"
  shows "\<exists>H R. sched_rep N M UNIV (hid k) H R" "count_ok N ini k w" "sig_ok N k w"
    "t < N \<Longrightarrow> tstate (sch k) t = TCB_SLEEPING \<Longrightarrow> \<exists>w. wpc k t = InCond w \<and> wait_chan_entry (sch k) t = Some (cond_queue w)"
  using assms by (auto simp: sem_inv_def)

lemma sem_invI:
  assumes "sched_rep N M UNIV (hid k) H R" "\<And>w. count_ok N ini k w" "\<And>w. sig_ok N k w"
    "\<And>t. t < N \<Longrightarrow> tstate (sch k) t = TCB_SLEEPING \<Longrightarrow> \<exists>w. wpc k t = InCond w \<and> wait_chan_entry (sch k) t = Some (cond_queue w)"
  shows "sem_inv N M ini k"
  using assms by (auto simp: sem_inv_def)

lemma sum_upd:
  fixes f g :: "nat \<Rightarrow> int"
  assumes "t < N" "\<And>u. u \<noteq> t \<Longrightarrow> g u = f u"
  shows "(\<Sum>u<N. g u) = (\<Sum>u<N. f u) - f t + g t"
proof -
  have "(\<Sum>u<N. h u) = h t + (\<Sum>u\<in>{..<N} - {t}. h u)" for h :: "nat \<Rightarrow> int"
    using assms(1) by (simp add: sum.remove)
  moreover have "(\<Sum>u\<in>{..<N} - {t}. g u) = (\<Sum>u\<in>{..<N} - {t}. f u)" using assms(2) by (intro sum.cong) auto
  ultimately show ?thesis by simp
qed

text \<open>One thread changes.\<close>

lemma waiting_upd:
  assumes "t < N" "wpc k' = (wpc k)(t := p)"
  shows "waiting N k' w = waiting N k w - of_bool (in_wait k t = Some w) + of_bool (waits_on p = Some w)"
proof -
  have "in_wait k' u = (if u = t then waits_on p else in_wait k u)" for u using assms(2) by (simp add: in_wait_def)
  then show ?thesis unfolding waiting_def
    by (subst sum_upd [where t = t and f = "\<lambda>t. of_bool (in_wait k t = Some w)"]) (use assms(1) in auto)
qed

lemma awake_upd:
  assumes "t < N" "wpc k' = (wpc k)(t := p)" "tstate (sch k') = (tstate (sch k))(t := st)"
  shows "awake N k' w = awake N k w - of_bool (in_wait k t = Some w \<and> tstate (sch k) t \<noteq> TCB_SLEEPING) +
    of_bool (waits_on p = Some w \<and> st \<noteq> TCB_SLEEPING)"
proof -
  have "in_wait k' u = (if u = t then waits_on p else in_wait k u)" for u using assms(2) by (simp add: in_wait_def)
  then show ?thesis unfolding awake_def
    by (subst sum_upd [where t = t and f = "\<lambda>t. of_bool (in_wait k t = Some w \<and> tstate (sch k) t \<noteq> TCB_SLEEPING)"])
      (use assms(1,3) in auto)
qed

text \<open>No thread changes.\<close>

lemma counts_same:
  assumes "wpc k' = wpc k" "tstate (sch k') = tstate (sch k)"
  shows "waiting N k' w = waiting N k w" "awake N k' w = awake N k w"
  using assms by (simp_all add: waiting_def awake_def in_wait_def)

lemma awake_nonneg: "0 \<le> awake N k w"
  unfolding awake_def by (intro sum_nonneg) simp

lemma waiting_le: "waiting N k w \<le> int N"
  unfolding waiting_def using sum_bounded_above [of "{..<N}" "\<lambda>t. of_bool (in_wait k t = Some w)" "1::int"] by simp

lemma waiting_less:
  assumes "t < N" "in_wait k t \<noteq> Some w"
  shows "waiting N k w < int N"
proof -
  have "waiting N k w \<le> (\<Sum>u<N. of_bool (u \<noteq> t))" unfolding waiting_def using assms(2) by (intro sum_mono) auto
  also have "(\<Sum>u<N. of_bool (u \<noteq> t)) = (\<Sum>u<N. 1) - 1 + (0::int)"
    by (subst sum_upd [OF assms(1), where f = "\<lambda>_. 1"]) auto
  finally show ?thesis by simp
qed

text \<open>When no waiting thread of a semaphore sleeps they are all awake.\<close>

lemma awake_all: "(\<And>t. t < N \<Longrightarrow> in_wait k t = Some w \<Longrightarrow> tstate (sch k) t \<noteq> TCB_SLEEPING) \<Longrightarrow> awake N k w = waiting N k w"
  unfolding awake_def waiting_def by (intro sum.cong) auto

text \<open>The hand of a signaller and the queues.\<close>

lemma hand_sleeps:
  assumes "sem_inv N M ini k" "t \<in> hands k"
  shows "\<exists>w. sigpc k w = SigWake (Some t) \<and> wpc k t = InCond w \<and> t < N \<and> tstate (sch k) t = TCB_SLEEPING \<and>
    wait_chan_entry (sch k) t = Some (cond_queue w)"
proof -
  obtain w where w: "sigpc k w = SigWake (Some t)" using assms(2) by (auto simp: hands_def)
  then show ?thesis using sem_invD(3) [OF assms(1), of w] by (auto simp: sig_ok_def)
qed

lemma not_sleeping:
  assumes "sem_inv N M ini k" "t < N" "tstate (sch k) t \<noteq> TCB_SLEEPING"
  shows "t \<notin> hands k" "wait_chan_entry (sch k) t = None" "chans k t = None"
proof -
  show n: "t \<notin> hands k" using hand_sleeps [OF assms(1)] assms(3) by blast
  obtain H R where r: "sched_rep N M UNIV (hid k) H R" using sem_invD(1) [OF assms(1)] by blast
  show c: "chans k t = None"
  proof (rule ccontr)
    assume "chans k t \<noteq> None"
    then obtain q where "wait_chan_entry (hid k) t = Some q" by auto
    then show False using rep_chan [OF r assms(2)] assms(3) by auto
  qed
  show "wait_chan_entry (sch k) t = None" using c n by (simp add: chans_def)
qed

text \<open>A thread of the queue of \<open>w\<close> is in no hand while no signaller of \<open>w\<close> has one.\<close>

lemma queued:
  assumes "sem_inv N M ini k" "wait_chan_entry (sch k) t = Some (cond_queue w)" "\<And>r. sigpc k w \<noteq> SigWake r"
  shows "chans k t = Some (cond_queue w)"
proof -
  have "t \<notin> hands k"
  proof
    assume "t \<in> hands k"
    then obtain v where "sigpc k v = SigWake (Some t)" "wait_chan_entry (sch k) t = Some (cond_queue v)"
      using hand_sleeps [OF assms(1)] by blast
    then show False using assms(2,3) by auto
  qed
  then show ?thesis using assms(2) by (simp add: chans_def)
qed

section \<open>Every step keeps it\<close>

lemma hands_cong: "sigpc k' = sigpc k \<Longrightarrow> hands k' = hands k"
  by (simp add: hands_def)

text \<open>A thread that becomes runnable or running.\<close>

lemma inv_state:
  assumes inv: "sem_inv N M ini k" and t: "t < N" "t \<notin> hands k" and st: "st \<noteq> TCB_SLEEPING"
    and idle: "\<And>w. wait_chan_entry (sch k) t = Some (cond_queue w) \<Longrightarrow> sigpc k w = SigIdle"
    and s: "sched_rep N M UNIV s H R" "tstate s = (tstate (sch k))(t := st)" "wait_chan_entry s = (chans k)(t := None)"
    and k': "k' = k\<lparr>sch := wc ((wait_chan_entry (sch k))(t := None)) s\<rparr>"
  shows "sem_inv N M ini k'"
proof (rule sem_invI)
  have h: "hands k' = hands k" by (rule hands_cong) (simp add: k')
  have sk: "sch k' = wc ((wait_chan_entry (sch k))(t := None)) s" by (simp add: k')
  have "hid k' = s" using s(3) t(2) by (intro hid_eq [OF sk]) (auto simp: h chans_def)
  then show "sched_rep N M UNIV (hid k') H R" using s(1) by simp
next
  fix w
  have w: "wpc k' = (wpc k)(t := wpc k t)" and ts: "tstate (sch k') = (tstate (sch k))(t := st)" using s(2) by (auto simp: k')
  show "count_ok N ini k' w"
    using sem_invD(2) [OF inv, of w] waiting_upd [OF t(1) w, of w] awake_upd [OF t(1) w ts, of w] st
    by (auto simp: count_ok_def k' in_wait_def)
  have ne: "u \<noteq> t" if "wait_chan_entry (sch k) u = Some (cond_queue w)" "sigpc k w \<noteq> SigIdle" for u using idle that by auto
  have nh: "u \<noteq> t" if "sigpc k w = SigWake (Some u)" for u using t(2) that by (auto simp: hands_def)
  show "sig_ok N k' w"
    using sem_invD(3) [OF inv, of w] ne nh ts by (auto simp: sig_ok_def k' split: sig_pc.splits)
next
  fix u assume "u < N" "tstate (sch k') u = TCB_SLEEPING"
  then have "u \<noteq> t" "tstate (sch k) u = TCB_SLEEPING" using s(2) st by (auto simp: k' split: if_splits)
  then show "\<exists>w. wpc k' u = InCond w \<and> wait_chan_entry (sch k') u = Some (cond_queue w)"
    using sem_invD(4) [OF inv \<open>u < N\<close>] by (auto simp: k')
qed

text \<open>A thread that goes to sleep on a semaphore.\<close>

lemma inv_sleep:
  assumes inv: "sem_inv N M ini k" and t: "t < N" "tstate (sch k) t \<noteq> TCB_SLEEPING"
    and s: "sched_rep N M UNIV s H R" "tstate s = (tstate (sch k))(t := TCB_SLEEPING)"
      "wait_chan_entry s = (chans k)(t := Some (cond_queue w))"
    and k': "sch k' = wc ((wait_chan_entry (sch k))(t := Some (cond_queue w))) s" "wpc k' = (wpc k)(t := InCond w)" "sigpc k' = sigpc k"
    and cnt: "\<And>v. count_ok N ini k' v"
  shows "sem_inv N M ini k'"
proof (rule sem_invI)
  note ns = not_sleeping [OF inv t]
  have h: "hands k' = hands k" by (rule hands_cong [OF k'(3)])
  have "hid k' = s" using s(3) ns(1)
    by (intro hid_eq [OF k'(1)]) (auto simp: h chans_def)
  then show "sched_rep N M UNIV (hid k') H R" using s(1) by simp
  show "count_ok N ini k' v" for v by (rule cnt)
  show "sig_ok N k' v" for v
  proof -
    have ne: "u \<noteq> t" if "wait_chan_entry (sch k) u = Some (cond_queue v)" for u using ns(2) that by auto
    show ?thesis using sem_invD(3) [OF inv, of v] ne t(2) s(2) by (fastforce simp: sig_ok_def k' split: sig_pc.splits)
  qed
  fix u assume "u < N" "tstate (sch k') u = TCB_SLEEPING"
  then show "\<exists>v. wpc k' u = InCond v \<and> wait_chan_entry (sch k') u = Some (cond_queue v)"
    using sem_invD(4) [OF inv \<open>u < N\<close>] s(2) by (auto simp: k' split: if_splits)
qed

text \<open>A thread that does not sleep moves on, with the queues as they are.\<close>

lemma inv_move:
  assumes inv: "sem_inv N M ini k" and t: "t < N" "tstate (sch k) t \<noteq> TCB_SLEEPING"
    and k': "sch k' = sch k" "wpc k' = (wpc k)(t := p)" "sigpc k' = sigpc k" and cnt: "\<And>v. count_ok N ini k' v"
  shows "sem_inv N M ini k'"
proof -
  obtain H R where r: "sched_rep N M UNIV (hid k) H R" using sem_invD(1) [OF inv] by blast
  have "hid k' = hid k" by (simp add: hid_def chans_def [abs_def] hands_cong [OF k'(3)] k'(1) cong: if_cong)
  moreover have "sig_ok N k' v" for v
    using sem_invD(3) [OF inv, of v] t(2) by (auto simp: sig_ok_def k' split: sig_pc.splits)
  ultimately show ?thesis using r cnt sem_invD(4) [OF inv] t(2) by (intro sem_invI) (auto simp: k')
qed

text \<open>The counters have room for one more operation: overflow would take about \<open>2 ^ 31\<close> signals in excess of
  the waits, or as many threads killed in \<^verbatim>\<open>sema_wait\<close>.\<close>

definition room :: "nat \<Rightarrow> (nat \<Rightarrow> int) \<Rightarrow> ksys \<Rightarrow> nat \<Rightarrow> bool" where
  "room N ini k w \<longleftrightarrow> ini w + signalled k w < 2 ^ 31 - 1 \<and> int N + exited k w < 2 ^ 31"

lemma room_ok:
  assumes c: "count_ok N ini k w" and r: "room N ini k w"
  shows "t < N \<Longrightarrow> in_wait k t \<noteq> Some w \<Longrightarrow> int_ok (sem_value (sems k w) - 1)" "int_ok (sem_value (sems k w) + 1)"
    "sem_value (sems k w) < 0 \<Longrightarrow> int_ok (sem_wakeup (sems k w) + 1)"
    "sem_wakeup (sems k w) \<noteq> 0 \<Longrightarrow> int_ok (sem_wakeup (sems k w) - 1)"
proof -
  let ?v = "sem_value (sems k w)" and ?u = "sem_wakeup (sems k w)"
  have f: "0 \<le> acquired k w" "0 \<le> exited k w" "0 \<le> ?u" "waiting N k w + exited k w = ?u + max 0 (- ?v)"
    "acquired k w + waiting N k w + exited k w + ?v = ini w + signalled k w" using c by (simp_all add: count_ok_def)
  have m: "- ?v \<le> max 0 (- ?v)" "0 \<le> max 0 (- ?v)" by simp_all
  have r: "ini w + signalled k w < 2147483647" "int N + exited k w < 2147483648" using r by (simp_all add: room_def)
  note wl = waiting_le [of N k w]
  have up: "?v \<le> ini w + signalled k w" using f m by linarith
  have b: "?v < 2147483647" "- 2147483648 < ?v" "?u < 2147483648" using f m r wl up by linarith+
  show "int_ok (?v - 1)" if "t < N" "in_wait k t \<noteq> Some w"
    using f m r waiting_less [OF that] b unfolding int_ok_def by simp
  show "int_ok (?v + 1)" using b by (simp add: int_ok_def)
  show "int_ok (?u + 1)" if "?v < 0" using f m r wl that by (simp add: int_ok_def)
  show "int_ok (?u - 1)" if "?u \<noteq> 0" using f b that by (simp add: int_ok_def)
qed

text \<open>What every step does: it succeeds, and keeps the invariant, unless a counter overflows.\<close>

definition steps_to :: "nat \<Rightarrow> nat \<Rightarrow> (nat \<Rightarrow> int) \<Rightarrow> ksys \<Rightarrow> act \<Rightarrow> bool" where
  "steps_to N M ini k a \<longleftrightarrow> (\<exists>k'. sem_inv N M ini k' \<and> (do_act a k = Some k' \<or> do_act a k = None \<and> \<not> (\<forall>w. room N ini k w)))"

lemma steps_toI: "do_act a k = Some k' \<Longrightarrow> sem_inv N M ini k' \<Longrightarrow> steps_to N M ini k a"
  unfolding steps_to_def by blast

lemma steps_to_if: "do_act a k = (if G then Some k' else None) \<Longrightarrow> sem_inv N M ini k' \<Longrightarrow> ((\<forall>w. room N ini k w) \<Longrightarrow> G) \<Longrightarrow>
    steps_to N M ini k a"
  unfolding steps_to_def by (rule exI [of _ k']) auto

text \<open>The operations on the queues as they are, from what they do on the queues in order.\<close>

lemma cond_wait_hid:
  assumes inv: "sem_inv N M ini k" and t: "t < N" "tstate (sch k) t \<noteq> TCB_SLEEPING"
  shows "\<exists>s H R. cond_wait w t (sch k) = Some (wc ((wait_chan_entry (sch k))(t := Some (cond_queue w))) s) \<and>
    sched_rep N M UNIV s H R \<and> tstate s = (tstate (sch k))(t := TCB_SLEEPING) \<and>
    wait_chan_entry s = (chans k)(t := Some (cond_queue w))"
proof -
  obtain H R where r: "sched_rep N M UNIV (hid k) H R" using sem_invD(1) [OF inv] by blast
  have "wait_chan_entry (hid k) t = None" using not_sleeping(3) [OF inv t] by simp
  from cond_wait_ok [OF r t(1) _ this, of w] obtain s H' R' where s: "cond_wait w t (hid k) = Some s" "sched_rep N M UNIV s H' R'"
    "tstate s = (tstate (sch k))(t := TCB_SLEEPING)" "wait_chan_entry s = (chans k)(t := Some (cond_queue w))" by auto
  have "cond_wait w t (sch k) = Some (wc ((wait_chan_entry (sch k))(t := Some (cond_queue w))) s)"
    using cond_wait_wc [of w t "wait_chan_entry (sch k)" "hid k"] s(1) unfolding sch_hid [of k, symmetric] by simp
  then show ?thesis using s(2-4) by blast
qed

lemma step_dispatch: assumes inv: "sem_inv N M ini k" shows "steps_to N M ini k Dispatch"
proof -
  obtain H R where r: "sched_rep N M UNIV (hid k) H R" using sem_invD(1) [OF inv] by blast
  have e: "thread_scheduler (sch k) = map_option (\<lambda>(s, r). (wc (wait_chan_entry (sch k)) s, r)) (thread_scheduler (hid k))"
    using scheduler_wc [of "wait_chan_entry (sch k)" "hid k"] unfolding sch_hid [of k, symmetric] .
  show ?thesis
  proof (cases "R (QHead TCB_RUNNABLE)")
    case Nil
    then have "thread_scheduler (hid k) = Some (hid k, None)" using scheduler_ok [OF r] by simp
    then have "do_act Dispatch k = Some k" using e sch_hid [of k] by simp
    then show ?thesis using inv by (rule steps_toI)
  next
    case (Cons x xs)
    obtain t s H' R' where s: "t < N" "tstate (sch k) t = TCB_RUNNABLE" "thread_scheduler (hid k) = Some (s, Some t)"
      "sched_rep N M UNIV s H' R'" "tstate s = (tstate (sch k))(t := TCB_RUNNING)" "wait_chan_entry s = chans k"
      using scheduler_ok [OF r] Cons by auto
    have ns: "t \<notin> hands k" "wait_chan_entry (sch k) t = None" "chans k t = None" using not_sleeping [OF inv s(1)] s(2) by auto
    have up: "(wait_chan_entry (sch k))(t := None) = wait_chan_entry (sch k)" "(chans k)(t := None) = chans k" using ns by auto
    have "sem_inv N M ini (k\<lparr>sch := wc (wait_chan_entry (sch k)) s\<rparr>)"
      using ns by (intro inv_state [OF inv s(1) ns(1) _ _ s(4,5)]) (simp_all add: up s(6))
    moreover have "do_act Dispatch k = Some (k\<lparr>sch := wc (wait_chan_entry (sch k)) s\<rparr>)" using e s(3) by simp
    ultimately show ?thesis by (intro steps_toI)
  qed
qed

lemma step_yield:
  assumes inv: "sem_inv N M ini k" and t: "t < N" "tstate (sch k) t = TCB_RUNNING"
  shows "steps_to N M ini k (Yield t)"
proof -
  obtain H R where r: "sched_rep N M UNIV (hid k) H R" using sem_invD(1) [OF inv] by blast
  have ns: "t \<notin> hands k" "wait_chan_entry (sch k) t = None" "chans k t = None" using not_sleeping [OF inv t(1)] t(2) by auto
  have "wait_chan_entry (hid k) t = None" using ns by simp
  from changeState_ok [OF r t(1) _ this, of TCB_RUNNABLE] obtain s H' R' where
    s: "TCB_Q_changeState t TCB_RUNNABLE (hid k) = Some s" "sched_rep N M UNIV s H' R'"
    "tstate s = (tstate (sch k))(t := TCB_RUNNABLE)" "wait_chan_entry s = chans k" by auto
  have up: "(wait_chan_entry (sch k))(t := None) = wait_chan_entry (sch k)" "(chans k)(t := None) = chans k" using ns by auto
  have "TCB_Q_changeState t TCB_RUNNABLE (sch k) = Some (wc (wait_chan_entry (sch k)) s)"
    using changeState_wc [of t TCB_RUNNABLE "wait_chan_entry (sch k)" "hid k"] s(1) unfolding sch_hid [of k, symmetric] by simp
  then have "do_act (Yield t) k = Some (k\<lparr>sch := wc (wait_chan_entry (sch k)) s\<rparr>)" by (simp add: thread_yield_def)
  moreover have "sem_inv N M ini (k\<lparr>sch := wc (wait_chan_entry (sch k)) s\<rparr>)"
    using ns by (intro inv_state [OF inv t(1) ns(1) _ _ s(2,3)]) (simp_all add: up s(4))
  ultimately show ?thesis by (rule steps_toI)
qed

lemma step_interrupt:
  assumes inv: "sem_inv N M ini k" and t: "t < N" "tstate (sch k) t = TCB_SLEEPING"
    and idle: "\<And>w. wpc k t = InCond w \<Longrightarrow> sigpc k w = SigIdle"
  shows "steps_to N M ini k (Interrupt t)"
proof -
  obtain H R where r: "sched_rep N M UNIV (hid k) H R" using sem_invD(1) [OF inv] by blast
  obtain w where w: "wpc k t = InCond w" "wait_chan_entry (sch k) t = Some (cond_queue w)" using sem_invD(4) [OF inv t] by blast
  have si: "sigpc k w = SigIdle" using idle w(1) .
  have q: "chans k t = Some (cond_queue w)" using queued [OF inv w(2)] si by simp
  then have nh: "t \<notin> hands k" by (auto simp: chans_def split: if_splits)
  have "wait_chan_entry (hid k) t \<noteq> None" using q by simp
  from wakeup_ok [OF r t(1) this] obtain s H' R' where s: "thread_wakeup t (hid k) = Some s" "sched_rep N M UNIV s H' R'"
    "tstate s = (tstate (sch k))(t := TCB_RUNNABLE)" "wait_chan_entry s = (chans k)(t := None)" by auto
  have "wait_chan_entry (sch k) t = wait_chan_entry (hid k) t" using q w(2) by simp
  then have "thread_wakeup t (sch k) = Some (wc ((wait_chan_entry (sch k))(t := None)) s)"
    using wakeup_wc [of "wait_chan_entry (sch k)" t "hid k"] s(1) unfolding sch_hid [of k, symmetric] by simp
  then have "do_act (Interrupt t) k = Some (k\<lparr>sch := wc ((wait_chan_entry (sch k))(t := None)) s\<rparr>)" by simp
  moreover have "sem_inv N M ini (k\<lparr>sch := wc ((wait_chan_entry (sch k))(t := None)) s\<rparr>)"
    by (rule inv_state [OF inv t(1) nh _ _ s(2-4)]) (use w(2) si in auto)
  ultimately show ?thesis by (rule steps_toI)
qed

lemma step_kill: assumes inv: "sem_inv N M ini k" shows "steps_to N M ini k (Kill t)"
proof -
  let ?k = "k\<lparr>sch := thread_setkilled t (sch k)\<rparr>"
  obtain H R where r: "sched_rep N M UNIV (hid k) H R" using sem_invD(1) [OF inv] by blast
  have h: "hands ?k = hands k" by (rule hands_cong) simp
  have "hid ?k = thread_setkilled t (hid k)"
  proof -
    have "chans ?k u = chans k u" for u unfolding chans_def h by (simp add: thread_setkilled_def)
    then have "chans ?k = chans k" by (rule ext)
    then show ?thesis by (simp add: hid_def thread_setkilled_def wc_def)
  qed
  then have "sched_rep N M UNIV (hid ?k) H R" using r by (simp add: sched_rep_def thread_setkilled_def)
  moreover have "count_ok N ini ?k w" "sig_ok N ?k w" for w
    using sem_invD(2,3) [OF inv, of w] counts_same [of ?k k N w]
    by (simp_all add: count_ok_def thread_setkilled_def)
      (auto simp: sig_ok_def split: sig_pc.splits)
  ultimately have "sem_inv N M ini ?k" using sem_invD(4) [OF inv] by (intro sem_invI) (auto simp: thread_setkilled_def)
  then show ?thesis by (intro steps_toI) simp
qed

lemma step_return:
  assumes inv: "sem_inv N M ini k" and t: "t < N" "tstate (sch k) t = TCB_RUNNING" "wpc k t = InCond w"
  shows "steps_to N M ini k (Return t)"
proof (cases "cond_return t (sch k)")
  case True
  let ?k = "k\<lparr>wpc := (wpc k)(t := Relock w)\<rparr>"
  have w: "wpc ?k = (wpc k)(t := Relock w)" and ts: "tstate (sch ?k) = (tstate (sch k))(t := TCB_RUNNING)" using t(2) by auto
  have "count_ok N ini ?k v" for v
    using sem_invD(2) [OF inv, of v] waiting_upd [OF t(1) w, of v] awake_upd [OF t(1) w ts, of v] t(2,3)
    by (auto simp: count_ok_def in_wait_def)
  then have "sem_inv N M ini ?k" using t(2) by (intro inv_move [OF inv t(1) _ _ w]) auto
  then show ?thesis using True t(3) by (intro steps_toI) simp_all
next
  case False
  let ?k = "k\<lparr>wpc := (wpc k)(t := Out), exited := (exited k)(w := exited k w + 1)\<rparr>"
  have w: "wpc ?k = (wpc k)(t := Out)" and ts: "tstate (sch ?k) = (tstate (sch k))(t := TCB_RUNNING)" using t(2) by auto
  have "count_ok N ini ?k v" for v
    using sem_invD(2) [OF inv, of v] waiting_upd [OF t(1) w, of v] awake_upd [OF t(1) w ts, of v] t(2,3)
    by (cases "v = w") (simp_all add: count_ok_def in_wait_def)
  then have "sem_inv N M ini ?k" using t(2) by (intro inv_move [OF inv t(1) _ _ w]) auto
  then show ?thesis using False t(3) by (intro steps_toI) simp_all
qed

lemma step_wait:
  assumes inv: "sem_inv N M ini k" and t: "t < N" "tstate (sch k) t = TCB_RUNNING" "wpc k t = Out"
  shows "steps_to N M ini k (Wait t w)"
proof -
  let ?S = "(sems k w)\<lparr>sem_value := sem_value (sems k w) - 1\<rparr>"
  let ?G = "int_ok (sem_value (sems k w) - 1)"
  have c: "count_ok N ini k v" for v by (rule sem_invD(2) [OF inv])
  have G: "?G" if "\<forall>w. room N ini k w" using room_ok(1) [OF c _ t(1)] that t(3) by (simp add: in_wait_def)
  have sl: "tstate (sch k) t \<noteq> TCB_SLEEPING" using t(2) by simp
  show ?thesis
  proof (cases "sem_value ?S < 0")
    case True
    obtain s H R where s: "cond_wait w t (sch k) = Some (wc ((wait_chan_entry (sch k))(t := Some (cond_queue w))) s)"
      "sched_rep N M UNIV s H R" "tstate s = (tstate (sch k))(t := TCB_SLEEPING)" "wait_chan_entry s = (chans k)(t := Some (cond_queue w))"
      using cond_wait_hid [OF inv t(1) sl] by blast
    let ?k = "k\<lparr>sch := wc ((wait_chan_entry (sch k))(t := Some (cond_queue w))) s, sems := (sems k)(w := ?S), wpc := (wpc k)(t := InCond w)\<rparr>"
    have wp: "wpc ?k = (wpc k)(t := InCond w)" and ts: "tstate (sch ?k) = (tstate (sch k))(t := TCB_SLEEPING)" using s(3) by simp_all
    have "count_ok N ini ?k v" for v
      using c [of v] True waiting_upd [OF t(1) wp, of v] awake_upd [OF t(1) wp ts, of v] t(3)
      by (cases "v = w") (auto simp: count_ok_def in_wait_def max_def split: if_splits)
    then have "sem_inv N M ini ?k" by (intro inv_sleep [OF inv t(1) sl s(2-4)]) simp_all
    moreover have "do_act (Wait t w) k = (if ?G then Some ?k else None)" using True s(1) by (simp add: sema_wait_def Let_def)
    ultimately show ?thesis using G by (intro steps_to_if)
  next
    case False
    let ?k = "k\<lparr>sems := (sems k)(w := ?S), acquired := (acquired k)(w := acquired k w + 1)\<rparr>"
    have "count_ok N ini ?k v" for v
      using c [of v] False counts_same [of ?k k N v] by (cases "v = w") (auto simp: count_ok_def max_def split: if_splits)
    then have "sem_inv N M ini ?k" by (intro inv_move [OF inv t(1) sl, where p = "wpc k t"]) auto
    moreover have "do_act (Wait t w) k = (if ?G then Some ?k else None)" using False by (simp add: sema_wait_def Let_def)
    ultimately show ?thesis using G by (intro steps_to_if)
  qed
qed

lemma step_resume:
  assumes inv: "sem_inv N M ini k" and t: "t < N" "tstate (sch k) t = TCB_RUNNING" "wpc k t = Relock w"
  shows "steps_to N M ini k (Resume t w)"
proof -
  have c: "count_ok N ini k v" for v by (rule sem_invD(2) [OF inv])
  have sl: "tstate (sch k) t \<noteq> TCB_SLEEPING" using t(2) by simp
  show ?thesis
  proof (cases "sem_wakeup (sems k w) = 0")
    case True
    obtain s H R where s: "cond_wait w t (sch k) = Some (wc ((wait_chan_entry (sch k))(t := Some (cond_queue w))) s)"
      "sched_rep N M UNIV s H R" "tstate s = (tstate (sch k))(t := TCB_SLEEPING)" "wait_chan_entry s = (chans k)(t := Some (cond_queue w))"
      using cond_wait_hid [OF inv t(1) sl] by blast
    let ?k = "k\<lparr>sch := wc ((wait_chan_entry (sch k))(t := Some (cond_queue w))) s, sems := (sems k)(w := sems k w), wpc := (wpc k)(t := InCond w)\<rparr>"
    have wp: "wpc ?k = (wpc k)(t := InCond w)" and ts: "tstate (sch ?k) = (tstate (sch k))(t := TCB_SLEEPING)" using s(3) by simp_all
    have "count_ok N ini ?k v" for v
      using awake_nonneg [of N ?k v] c [of v] True waiting_upd [OF t(1) wp, of v] awake_upd [OF t(1) wp ts, of v] t(3)
      by (cases "v = w") (auto simp: count_ok_def in_wait_def)
    then have "sem_inv N M ini ?k" by (intro inv_sleep [OF inv t(1) sl s(2-4)]) simp_all
    moreover have "do_act (Resume t w) k = Some ?k" using True s(1) by (simp add: sema_resume_def)
    ultimately show ?thesis by (intro steps_toI)
  next
    case False
    let ?S = "(sems k w)\<lparr>sem_wakeup := sem_wakeup (sems k w) - 1\<rparr>"
    let ?k = "k\<lparr>sems := (sems k)(w := ?S), wpc := (wpc k)(t := Out), acquired := (acquired k)(w := acquired k w + 1)\<rparr>"
    have wp: "wpc ?k = (wpc k)(t := Out)" and ts: "tstate (sch ?k) = (tstate (sch k))(t := TCB_RUNNING)" using t(2) by auto
    have "count_ok N ini ?k v" for v
      using c [of v] False waiting_upd [OF t(1) wp, of v] awake_upd [OF t(1) wp ts, of v] t(2,3)
      by (cases "v = w") (auto simp: count_ok_def in_wait_def)
    then have "sem_inv N M ini ?k" by (intro inv_move [OF inv t(1) sl _ wp]) auto
    moreover have "do_act (Resume t w) k = (if int_ok (sem_wakeup (sems k w) - 1) then Some ?k else None)"
      using False by (simp add: sema_resume_def)
    moreover have "int_ok (sem_wakeup (sems k w) - 1)" if "\<forall>w. room N ini k w" using room_ok(4) [OF c _ False] that by blast
    ultimately show ?thesis by (intro steps_to_if)
  qed
qed

text \<open>The steps of a signalling call, which change who has a thread in hand.\<close>

lemma inv_signal:
  assumes inv: "sem_inv N M ini k" and k': "sch k' = sch k" "wpc k' = wpc k" "sigpc k' = (sigpc k)(w := p)"
    and p: "p = SigIdle \<or> p = SigTake \<and> (\<exists>t<N. wait_chan_entry (sch k) t = Some (cond_queue w))" and idle: "sigpc k w = SigIdle"
    and cnt: "\<And>v. count_ok N ini k' v"
  shows "sem_inv N M ini k'"
proof -
  obtain H R where r: "sched_rep N M UNIV (hid k) H R" using sem_invD(1) [OF inv] by blast
  have "sigpc k' v = SigWake r \<longleftrightarrow> sigpc k v = SigWake r" for v r using p idle by (auto simp: k'(3))
  then have "hands k' = hands k" by (simp add: hands_def)
  then have "hid k' = hid k" by (simp add: hid_def chans_def [abs_def] k'(1) cong: if_cong)
  moreover have "sig_ok N k' v" for v
    using sem_invD(3) [OF inv, of v] p by (auto simp: sig_ok_def k' split: sig_pc.splits)
  ultimately show ?thesis using r cnt sem_invD(4) [OF inv] by (intro sem_invI) (auto simp: k')
qed

lemma step_signal:
  assumes inv: "sem_inv N M ini k" and idle: "sigpc k w = SigIdle"
  shows "steps_to N M ini k (Signal w)"
proof -
  obtain H R where r: "sched_rep N M UNIV (hid k) H R" using sem_invD(1) [OF inv] by blast
  have c: "count_ok N ini k v" for v by (rule sem_invD(2) [OF inv])
  let ?v = "sem_value (sems k w)" and ?u = "sem_wakeup (sems k w)"
  show ?thesis
  proof (cases "?v + 1 \<le> 0")
    case False
    let ?k = "k\<lparr>sems := (sems k)(w := (sems k w)\<lparr>sem_value := ?v + 1\<rparr>), signalled := (signalled k)(w := signalled k w + 1),
      sigpc := (sigpc k)(w := SigIdle)\<rparr>"
    have "count_ok N ini ?k u" for u
      using c [of u] False counts_same [of ?k k N u] idle by (cases "u = w") (auto simp: count_ok_def)
    then have "sem_inv N M ini ?k" by (intro inv_signal [OF inv _ _ _ _ idle, where p = SigIdle]) auto
    moreover have "do_act (Signal w) k = (if int_ok (?v + 1) then Some ?k else None)" using False by (simp add: sema_post_def Let_def)
    moreover have "int_ok (?v + 1)" if "\<forall>w. room N ini k w" using room_ok(2) [OF c] that by blast
    ultimately show ?thesis by (intro steps_to_if)
  next
    case True
    let ?S = "(sems k w)\<lparr>sem_value := ?v + 1, sem_wakeup := ?u + 1\<rparr>"
    let ?e = "Queue_isempty (cond_queue w) (heap (sch k))"
    let ?k = "k\<lparr>sems := (sems k)(w := ?S), signalled := (signalled k)(w := signalled k w + 1),
      sigpc := (sigpc k)(w := if \<not> ?e then SigTake else SigIdle)\<rparr>"
    have e: "?e \<longleftrightarrow> \<not> (\<exists>t<N. chans k t = Some (cond_queue w))" using isempty_iff [OF r, of w] by simp
    have aw: "awake N k w = waiting N k w" if ?e
    proof (rule awake_all)
      fix t assume t: "t < N" "in_wait k t = Some w"
      show "tstate (sch k) t \<noteq> TCB_SLEEPING"
      proof
        assume "tstate (sch k) t = TCB_SLEEPING"
        then have "wait_chan_entry (sch k) t = Some (cond_queue w)"
          using sem_invD(4) [OF inv t(1)] t(2) by (auto simp: in_wait_def)
        then have "chans k t = Some (cond_queue w)" using queued [OF inv] idle by simp
        then show False using e that t(1) by blast
      qed
    qed
    have "count_ok N ini ?k u" for u
      using c [of u] True counts_same [of ?k k N u] idle aw by (cases "u = w") (auto simp: count_ok_def)
    moreover have "\<exists>t<N. wait_chan_entry (sch k) t = Some (cond_queue w)" if "\<not> ?e"
      using e that by (auto simp: chans_def split: if_splits)
    ultimately have "sem_inv N M ini ?k"
      by (intro inv_signal [OF inv _ _ _ _ idle, where p = "if \<not> ?e then SigTake else SigIdle"]) auto
    moreover have "do_act (Signal w) k = (if int_ok (?v + 1) \<and> int_ok (?u + 1) then Some ?k else None)"
      using True by (simp add: sema_post_def Let_def)
    moreover have "int_ok (?v + 1) \<and> int_ok (?u + 1)" if "\<forall>w. room N ini k w" using room_ok(2,3) [OF c, of w] that True by simp
    ultimately show ?thesis by (intro steps_to_if)
  qed
qed

lemma step_take:
  assumes inv: "sem_inv N M ini k" and p: "sigpc k w = SigTake"
  shows "steps_to N M ini k (Take w)"
proof -
  obtain H R where r: "sched_rep N M UNIV (hid k) H R" using sem_invD(1) [OF inv] by blast
  obtain u where "u < N" "wait_chan_entry (sch k) u = Some (cond_queue w)"
    using sem_invD(3) [OF inv, of w] p by (auto simp: sig_ok_def)
  then have "\<exists>t<N. wait_chan_entry (hid k) t = Some (cond_queue w)" using queued [OF inv] p by auto
  from cond_take_ok [OF r _ this] obtain t h H' R' where t: "t < N" "chans k t = Some (cond_queue w)"
    "cond_take w (hid k) = Some ((hid k)\<lparr>heap := h\<rparr>, Some t)"
    "sched_rep N M UNIV ((hid k)\<lparr>heap := h, wait_chan_entry := (chans k)(t := None)\<rparr>) H' R'" by auto
  have nh: "t \<notin> hands k" and ch: "wait_chan_entry (sch k) t = Some (cond_queue w)" using t(2) by (auto simp: chans_def split: if_splits)
  let ?s = "(sch k)\<lparr>heap := h\<rparr>"
  let ?k = "k\<lparr>sch := ?s, sigpc := (sigpc k)(w := SigWake (Some t))\<rparr>"
  have "cond_take w (sch k) = Some (?s, Some t)"
    using take_wc [of w "wait_chan_entry (sch k)" "hid k"] t(3) unfolding sch_hid [of k, symmetric]
    by (simp add: hid_def wc_def)
  then have run: "do_act (Take w) k = Some ?k" by simp
  have hk: "hands ?k = insert t (hands k)"
  proof (intro equalityI subsetI)
    fix u assume u: "u \<in> insert t (hands k)"
    show "u \<in> hands ?k"
    proof (cases "u = t")
      case False
      then obtain v where v: "sigpc k v = SigWake (Some u)" using u by (auto simp: hands_def)
      then have "v \<noteq> w" using p by auto
      then show ?thesis using v by (auto simp: hands_def)
    qed (auto simp: hands_def)
  qed (auto simp: hands_def split: if_splits)
  have "hid ?k = (hid k)\<lparr>heap := h, wait_chan_entry := (chans k)(t := None)\<rparr>"
  proof (rule hid_eq [where f = "wait_chan_entry (sch k)"])
    show "sch ?k = wc (wait_chan_entry (sch k)) ((hid k)\<lparr>heap := h, wait_chan_entry := (chans k)(t := None)\<rparr>)"
      by (simp add: hid_def wc_def)
  qed (auto simp: hk chans_def)
  then have "sched_rep N M UNIV (hid ?k) H' R'" using t(4) by simp
  moreover have sl: "tstate (sch k) t = TCB_SLEEPING" using rep_chan [OF r t(1)] t(2) by simp
  then have wp: "wpc k t = InCond w" using sem_invD(4) [OF inv t(1)] ch by auto
  moreover have "count_ok N ini ?k v" for v
    using sem_invD(2) [OF inv, of v] counts_same [of ?k k N v] p by (cases "v = w") (auto simp: count_ok_def)
  moreover have "sig_ok N ?k v" for v
  proof (cases "v = w")
    case True
    then show ?thesis using t(1) sl wp ch by (simp add: sig_ok_def)
  next
    case False
    then show ?thesis using sem_invD(3) [OF inv, of v] by (simp add: sig_ok_def split: sig_pc.splits)
  qed
  ultimately have "sem_inv N M ini ?k" using sem_invD(4) [OF inv] by (intro sem_invI) simp_all
  with run show ?thesis by (rule steps_toI)
qed

lemma step_wake:
  assumes inv: "sem_inv N M ini k" and p: "sigpc k w = SigWake x"
  shows "steps_to N M ini k (Wake w)"
proof -
  obtain H R where r: "sched_rep N M UNIV (hid k) H R" using sem_invD(1) [OF inv] by blast
  obtain t where t: "x = Some t" "t < N" "tstate (sch k) t = TCB_SLEEPING" "wpc k t = InCond w"
    "wait_chan_entry (sch k) t = Some (cond_queue w)" using sem_invD(3) [OF inv, of w] p by (auto simp: sig_ok_def)
  have th: "t \<in> hands k" using p t(1) by (auto simp: hands_def)
  then have ct: "chans k t = None" by (simp add: chans_def)
  have "wait_chan_entry (hid k) t = None" using ct by simp
  from changeState_ok [OF r t(2) _ this, of TCB_RUNNABLE] obtain s H' R' where
    s: "TCB_Q_changeState t TCB_RUNNABLE (hid k) = Some s" "sched_rep N M UNIV s H' R'"
    "tstate s = (tstate (sch k))(t := TCB_RUNNABLE)" "wait_chan_entry s = chans k" by auto
  let ?f = "(wait_chan_entry (sch k))(t := None)"
  let ?k = "k\<lparr>sch := wc ?f s, sigpc := (sigpc k)(w := SigIdle)\<rparr>"
  have "(sch k)\<lparr>wait_chan_entry := ?f\<rparr> = wc ?f (hid k)" by (simp add: hid_def wc_def)
  then have run: "do_act (Wake w) k = Some ?k"
    using p t(1,3,5) s(1) by (simp add: cond_wake_def changeState_wc)
  have un: "sigpc k v \<noteq> SigWake (Some t)" if "v \<noteq> w" for v
    using sem_invD(3) [OF inv, of v] t(4) that by (auto simp: sig_ok_def)
  have hk: "u \<in> hands ?k \<longleftrightarrow> u \<in> hands k \<and> u \<noteq> t" for u
  proof
    assume "u \<in> hands ?k"
    then obtain v where "v \<noteq> w" "sigpc k v = SigWake (Some u)" by (auto simp: hands_def split: if_splits)
    then show "u \<in> hands k \<and> u \<noteq> t" using un by (auto simp: hands_def)
  next
    assume u: "u \<in> hands k \<and> u \<noteq> t"
    then obtain v where v: "sigpc k v = SigWake (Some u)" by (auto simp: hands_def)
    then have "v \<noteq> w" using p t(1) u by auto
    then show "u \<in> hands ?k" using v by (auto simp: hands_def)
  qed
  have "hid ?k = s" by (rule hid_eq [where f = ?f]) (auto simp: hk s(4) th chans_def)
  then have "sched_rep N M UNIV (hid ?k) H' R'" using s(2) by simp
  moreover have wp: "wpc ?k = (wpc k)(t := wpc k t)" and ts: "tstate (sch ?k) = (tstate (sch k))(t := TCB_RUNNABLE)" using s(3) by auto
  then have "count_ok N ini ?k v" for v
    using sem_invD(2) [OF inv, of v] waiting_upd [OF t(2) wp, of v] awake_upd [OF t(2) wp ts, of v] t(3,4) p
    by (cases "v = w") (auto simp: count_ok_def in_wait_def)
  moreover have "sig_ok N ?k v" for v
  proof (cases "v = w")
    case False
    have "u \<noteq> t" if "sigpc k v = SigWake (Some u)" for u using un [OF False] that by auto
    moreover have "u \<noteq> t" if "wait_chan_entry (sch k) u = Some (cond_queue v)" for u using t(5) that False by auto
    ultimately show ?thesis using sem_invD(3) [OF inv, of v] False s(3) by (auto simp: sig_ok_def split: sig_pc.splits)
  qed (simp add: sig_ok_def)
  moreover have "\<exists>v. wpc ?k u = InCond v \<and> wait_chan_entry (sch ?k) u = Some (cond_queue v)"
    if "u < N" "tstate (sch ?k) u = TCB_SLEEPING" for u
    using sem_invD(4) [OF inv that(1)] that(2) s(3) by (auto split: if_splits)
  ultimately have "sem_inv N M ini ?k" by (intro sem_invI)
  with run show ?thesis by (rule steps_toI)
qed

lemma step_any:
  assumes inv: "sem_inv N M ini k" and en: "enabled N a k"
  shows "steps_to N M ini k a"
proof (cases a)
  case Dispatch
  then show ?thesis using step_dispatch [OF inv] by simp
next
  case (Yield t)
  then show ?thesis using step_yield [OF inv] en by (simp add: enabled_def)
next
  case (Wait t w)
  then show ?thesis using step_wait [OF inv] en by (simp add: enabled_def)
next
  case (Return t)
  then show ?thesis using step_return [OF inv] en by (auto simp: enabled_def split: wait_pc.splits)
next
  case (Resume t w)
  then show ?thesis using step_resume [OF inv] en by (simp add: enabled_def)
next
  case (Signal w)
  then show ?thesis using step_signal [OF inv] en by (simp add: enabled_def)
next
  case (Take w)
  then show ?thesis using step_take [OF inv] en by (simp add: enabled_def)
next
  case (Wake w)
  then show ?thesis using step_wake [OF inv] en by (auto simp: enabled_def split: sig_pc.splits)
next
  case (Kill t)
  then show ?thesis using step_kill [OF inv] by simp
next
  case (Interrupt t)
  then show ?thesis using step_interrupt [OF inv, of t] en by (simp add: enabled_def split: wait_pc.splits)
qed

lemma reach_inv: "sem_reach N M ini k \<Longrightarrow> sem_inv N M ini k"
proof (induction rule: sem_reach.induct)
  case (start k H R)
  have c: "waiting N k w = 0" "awake N k w = 0" for w using start(3) by (simp_all add: waiting_def awake_def in_wait_def)
  have "hands k = {}" using start(4) by (simp add: hands_def)
  then have "hid k = sch k" by (simp add: hid_def chans_def [abs_def] wc_self)
  then show ?case using start c
    by (intro sem_invI [where H = H and R = R]) (auto simp: count_ok_def sig_ok_def sema_init_def)
next
  case (step k a k')
  then show ?case using step_any [OF step.IH step.hyps(2)] unfolding steps_to_def by force
qed

lemma reach_step: "sem_reach N M ini k \<Longrightarrow> enabled N a k \<Longrightarrow> (\<And>w. room N ini k w) \<Longrightarrow> \<exists>k'. do_act a k = Some k'"
  using step_any [OF reach_inv, of N M ini k a] unfolding steps_to_def by blast

text \<open>Runs of given steps.\<close>

fun sem_run :: "nat \<Rightarrow> act list \<Rightarrow> ksys \<Rightarrow> ksys option" where
  "sem_run N [] k = Some k"
| "sem_run N (a # as) k = (if enabled N a k then Option.bind (do_act a k) (sem_run N as) else None)"

lemma sem_run_reach: "sem_reach N M ini k \<Longrightarrow> sem_run N as k = Some k' \<Longrightarrow> sem_reach N M ini k'"
  by (induction as arbitrary: k) (auto split: if_splits Option.bind_splits intro: sem_reach.step)

end
