(* ===== verification/Sched_Props.thy ===== *)
theory Sched_Props
  imports Sema
begin

text \<open>
  The properties of the thread queues, condition variables and semaphores.
\<close>

section \<open>Boot\<close>

lemma tcb_init_loop_ok:
  assumes "rings h H R" "QHead TCB_UNUSED \<in> H" "R (QHead TCB_UNUSED) = []" "\<And>t d. d \<in> H \<Longrightarrow> StateL t \<notin> set (d # R d)"
  shows "\<exists>h'. tcb_init_loop n h = Some h' \<and> rings h' H (R(QHead TCB_UNUSED := map StateL [0..<n]))"
proof (induction n)
  case 0
  then show ?case using assms(1,3) by (simp add: fun_upd_idem)
next
  case (Suc n)
  then obtain h' where h': "tcb_init_loop n h = Some h'" "rings h' H (R(QHead TCB_UNUSED := map StateL [0..<n]))" by blast
  let ?R = "R(QHead TCB_UNUSED := map StateL [0..<n])"
  have "StateL n \<notin> H" using assms(4) [of "StateL n" n] by auto
  moreover have "StateL n \<notin> set (?R d)" if "d \<in> H" for d using assms(4) [OF that, of n] by auto
  ultimately have "rings (list_add_tail (StateL n) (QHead TCB_UNUSED) h') (H - {StateL n}) (?R(QHead TCB_UNUSED := ?R (QHead TCB_UNUSED) @ [StateL n]))"
    using assms(2) by (intro rings_push [OF h'(2)]) auto
  moreover have "?R(QHead TCB_UNUSED := ?R (QHead TCB_UNUSED) @ [StateL n]) = R(QHead TCB_UNUSED := map StateL [0..<Suc n])"
    by (rule ext) simp
  moreover have "tcb_init_loop (Suc n) h = Some (list_add_tail (StateL n) (QHead TCB_UNUSED) h')"
    using h'(1) by (simp add: T_STATES_def Queue_push_back_def)
  ultimately show ?case using \<open>StateL n \<notin> H\<close> by (metis Diff_empty Diff_insert0)
qed

lemma tcb_init_ok:
  assumes "rings (heap s) (range PHead \<union> WHead ` W) (\<lambda>_. [])" "\<forall>t<N. wait_chan_entry s t = None"
  shows "\<exists>s' H R. tcb_init N s = Some s' \<and> sched_rep N 0 W s' H R \<and> R (QHead TCB_UNUSED) = map StateL [0..<N] \<and>
    (\<forall>t<N. tstate s' t = TCB_UNUSED \<and> wait_chan_entry s' t = None)"
proof -
  let ?Q = "QHead ` {TCB_UNUSED, TCB_USED, TCB_RUNNABLE, TCB_SLEEPING}"
  let ?H = "insert (QHead TCB_SLEEPING) (insert (QHead TCB_RUNNABLE) (insert (QHead TCB_USED) (insert (QHead TCB_UNUSED) (range PHead \<union> WHead ` W))))"
  have "rings (TCB_Q_ALL_INIT (heap s)) ?H ((\<lambda>_. [])(QHead TCB_UNUSED := [], QHead TCB_USED := [], QHead TCB_RUNNABLE := [], QHead TCB_SLEEPING := []))"
    unfolding TCB_Q_ALL_INIT_def fold.simps comp_def id_def by (intro rings_init assms(1)) auto
  then have r: "rings (TCB_Q_ALL_INIT (heap s)) ?H (\<lambda>_. [])" by (simp add: fun_upd_idem)
  obtain h where h: "tcb_init_loop N (TCB_Q_ALL_INIT (heap s)) = Some h"
    "rings h ?H ((\<lambda>_. [])(QHead TCB_UNUSED := map StateL [0..<N]))"
    using tcb_init_loop_ok [OF r, of N] by auto
  let ?s = "s\<lparr>heap := h, tstate := (\<lambda>i. if i < N then TCB_UNUSED else tstate s i)\<rparr>"
  have all: "st = TCB_UNUSED \<or> st = TCB_USED \<or> st = TCB_RUNNABLE \<or> st = TCB_RUNNING \<or> st = TCB_SLEEPING" for st
    by (cases st) auto
  have "sched_rep N 0 W ?s ?H ((\<lambda>_. [])(QHead TCB_UNUSED := map StateL [0..<N]))"
    unfolding sched_rep_def using h(2) assms(2) all by (fastforce simp: atLeast0LessThan)
  then show ?thesis using h(1) assms(2)
    by (intro exI [of _ ?s] exI [of _ ?H] exI [of _ "(\<lambda>_. [])(QHead TCB_UNUSED := map StateL [0..<N])"]) (simp add: tcb_init_def)
qed

text \<open>\<^verbatim>\<open>tcb_init\<close> leaves every thread unused and in the queue of the unused threads, in the order of the
  thread table, with all queues in order.\<close>

theorem tcb_init_correct:
  assumes "rings (heap s) (range PHead \<union> WHead ` W) (\<lambda>_. [])" "\<forall>t<N. wait_chan_entry s t = None"
  shows "\<exists>s' H R. tcb_init N s = Some s' \<and> sched_rep N 0 W s' H R \<and> R (QHead TCB_UNUSED) = map StateL [0..<N] \<and>
    (\<forall>t<N. tstate s' t = TCB_UNUSED \<and> wait_chan_entry s' t = None)"
  by (rule tcb_init_ok [OF assms])

text \<open>A heap in which every node is linked to itself.\<close>

definition boot_sched :: sched where
  "boot_sched = \<lparr>heap = \<lparr>lnext = id, lprev = id\<rparr>, tstate = (\<lambda>_. TCB_UNUSED), pstate = (\<lambda>_. PCB_UNUSED), wait_chan_entry = (\<lambda>_. None), tkilled = (\<lambda>_. False)\<rparr>"

lemma boot_rings: "rings (heap boot_sched) H (\<lambda>_. [])"
  by (auto simp: rings_def boot_sched_def dl_def)

theorem tcb_init_correct_witness:
  "\<exists>s' H R. tcb_init 3 boot_sched = Some s' \<and> sched_rep 3 0 UNIV s' H R \<and> R (QHead TCB_UNUSED) = map StateL [0..<3]"
  using tcb_init_correct [OF boot_rings, of 3 UNIV] by (auto simp: boot_sched_def)

lemma boot_ok: "\<exists>s H R. sched_rep 1 0 UNIV s H R \<and> tstate s 0 = TCB_UNUSED"
  using tcb_init_ok [OF boot_rings, of 1 UNIV] by (auto simp: boot_sched_def)

section \<open>Queues\<close>

text \<open>C35.  \<^verbatim>\<open>TCB_Q_changeState\<close> takes the thread out of the queue of its old state and appends it to that of
  the new one; every thread stays in exactly the queue of its state.\<close>

theorem TCB_Q_changeState_correct:
  assumes "sched_rep N M W s H R" "t < N" "new \<noteq> TCB_RUNNING" "wait_chan_entry s t = None"
  shows "\<exists>s' H' R'. TCB_Q_changeState t new s = Some s' \<and> sched_rep N M W s' H' R' \<and> tstate s' = (tstate s)(t := new) \<and>
    R' (QHead new) = remove1 (StateL t) (R (QHead new)) @ [StateL t] \<and> distinct (R' (QHead new))"
proof -
  obtain h where h: "TCB_Q_changeState t new s = Some (s\<lparr>heap := h, tstate := (tstate s)(t := new)\<rparr>)"
    "sched_rep N M W (s\<lparr>heap := h, tstate := (tstate s)(t := new)\<rparr>) (H - {StateL t}) (moved t (tstate s t) new R)"
    using changeState_ok [OF assms] by blast
  let ?R = "moved t (tstate s t) new R"
  have "StateL t \<notin> set (R (QHead new))" if "tstate s t \<noteq> new"
    using rep_state [OF assms(1,3)] that by auto
  then have "?R (QHead new) = remove1 (StateL t) (R (QHead new)) @ [StateL t]"
    using assms(3) by (auto simp: moved_def off_queue_def Let_def remove1_idem)
  moreover have "distinct (?R (QHead new))"
    using rings_distinct [OF rep_rings [OF h(2)], of "QHead new"] rep_state [OF h(2) assms(3)] by auto
  ultimately show ?thesis using h
    by (intro exI [of _ "s\<lparr>heap := h, tstate := (tstate s)(t := new)\<rparr>"] exI [of _ "H - {StateL t}"] exI [of _ ?R]) simp
qed

theorem TCB_Q_changeState_correct_witness:
  "\<exists>s s'. tstate s 0 = TCB_UNUSED \<and> TCB_Q_changeState 0 TCB_USED s = Some s' \<and> tstate s' 0 = TCB_USED"
proof -
  obtain s H R where s: "sched_rep 1 0 UNIV s H R" "tstate s 0 = TCB_UNUSED" using boot_ok by blast
  moreover have "wait_chan_entry s 0 = None" using rep_chan [OF s(1), of 0] s(2) by (cases "wait_chan_entry s 0") auto
  ultimately show ?thesis using TCB_Q_changeState_correct [OF s(1), of 0 TCB_USED] by fastforce
qed

text \<open>The \<open>k\<close>-th next round of the scheduler.\<close>

primrec dispatch :: "nat \<Rightarrow> sched \<Rightarrow> (sched \<times> nat option) option" where
  "dispatch 0 s = thread_scheduler s"
| "dispatch (Suc k) s = do { (s1, _) \<leftarrow> thread_scheduler s; dispatch k s1 }"

text \<open>C34.  The scheduler is first-in first-out: the thread at position \<open>k\<close> of the queue of the runnable threads
  runs after \<open>k\<close> other rounds, so that no runnable thread starves.\<close>

theorem scheduler_fifo:
  assumes "sched_rep N M W s H R" "R (QHead TCB_RUNNABLE) = map StateL ts" "k < length ts"
  shows "\<exists>s'. dispatch k s = Some (s', Some (ts ! k)) \<and> tstate s' (ts ! k) = TCB_RUNNING"
  using assms
proof (induction k arbitrary: s H R ts)
  case 0
  then obtain t us where "ts = t # us" by (cases ts) auto
  then show ?case using scheduler_ok [OF 0(1)] 0(2) by auto
next
  case (Suc k)
  then obtain t us where ts: "ts = t # us" by (cases ts) auto
  obtain s1 H1 R1 where s1: "thread_scheduler s = Some (s1, Some t)" "sched_rep N M W s1 H1 R1" "R1 (QHead TCB_RUNNABLE) = map StateL us"
    using scheduler_ok [OF Suc.prems(1)] Suc.prems(2) ts by auto
  show ?case using Suc.IH [OF s1(2,3)] Suc.prems(3) s1(1) ts by simp
qed

theorem scheduler_fifo_witness:
  "\<exists>s s'. tstate s 0 = TCB_RUNNABLE \<and> dispatch 0 s = Some (s', Some 0) \<and> tstate s' 0 = TCB_RUNNING"
proof -
  obtain s H R where s: "sched_rep 1 0 UNIV s H R" "tstate s 0 = TCB_UNUSED" using boot_ok by blast
  have "wait_chan_entry s 0 = None" using rep_chan [OF s(1), of 0] s(2) by (cases "wait_chan_entry s 0") auto
  from changeState_ok [OF s(1) _ _ this, of TCB_RUNNABLE] obtain h H' R' where
    r: "sched_rep 1 0 UNIV (s\<lparr>heap := h, tstate := (tstate s)(0 := TCB_RUNNABLE)\<rparr>) H' R'" by auto
  have d: "distinct (R' (QHead TCB_RUNNABLE))" "set (R' (QHead TCB_RUNNABLE)) = {StateL 0}"
    using rings_distinct [OF rep_rings [OF r], of "QHead TCB_RUNNABLE"] rep_state [OF r, of TCB_RUNNABLE] by auto
  then have "R' (QHead TCB_RUNNABLE) = map StateL [0]"
    by (cases "R' (QHead TCB_RUNNABLE)"; cases "tl (R' (QHead TCB_RUNNABLE))") auto
  from scheduler_fifo [OF r this, of 0] show ?thesis
    by - (rule exI [of _ "s\<lparr>heap := h, tstate := (tstate s)(0 := TCB_RUNNABLE)\<rparr>"], auto)
qed

text \<open>C36.  \<^verbatim>\<open>cond_broadcast\<close> ends, makes every thread of the queue runnable and leaves the others alone.\<close>

theorem cond_broadcast_terminates:
  assumes "sched_rep N M W s H R" "w \<in> W"
  shows "\<exists>s' H' R'. cond_broadcast w s = Some s' \<and> sched_rep N M W s' H' R' \<and>
    (\<forall>t<N. tstate s' t = (if wait_chan_entry s t = Some (cond_queue w) then TCB_RUNNABLE else tstate s t))"
  using cond_broadcast_ok [OF assms] by blast

theorem cond_broadcast_terminates_witness:
  "\<exists>s s'. wait_chan_entry s 0 = Some (cond_queue 5) \<and> cond_broadcast 5 s = Some s' \<and> tstate s' 0 = TCB_RUNNABLE"
proof -
  obtain s H R where s: "sched_rep 1 0 UNIV s H R" "tstate s 0 = TCB_UNUSED" using boot_ok by blast
  have "wait_chan_entry s 0 = None" using rep_chan [OF s(1), of 0] s(2) by (cases "wait_chan_entry s 0") auto
  from cond_wait_ok [OF s(1) _ _ this, of 5] obtain s1 H1 R1 where
    "sched_rep 1 0 UNIV s1 H1 R1" "wait_chan_entry s1 0 = Some (cond_queue 5)" by auto
  then show ?thesis using cond_broadcast_terminates [of 1 0 UNIV s1 H1 R1 5] by auto
qed

section \<open>Semaphores\<close>

text \<open>Two running threads and semaphores of value 0.\<close>

definition demo_sys :: ksys where
  "demo_sys = \<lparr>sch = boot_sched\<lparr>tstate := (\<lambda>_. TCB_RUNNING)\<rparr>, sems = (\<lambda>_. sema_init 0), wpc = (\<lambda>_. Out), sigpc = (\<lambda>_. SigIdle),
     acquired = (\<lambda>_. 0), exited = (\<lambda>_. 0), signalled = (\<lambda>_. 0)\<rparr>"

lemma demo_start: "sem_reach 2 0 (\<lambda>_. 0) demo_sys"
proof -
  let ?H = "QHead ` (- {TCB_RUNNING}) \<union> range StateL \<union> range PHead \<union> range WHead"
  have "sched_rep 2 0 UNIV (sch demo_sys) ?H (\<lambda>_. [])"
    using boot_rings [of ?H] by (auto simp: sched_rep_def demo_sys_def boot_sched_def)
  then show ?thesis by (rule sem_reach.start) (simp_all add: demo_sys_def)
qed





section \<open>Two defects\<close>

text \<open>A killed thread takes its wakeup with it: thread 0 is killed while it waits, the signal goes to it, it
  exits in \<^verbatim>\<open>cond_wait\<close>, and thread 1 goes on sleeping although the semaphore has been signalled and nobody
  has acquired it.\<close>

theorem killed_waiter_loses_wakeup:
  "\<exists>k. sem_reach 2 0 (\<lambda>_. 0) k \<and> signalled k 7 = 1 \<and> acquired k 7 = 0 \<and> sem_wakeup (sems k 7) = 1 \<and> sigpc k 7 = SigIdle \<and>
    wpc k 0 = Out \<and> wpc k 1 = InCond 7 \<and> tstate (sch k) 1 = TCB_SLEEPING"
proof -
  have "case sem_run 2 [Wait 0 7, Wait 1 7, Kill 0, Signal 7, Take 7, Wake 7, Dispatch, Return 0] demo_sys of None \<Rightarrow> False
    | Some k \<Rightarrow> signalled k 7 = 1 \<and> acquired k 7 = 0 \<and> sem_wakeup (sems k 7) = 1 \<and> sigpc k 7 = SigIdle \<and>
        wpc k 0 = Out \<and> wpc k 1 = InCond 7 \<and> tstate (sch k) 1 = TCB_SLEEPING" by code_simp
  then obtain k where "sem_run 2 [Wait 0 7, Wait 1 7, Kill 0, Signal 7, Take 7, Wake 7, Dispatch, Return 0] demo_sys = Some k"
    "signalled k 7 = 1" "acquired k 7 = 0" "sem_wakeup (sems k 7) = 1" "sigpc k 7 = SigIdle"
    "wpc k 0 = Out" "wpc k 1 = InCond 7" "tstate (sch k) 1 = TCB_SLEEPING" by (auto split: option.splits)
  then show ?thesis using sem_run_reach [OF demo_start] by blast
qed

text \<open>A wakeup out of turn between the two locks of \<^verbatim>\<open>cond_signal\<close> makes it panic: whenever a signaller has
  taken a thread off the queue, \<^verbatim>\<open>thread_wakeup\<close> of that thread succeeds, and then the signaller finds that
  the thread does not sleep.\<close>

theorem cond_signal_race:
  assumes "sem_reach N M ini k" "sigpc k w = SigWake (Some t)"
  shows "\<exists>s. thread_wakeup t (sch k) = Some s \<and> cond_wake (Some t) s = None \<and> do_act (Wake w) (k\<lparr>sch := s\<rparr>) = None"
proof -
  have "tstate (sch k) t = TCB_SLEEPING" "wait_chan_entry (sch k) t = Some (cond_queue w)"
    using sem_invD(3) [OF reach_inv [OF assms(1)], of w] assms(2) by (auto simp: sig_ok_def)
  then show ?thesis using assms(2)
    by (simp add: thread_wakeup_def Queue_remove_atomic_def Queue_remove_def TCB_Q_changeState_def T_STATES_def
        Queue_push_back_def cond_wake_def)
qed

theorem cond_signal_race_witness:
  "\<exists>k s. sem_reach 2 0 (\<lambda>_. 0) k \<and> thread_wakeup 0 (sch k) = Some s \<and> do_act (Wake 7) (k\<lparr>sch := s\<rparr>) = None"
proof -
  have "case sem_run 2 [Wait 0 7, Signal 7, Take 7] demo_sys of None \<Rightarrow> False | Some k \<Rightarrow> sigpc k 7 = SigWake (Some 0)" by code_simp
  then obtain k where k: "sem_run 2 [Wait 0 7, Signal 7, Take 7] demo_sys = Some k" "sigpc k 7 = SigWake (Some 0)"
    by (auto split: option.splits)
  note r = sem_run_reach [OF demo_start k(1)]
  from cond_signal_race [OF r k(2)] show ?thesis using r by blast
qed

end
