(* ===== verification/Pipe.thy ===== *)
theory Pipe
  imports Prelude
begin

text \<open>
  Pipes (\<^verbatim>\<open>src/ipc/pipe.c\<close>).  A call runs from taking the lock to its return or to the point where it
  releases the lock to wait on a semaphore; that stretch is one atomic step.  The user memory a
  call copies from or to is a parameter: \<open>src i\<close> is what \<^verbatim>\<open>either_copyin\<close> gives for the byte at
  \<^verbatim>\<open>addr + i\<close>, \<open>dst i\<close> whether \<^verbatim>\<open>either_copyout\<close> to it succeeds.  The semaphores themselves are those of
  \<^verbatim>\<open>src/atomic/semaphore.c\<close>; here \<open>read_sem\<close> and \<open>write_sem\<close> count the calls of \<^verbatim>\<open>sema_signal\<close> on them.
\<close>

definition PIPESIZE :: nat where
  "PIPESIZE = 512"

record pipe =
  pdata :: "u8 list"
  nread :: u32
  nwrite :: u32
  readopen :: bool
  writeopen :: bool
  read_sem :: nat
  write_sem :: nat

definition PIPE_FULL :: "pipe \<Rightarrow> bool" where
  "PIPE_FULL pi \<longleftrightarrow> nwrite pi = nread pi + of_nat PIPESIZE"

definition PIPE_EMPTY :: "pipe \<Rightarrow> bool" where
  "PIPE_EMPTY pi \<longleftrightarrow> nread pi = nwrite pi"

text \<open>The pipe that \<^verbatim>\<open>pipe_alloc\<close> sets up in the page it allocates, whose old contents are \<open>d\<close>.\<close>

definition pipe_alloc :: "u8 list \<Rightarrow> pipe" where
  "pipe_alloc d = \<lparr>pdata = d, nread = 0, nwrite = 0, readopen = True, writeopen = True, read_sem = 0, write_sem = 0\<rparr>"

text \<open>\<^verbatim>\<open>pipe_close\<close>; the flag tells that the pipe is freed.\<close>

definition pipe_close :: "bool \<Rightarrow> pipe \<Rightarrow> pipe \<times> bool" where
  "pipe_close writable pi =
     (let pi1 = (if writable then pi\<lparr>writeopen := False, read_sem := read_sem pi + 1\<rparr>
                 else pi\<lparr>readopen := False, write_sem := write_sem pi + 1\<rparr>)
      in (pi1, \<not> readopen pi1 \<and> \<not> writeopen pi1))"

text \<open>How a stretch of a call ends: with the result of the call, or waiting after \<open>i\<close> bytes.\<close>

datatype pipe_end = Returns int | Waits nat

definition pipe_put :: "u8 \<Rightarrow> pipe \<Rightarrow> pipe" where
  "pipe_put ch pi = pi\<lparr>pdata := (pdata pi)[unat (nwrite pi) mod PIPESIZE := ch], nwrite := nwrite pi + 1\<rparr>"

text \<open>The loop of \<^verbatim>\<open>pipe_write\<close> with \<open>m\<close> bytes to go of \<open>i + m\<close>, with the value its counter has at the end.
  Every iteration asks again whether the process has been killed: \<open>killed i\<close> is the answer after \<open>i\<close>
  bytes.\<close>

primrec pipe_write_loop :: "(nat \<Rightarrow> bool) \<Rightarrow> (nat \<Rightarrow> u8 option) \<Rightarrow> nat \<Rightarrow> nat \<Rightarrow> pipe \<Rightarrow> pipe \<times> nat \<times> pipe_end" where
  "pipe_write_loop killed src i 0 pi = (pi\<lparr>read_sem := read_sem pi + 1\<rparr>, i, Returns (int i))"
| "pipe_write_loop killed src i (Suc m) pi =
     (if \<not> readopen pi \<or> killed i then (pi, i, Returns (- 1))
      else if PIPE_FULL pi then (pi\<lparr>read_sem := read_sem pi + 1\<rparr>, i, Waits i)
      else (case src i of
              None \<Rightarrow> (pi\<lparr>read_sem := read_sem pi + 1\<rparr>, i, Returns (int i))
            | Some ch \<Rightarrow> pipe_write_loop killed src (Suc i) m (pipe_put ch pi)))"

definition pipe_write :: "(nat \<Rightarrow> bool) \<Rightarrow> (nat \<Rightarrow> u8 option) \<Rightarrow> nat \<Rightarrow> nat \<Rightarrow> pipe \<Rightarrow> pipe \<times> nat \<times> pipe_end" where
  "pipe_write killed src i n pi = pipe_write_loop killed src i (n - i) pi"

text \<open>The loop of \<^verbatim>\<open>pipe_read\<close>, with the bytes it delivers.\<close>

primrec pipe_read_loop :: "(nat \<Rightarrow> bool) \<Rightarrow> nat \<Rightarrow> nat \<Rightarrow> pipe \<Rightarrow> pipe \<times> u8 list" where
  "pipe_read_loop dst i 0 pi = (pi, [])"
| "pipe_read_loop dst i (Suc m) pi =
     (if PIPE_EMPTY pi then (pi, [])
      else let ch = pdata pi ! (unat (nread pi) mod PIPESIZE) in
        if \<not> dst i then (pi, [])
        else let (pi1, bs) = pipe_read_loop dst (Suc i) m (pi\<lparr>nread := nread pi + 1\<rparr>) in (pi1, ch # bs))"

definition pipe_read :: "bool \<Rightarrow> (nat \<Rightarrow> bool) \<Rightarrow> nat \<Rightarrow> pipe \<Rightarrow> pipe \<times> u8 list \<times> pipe_end" where
  "pipe_read killed dst n pi =
     (if PIPE_EMPTY pi \<and> writeopen pi then
        if killed then (pi, [], Returns (- 1)) else (pi, [], Waits 0)
      else let (pi1, bs) = pipe_read_loop dst 0 n pi in
        (pi1\<lparr>write_sem := write_sem pi1 + 1\<rparr>, bs, Returns (int (length bs))))"

definition pipe_empty :: "pipe \<Rightarrow> bool" where
  "pipe_empty pi \<longleftrightarrow> nread pi = nwrite pi"

definition pipe_full :: "pipe \<Rightarrow> bool" where
  "pipe_full pi \<longleftrightarrow> nread pi + of_nat PIPESIZE = nwrite pi"

section \<open>The contents of a pipe\<close>

definition pcount :: "pipe \<Rightarrow> nat" where
  "pcount pi = unat (nwrite pi - nread pi)"

definition contents :: "pipe \<Rightarrow> u8 list" where
  "contents pi = map (\<lambda>k. pdata pi ! ((unat (nread pi) + k) mod PIPESIZE)) [0..<pcount pi]"

definition pipe_ok :: "pipe \<Rightarrow> bool" where
  "pipe_ok pi \<longleftrightarrow> length (pdata pi) = PIPESIZE \<and> pcount pi \<le> PIPESIZE"

lemma length_contents [simp]: "length (contents pi) = pcount pi"
  by (simp add: contents_def)

lemma empty_iff: "PIPE_EMPTY pi \<longleftrightarrow> contents pi = []"
  by (auto simp: PIPE_EMPTY_def contents_def pcount_def unat_eq_zero)

lemma full_iff: "pipe_ok pi \<Longrightarrow> PIPE_FULL pi \<longleftrightarrow> length (contents pi) = PIPESIZE"
proof -
  have "nwrite pi = nread pi + of_nat PIPESIZE \<longleftrightarrow> nwrite pi - nread pi = of_nat PIPESIZE"
    by (simp add: algebra_simps)
  also have "\<dots> \<longleftrightarrow> unat (nwrite pi - nread pi) = PIPESIZE"
    by (simp add: PIPESIZE_def word_unat_eq_iff)
  finally show ?thesis by (simp add: PIPE_FULL_def pcount_def)
qed

lemma unat_add_1_mod: "unat (x + 1 :: u32) mod 512 = (unat x + 1) mod 512"
  by (simp add: unat_word_ariths mod_mod_cancel)

lemma nwrite_index: "unat (nwrite pi) mod PIPESIZE = (unat (nread pi) + pcount pi) mod PIPESIZE"
proof -
  have "unat (nread pi + (nwrite pi - nread pi)) = (unat (nread pi) + pcount pi) mod 2 ^ 32"
    unfolding pcount_def unat_word_ariths(1) by simp
  then have "unat (nwrite pi) = (unat (nread pi) + pcount pi) mod 2 ^ 32" by simp
  then show ?thesis by (simp add: PIPESIZE_def mod_mod_cancel)
qed

text \<open>Indices of different bytes in the ring are different.\<close>

lemma ring_index_neq: "j < k \<Longrightarrow> k < PIPESIZE \<Longrightarrow> (a + j) mod PIPESIZE \<noteq> (a + k) mod PIPESIZE"
proof
  assume h: "j < k" "k < PIPESIZE" "(a + j) mod PIPESIZE = (a + k) mod PIPESIZE"
  then have "(a + k - (a + j)) mod PIPESIZE = 0" by (metis mod_eq_dvd_iff_nat add_le_cancel_left dvd_imp_mod_0 less_imp_le)
  then show False using h(1,2) by simp
qed

lemma put_ok:
  assumes ok: "pipe_ok pi" and nf: "\<not> PIPE_FULL pi"
  shows "pipe_ok (pipe_put ch pi)" "contents (pipe_put ch pi) = contents pi @ [ch]"
    "readopen (pipe_put ch pi) = readopen pi" "writeopen (pipe_put ch pi) = writeopen pi"
proof -
  have lt: "pcount pi < PIPESIZE" using ok nf full_iff [OF ok] by (simp add: pipe_ok_def)
  have c: "pcount (pipe_put ch pi) = Suc (pcount pi)"
  proof -
    have "unat (nwrite pi - nread pi + 1) = Suc (unat (nwrite pi - nread pi))"
      using lt by (simp add: unat_word_ariths(1) pcount_def PIPESIZE_def)
    then show ?thesis by (simp add: pcount_def pipe_put_def algebra_simps)
  qed
  show "pipe_ok (pipe_put ch pi)" using ok lt c by (simp add: pipe_ok_def) (simp add: pipe_put_def)
  let ?w = "unat (nwrite pi) mod PIPESIZE"
  have len: "?w < length (pdata pi)" using ok by (simp add: pipe_ok_def PIPESIZE_def)
  have sel: "pdata (pipe_put ch pi) = (pdata pi)[?w := ch]" "nread (pipe_put ch pi) = nread pi"
    by (simp_all add: pipe_put_def)
  have "pdata (pipe_put ch pi) ! ((unat (nread pi) + k) mod PIPESIZE) = pdata pi ! ((unat (nread pi) + k) mod PIPESIZE)"
    if "k < pcount pi" for k
    using ring_index_neq [OF that lt, of "unat (nread pi)"] nwrite_index [of pi] by (simp add: sel)
  then show "contents (pipe_put ch pi) = contents pi @ [ch]"
    using len by (simp add: contents_def c sel(2)) (simp add: sel nwrite_index [symmetric])
qed (simp_all add: pipe_put_def)

lemma get_ok:
  assumes ok: "pipe_ok pi" and ne: "contents pi = b # bs"
  shows "pdata pi ! (unat (nread pi) mod PIPESIZE) = b" "pipe_ok (pi\<lparr>nread := nread pi + 1\<rparr>)"
    "contents (pi\<lparr>nread := nread pi + 1\<rparr>) = bs"
proof -
  have pos: "pcount pi = Suc (length bs)" using length_contents [of pi] ne by simp
  have up: "[0..<pcount pi] = 0 # map Suc [0..<length bs]" by (simp add: pos upt_conv_Cons map_Suc_upt del: upt_Suc)
  have c: "pcount (pi\<lparr>nread := nread pi + 1\<rparr>) = length bs"
  proof -
    have "nwrite pi - nread pi \<noteq> 0" using pos by (auto simp: pcount_def)
    then have "unat (nwrite pi - nread pi - 1) = unat (nwrite pi - nread pi) - 1" by (rule unat_minus_one)
    then show ?thesis using pos by (simp add: pcount_def algebra_simps)
  qed
  show "pdata pi ! (unat (nread pi) mod PIPESIZE) = b" using ne by (simp add: contents_def up)
  show "pipe_ok (pi\<lparr>nread := nread pi + 1\<rparr>)" using ok pos c by (simp add: pipe_ok_def)
  have i: "(unat (nread pi + 1) + k) mod PIPESIZE = (unat (nread pi) + Suc k) mod PIPESIZE" for k
  proof -
    have "(unat (nread pi + 1) + k) mod 512 = (unat (nread pi + 1) mod 512 + k) mod 512" by (simp only: mod_add_left_eq)
    also have "\<dots> = (unat (nread pi) + 1 + k) mod 512" by (simp only: unat_add_1_mod mod_add_left_eq)
    finally show ?thesis by (simp add: PIPESIZE_def)
  qed
  have "bs = map (\<lambda>k. pdata pi ! ((unat (nread pi) + Suc k) mod PIPESIZE)) [0..<length bs]"
    using ne by (simp add: contents_def up comp_def)
  then show "contents (pi\<lparr>nread := nread pi + 1\<rparr>) = bs" by (simp add: contents_def c i)
qed

section \<open>Writing and reading\<close>

text \<open>How a stretch of \<^verbatim>\<open>pipe_write\<close> ends, by how far it got and the pipe it leaves.\<close>

definition write_end :: "(nat \<Rightarrow> bool) \<Rightarrow> nat \<Rightarrow> pipe \<Rightarrow> nat \<Rightarrow> pipe_end" where
  "write_end killed n pi' j =
     (if j = n then Returns (int n) else if \<not> readopen pi' \<or> killed j then Returns (- 1)
      else if length (contents pi') = PIPESIZE then Waits j else Returns (int j))"

lemma pipe_sem_simps [simp]:
  "pipe_ok (pi\<lparr>read_sem := x\<rparr>) = pipe_ok pi" "contents (pi\<lparr>read_sem := x\<rparr>) = contents pi"
  "pipe_ok (pi\<lparr>write_sem := x\<rparr>) = pipe_ok pi" "contents (pi\<lparr>write_sem := x\<rparr>) = contents pi"
  "pcount (pi\<lparr>read_sem := x\<rparr>) = pcount pi" "pcount (pi\<lparr>write_sem := x\<rparr>) = pcount pi"
  by (simp_all add: pipe_ok_def contents_def pcount_def)

text \<open>What a stretch of \<^verbatim>\<open>pipe_write\<close> does: it appends the next bytes of the source.\<close>

lemma write_loop_ok:
  assumes "pipe_ok pi" "pipe_write_loop killed src i m pi = (pi', j, e)"
  shows "pipe_ok pi' \<and> readopen pi' = readopen pi \<and> writeopen pi' = writeopen pi \<and> i \<le> j \<and> j \<le> i + m \<and>
    contents pi' = contents pi @ map (the \<circ> src) [i..<j] \<and>
    (\<forall>x. i \<le> x \<and> x < j \<longrightarrow> readopen pi \<and> \<not> killed x \<and> src x \<noteq> None) \<and> e = write_end killed (i + m) pi' j \<and>
    (e = Returns (int j) \<and> j < i + m \<longrightarrow> src j = None) \<and>
    read_sem pi' = read_sem pi + (if e = Returns (- 1) then 0 else 1)"
  using assms
proof (induction m arbitrary: i pi)
  case 0
  then show ?case by (auto simp: write_end_def)
next
  case (Suc m)
  consider (dead) "\<not> readopen pi \<or> killed i" | (full) "readopen pi" "\<not> killed i" "PIPE_FULL pi"
    | (fault) "readopen pi" "\<not> killed i" "\<not> PIPE_FULL pi" "src i = None"
    | (put) ch where "readopen pi" "\<not> killed i" "\<not> PIPE_FULL pi" "src i = Some ch" by fastforce
  then show ?case
  proof cases
    case dead
    then show ?thesis using Suc.prems by (auto simp: write_end_def)
  next
    case full
    then show ?thesis using Suc.prems full_iff [OF Suc.prems(1)] by (auto simp: write_end_def)
  next
    case fault
    then show ?thesis using Suc.prems full_iff [OF Suc.prems(1)] by (auto simp: write_end_def)
  next
    case put
    note p = put_ok [OF Suc.prems(1) put(3), of ch]
    have run: "pipe_write_loop killed src (Suc i) m (pipe_put ch pi) = (pi', j, e)" using Suc.prems(2) put by simp
    have rs: "read_sem (pipe_put ch pi) = read_sem pi" by (simp add: pipe_put_def)
    note ih = Suc.IH [OF p(1) run]
    have j: "Suc i \<le> j" using ih by blast
    then have "[i..<j] = i # [Suc i..<j]" by (simp add: upt_conv_Cons)
    then have "contents pi' = contents pi @ map (the \<circ> src) [i..<j]" using ih p(2) put(4) by simp
    moreover have "readopen pi \<and> \<not> killed x \<and> src x \<noteq> None" if "i \<le> x" "x < j" for x
      using ih put that p(3) by (cases "x = i") auto
    ultimately show ?thesis using ih p(3,4) rs put(1) by simp
  qed
qed

lemma read_loop_ok:
  assumes "pipe_ok pi" "pipe_read_loop dst i m pi = (pi', bs)"
  shows "pipe_ok pi' \<and> contents pi = bs @ contents pi' \<and> readopen pi' = readopen pi \<and> writeopen pi' = writeopen pi \<and> length bs \<le> m \<and>
    (length bs = m \<or> contents pi' = [] \<or> \<not> dst (i + length bs))"
  using assms
proof (induction m arbitrary: i pi bs)
  case (Suc m)
  show ?case
  proof (cases "PIPE_EMPTY pi")
    case True
    then show ?thesis using Suc.prems empty_iff by auto
  next
    case False
    then obtain b cs where c: "contents pi = b # cs" using empty_iff [of pi] by (cases "contents pi") auto
    note g = get_ok [OF Suc.prems(1) c]
    show ?thesis
    proof (cases "dst i")
      case True
      obtain bs1 where r: "pipe_read_loop dst (Suc i) m (pi\<lparr>nread := nread pi + 1\<rparr>) = (pi', bs1)" "bs = b # bs1"
        using Suc.prems(2) False True g(1) by (auto split: prod.splits)
      then show ?thesis using Suc.IH [OF g(2) r(1)] g(3) c by auto
    next
      case no: False
      then show ?thesis using Suc.prems False by auto
    qed
  qed
qed auto

section \<open>Histories\<close>

text \<open>What can happen to a pipe: a stretch of a write by any thread, of a read by any thread, and the
  closing of an end.\<close>

datatype pevent = PWrite "nat \<Rightarrow> bool" "nat \<Rightarrow> u8 option" nat nat | PRead bool "nat \<Rightarrow> bool" nat | PClose bool

text \<open>The state is the pipe, the bytes the writers have taken from their sources and those the readers
  have delivered, from the beginning.\<close>

fun pipe_ev :: "pevent \<Rightarrow> pipe \<times> u8 list \<times> u8 list \<Rightarrow> pipe \<times> u8 list \<times> u8 list" where
  "pipe_ev (PWrite killed src i n) (pi, ws, rs) =
     (let (pi1, j, e) = pipe_write killed src i n pi in (pi1, ws @ map (the \<circ> src) [i..<j], rs))"
| "pipe_ev (PRead killed dst n) (pi, ws, rs) = (let (pi1, bs, e) = pipe_read killed dst n pi in (pi1, ws, rs @ bs))"
| "pipe_ev (PClose writable) (pi, ws, rs) = (fst (pipe_close writable pi), ws, rs)"

lemma write_taken:
  assumes "pipe_ok pi" "pipe_write killed src i n pi = (pi', j, e)"
  shows "pipe_ok pi'" "contents pi' = contents pi @ map (the \<circ> src) [i..<j]"
  using write_loop_ok [OF assms(1) assms(2) [unfolded pipe_write_def]] by auto

lemma read_given:
  assumes "pipe_ok pi" "pipe_read killed dst n pi = (pi', bs, e)"
  shows "pipe_ok pi'" "contents pi = bs @ contents pi'"
proof -
  obtain pi1 cs where r: "pipe_read_loop dst 0 n pi = (pi1, cs)" by fastforce
  have "pipe_ok pi' \<and> contents pi = bs @ contents pi'"
    using read_loop_ok [OF assms(1) r] assms r by (auto simp: pipe_read_def split: if_splits)
  then show "pipe_ok pi'" "contents pi = bs @ contents pi'" by auto
qed

text \<open>C12.  Whatever the readers and writers do, in any order, the bytes read from a pipe followed by those
  still in it are exactly the bytes written to it, in order, and a pipe never holds more than
  \<^verbatim>\<open>PIPESIZE\<close> bytes, although its counters wrap around.\<close>

theorem pipe_stream:
  assumes "pipe_ok pi" "fold pipe_ev evs (pi, ws, rs) = (pi', ws', rs')" "ws = rs @ contents pi"
  shows "ws' = rs' @ contents pi' \<and> length (contents pi') \<le> PIPESIZE"
proof -
  have "ws' = rs' @ contents pi' \<and> pipe_ok pi'"
    using assms
  proof (induction evs arbitrary: pi ws rs)
    case (Cons ev evs)
    obtain pi1 ws1 rs1 where s: "pipe_ev ev (pi, ws, rs) = (pi1, ws1, rs1)" by (metis prod_cases3)
    have "pipe_ok pi1 \<and> ws1 = rs1 @ contents pi1"
    proof (cases ev)
      case (PWrite killed src i n)
      then show ?thesis using s write_taken [OF Cons.prems(1), of killed src i n] Cons.prems(3) by (auto split: prod.splits)
    next
      case (PRead killed dst n)
      then show ?thesis using s read_given [OF Cons.prems(1), of killed dst n] Cons.prems(3) by (auto split: prod.splits)
    next
      case (PClose x)
      then show ?thesis using s Cons.prems(1,3)
        by (auto simp: pipe_close_def Let_def pipe_ok_def contents_def pcount_def)
    qed
    then show ?case using Cons.IH [of pi1 ws1 rs1] Cons.prems(2) s by simp
  qed simp
  then show ?thesis by (simp add: pipe_ok_def)
qed

lemma alloc_ok: "length d = PIPESIZE \<Longrightarrow> pipe_ok (pipe_alloc d)" "contents (pipe_alloc d) = []"
  by (simp_all add: pipe_alloc_def pipe_ok_def contents_def pcount_def)

theorem pipe_stream_witness:
  "\<exists>pi ws rs. fold pipe_ev [PWrite (\<lambda>_. False) (\<lambda>i. Some 7) 0 600, PRead False (\<lambda>_. True) 100] (pipe_alloc (replicate 512 0), [], []) =
     (pi, ws, rs) \<and> ws = rs @ contents pi \<and> length (contents pi) \<le> 512"
proof -
  have ok: "pipe_ok (pipe_alloc (replicate 512 0))" by (rule alloc_ok) (simp add: PIPESIZE_def)
  obtain pi ws rs where r: "fold pipe_ev [PWrite (\<lambda>_. False) (\<lambda>i. Some 7) 0 600, PRead False (\<lambda>_. True) 100] (pipe_alloc (replicate 512 0), [], []) =
     (pi, ws, rs)" by (metis prod_cases3)
  have "ws = rs @ contents pi \<and> length (contents pi) \<le> PIPESIZE" by (rule pipe_stream [OF ok r]) (simp add: alloc_ok)
  then show ?thesis using r unfolding PIPESIZE_def by blast
qed

text \<open>C37.  What \<^verbatim>\<open>pipe_write\<close> does up to its return or the first wait.  It puts the first \<open>j\<close> bytes of the source
  into the pipe, after what is there.  With all bytes written it returns their number; otherwise it
  fails exactly when the reader is gone or the process is found killed after those \<open>j\<close> bytes, also
  when some are already written; otherwise it waits exactly on a full pipe, and else it returns \<open>j\<close>
  because the source faults there.  The readers are signalled unless it fails.\<close>

theorem pipe_write_result:
  assumes "pipe_ok pi" "pipe_write killed src 0 n pi = (pi', j, e)"
  shows "j \<le> n \<and> contents pi' = contents pi @ map (the \<circ> src) [0..<j] \<and>
    (\<forall>x<j. readopen pi \<and> \<not> killed x \<and> src x \<noteq> None) \<and>
    e = (if j = n then Returns (int n) else if \<not> readopen pi \<or> killed j then Returns (- 1)
         else if length (contents pi') = PIPESIZE then Waits j else Returns (int j)) \<and>
    (e = Returns (int j) \<and> j < n \<longrightarrow> src j = None) \<and>
    read_sem pi' = read_sem pi + (if e = Returns (- 1) then 0 else 1)"
  using write_loop_ok [OF assms(1) assms(2) [unfolded pipe_write_def]] unfolding write_end_def by simp

text \<open>A process that is killed after it has written three bytes of five.\<close>

theorem pipe_write_result_witness:
  "\<exists>pi'. pipe_write (\<lambda>i. 3 \<le> i) (\<lambda>i. Some 9) 0 5 (pipe_alloc (replicate 512 0)) = (pi', 3, Returns (- 1)) \<and>
    contents pi' = [9, 9, 9]"
proof -
  let ?p = "pipe_alloc (replicate 512 0)"
  have ok: "pipe_ok ?p" by (rule alloc_ok) (simp add: PIPESIZE_def)
  obtain pi' j e where r: "pipe_write (\<lambda>i. 3 \<le> i) (\<lambda>i. Some 9) 0 5 ?p = (pi', j, e)" by (metis prod_cases3)
  note m = pipe_write_result [OF ok r]
  have op: "readopen ?p" by (simp add: pipe_alloc_def)
  have "j \<le> 3" using m by (metis le_less_linear order_refl)
  moreover have "\<not> j < 3"
  proof
    assume j: "j < 3"
    have "contents pi' = map (the \<circ> (\<lambda>i. Some 9)) [0..<j]" using m alloc_ok(2) [of "replicate 512 0"] by simp
    then have "length (contents pi') = j" by (simp only: length_map length_upt diff_zero)
    then have l: "length (contents pi') \<noteq> PIPESIZE" using j by (simp only: PIPESIZE_def)
    have "e = (if j = 5 then Returns (int 5) else if \<not> readopen ?p \<or> 3 \<le> j then Returns (- 1)
         else if length (contents pi') = PIPESIZE then Waits j else Returns (int j))" using m by blast
    then have "e = Returns (int j)" using op j l by (simp only: if_False not_le) simp
    moreover have "e = Returns (int j) \<and> j < 5 \<longrightarrow> Some (9::u8) = None" using m by blast
    ultimately show False using j by simp
  qed
  ultimately have "j = 3" by linarith
  then show ?thesis using r m alloc_ok(2) by (auto simp: upt_rec numeral_eq_Suc)
qed

end
