(* ===== verification/Hash.thy ===== *)
theory Hash
  imports Prelude
begin

text \<open>
  The kernel's chained hash tables (\<^verbatim>\<open>src/lib/hash.c\<close>): process and thread identifiers, futexes and
  inode names.  A bucket is the list of its nodes in the order of the chain.  Values that the table
  releases with \<^verbatim>\<open>kfree\<close> are recorded.
\<close>

datatype hash_type = PID_MAP | TID_MAP | IPC_IDX_MAP | FUTEX_MAP | INODE_MAP

text \<open>The \<^verbatim>\<open>void *key\<close> of the operations, by what it points to.\<close>

datatype hkey = KId u32 | KPtr u64 | KName string

record 'v hash_node =
  nkey :: hkey
  nvalue :: 'v

record 'v hash_table =
  htype :: hash_type
  hsize :: nat
  hash_head :: "'v hash_node list list"
  hfreed :: "'v list"

definition hash_str :: "string \<Rightarrow> u64" where
  "hash_str name = fold (\<lambda>c h. h * 31 + of_nat (of_char c)) name 0"

text \<open>Which keys a table takes; on another one the switch statements read the wrong member of the
  union, which is undefined.\<close>

fun key_ok :: "hash_type \<Rightarrow> hkey \<Rightarrow> bool" where
  "key_ok PID_MAP (KId _) = True"
| "key_ok TID_MAP (KId _) = True"
| "key_ok IPC_IDX_MAP (KId _) = True"
| "key_ok FUTEX_MAP (KPtr _) = True"
| "key_ok INODE_MAP (KName _) = True"
| "key_ok _ _ = False"

text \<open>An \<^verbatim>\<open>int\<close> key is widened with its sign before the division by the unsigned size.\<close>

fun hash_code :: "hkey \<Rightarrow> u64" where
  "hash_code (KId i) = scast i"
| "hash_code (KPtr p) = p"
| "hash_code (KName n) = hash_str n"

definition hash_get_entry :: "'v hash_table \<Rightarrow> hkey \<Rightarrow> nat option" where
  "hash_get_entry table key = do {
     ASSERT (key_ok (htype table) key);
     ASSERT (hsize table \<noteq> 0);
     Some (unat (hash_code key) mod hsize table)
   }"

definition hash_bool :: "'v hash_node \<Rightarrow> hkey \<Rightarrow> bool" where
  "hash_bool node key =
     (case (nkey node, key) of
        (KId i, KId j) \<Rightarrow> i = j
      | (KPtr p, KPtr q) \<Rightarrow> p = q
      | (KName n, KName m) \<Rightarrow> hash_str n = hash_str m
      | _ \<Rightarrow> False)"

text \<open>The node found, with its place in the bucket.\<close>

definition hash_lookup :: "'v hash_table \<Rightarrow> hkey \<Rightarrow> (nat \<times> 'v hash_node option) option" where
  "hash_lookup table key = do {
     e \<leftarrow> hash_get_entry table key;
     Some (e, List.find (\<lambda>node. hash_bool node key) (hash_head table ! e))
   }"

text \<open>\<^verbatim>\<open>hash_assign\<close>: the node keeps a copy of the key; a name is copied with its terminator into a
  buffer of \<^verbatim>\<open>NAME_LONG_MAX / 4\<close> bytes.  \<^verbatim>\<open>safestrcpy\<close> is given the length of the name as its bound and
  writes nothing at all when that is 0, so that under the empty name the buffer keeps the string
  \<open>old\<close> that the memory of the node happens to hold.\<close>

definition NAME_LONG_MAX :: nat where
  "NAME_LONG_MAX = 255"

definition hash_assign :: "string \<Rightarrow> hkey \<Rightarrow> hkey option" where
  "hash_assign old key =
     (case key of
        KName n \<Rightarrow> do { ASSERT (length n < NAME_LONG_MAX div 4); Some (KName (if n = [] then old else n)) }
      | _ \<Rightarrow> Some key)"

definition owns_values :: "hash_type \<Rightarrow> bool" where
  "owns_values t \<longleftrightarrow> t = INODE_MAP \<or> t = FUTEX_MAP"

fun set_first :: "('a \<Rightarrow> bool) \<Rightarrow> ('a \<Rightarrow> 'a) \<Rightarrow> 'a list \<Rightarrow> 'a list" where
  "set_first P f [] = []"
| "set_first P f (x # xs) = (if P x then f x # xs else x # set_first P f xs)"

fun del_first :: "('a \<Rightarrow> bool) \<Rightarrow> 'a list \<Rightarrow> 'a list" where
  "del_first P [] = []"
| "del_first P (x # xs) = (if P x then xs else x # del_first P xs)"

text \<open>\<open>mem\<close> is the result of \<^verbatim>\<open>kmalloc\<close>: the string that the memory of a new node holds where its name
  will be, or \<open>None\<close> for a null pointer, which the code does not test for before it writes the key.\<close>

definition hash_insert :: "string option \<Rightarrow> 'v hash_table \<Rightarrow> hkey \<Rightarrow> 'v \<Rightarrow> 'v hash_table option" where
  "hash_insert mem table key v = do {
     (e, found) \<leftarrow> hash_lookup table key;
     case found of
       None \<Rightarrow> do {
         old \<leftarrow> mem;
         k \<leftarrow> hash_assign old key;
         Some (table\<lparr>hash_head := (hash_head table)[e := (hash_head table ! e) @ [\<lparr>nkey = k, nvalue = v\<rparr>]]\<rparr>)
       }
     | Some node \<Rightarrow>
         Some (table\<lparr>hash_head := (hash_head table)
                       [e := set_first (\<lambda>n. hash_bool n key) (\<lambda>n. n\<lparr>nvalue := v\<rparr>) (hash_head table ! e)],
                     hfreed := (if owns_values (htype table) then hfreed table @ [nvalue node] else hfreed table)\<rparr>)
   }"

definition hash_delete :: "'v hash_table \<Rightarrow> hkey \<Rightarrow> 'v hash_table option" where
  "hash_delete table key = do {
     (e, found) \<leftarrow> hash_lookup table key;
     case found of
       None \<Rightarrow> Some table
     | Some node \<Rightarrow>
         Some (table\<lparr>hash_head := (hash_head table)[e := del_first (\<lambda>n. hash_bool n key) (hash_head table ! e)],
                     hfreed := (if owns_values (htype table) then hfreed table @ [nvalue node] else hfreed table)\<rparr>)
   }"

text \<open>\<^verbatim>\<open>hash_destroy\<close> releases every node; the values it releases.\<close>

definition hash_destroy :: "'v hash_table \<Rightarrow> 'v list" where
  "hash_destroy table =
     (if owns_values (htype table) then hfreed table @ concat (map (map nvalue) (hash_head table)) else hfreed table)"

definition hash_table_entry_init :: "hash_type \<Rightarrow> nat \<Rightarrow> 'v hash_table" where
  "hash_table_entry_init t n = \<lparr>htype = t, hsize = n, hash_head = replicate n [], hfreed = []\<rparr>"

text \<open>\<^verbatim>\<open>hash_val\<close>: the case of \<^verbatim>\<open>FUTEX_MAP\<close> falls through and hashes the bytes of the pointer as a
  name; \<open>pname\<close> is the string found there.\<close>

definition hash_val :: "(u64 \<Rightarrow> string) \<Rightarrow> 'v hash_node \<Rightarrow> hash_type \<Rightarrow> u64 option" where
  "hash_val pname node t =
     (case (t, nkey node) of
        (PID_MAP, KId i) \<Rightarrow> Some (scast i)
      | (TID_MAP, KId i) \<Rightarrow> Some (scast i)
      | (IPC_IDX_MAP, KId i) \<Rightarrow> Some (scast i)
      | (FUTEX_MAP, KPtr p) \<Rightarrow> Some (hash_str (pname p))
      | (INODE_MAP, KName n) \<Rightarrow> Some (hash_str n)
      | _ \<Rightarrow> None)"

end
