(* ===== verification/Dict_Spec.thy ===== *)
theory Dict_Spec
  imports Prelude
begin

text \<open>
  The contract of a dictionary that overwrites: a lookup returns what was last stored under the key,
  storing replaces, deleting removes.  Keys are compared by the class the dictionary puts them in.
\<close>

datatype ('k, 'v) dict_op = Get 'k | Put 'k 'v | Del 'k

fun dict_key :: "('k, 'v) dict_op \<Rightarrow> 'k" where
  "dict_key (Get k) = k"
| "dict_key (Put k v) = k"
| "dict_key (Del k) = k"

text \<open>The answers of a map to a sequence of operations, and those of a dictionary.\<close>

fun map_answers :: "('k \<Rightarrow> 'c) \<Rightarrow> ('c \<rightharpoonup> 'v) \<Rightarrow> ('k, 'v) dict_op list \<Rightarrow> 'v option list" where
  "map_answers cls m [] = []"
| "map_answers cls m (Get k # xs) = m (cls k) # map_answers cls m xs"
| "map_answers cls m (Put k v # xs) = map_answers cls (m(cls k \<mapsto> v)) xs"
| "map_answers cls m (Del k # xs) = map_answers cls (m(cls k := None)) xs"

fun dict_answers :: "('s \<Rightarrow> 'k \<Rightarrow> 'v option option) \<Rightarrow> ('s \<Rightarrow> 'k \<Rightarrow> 'v \<Rightarrow> 's option) \<Rightarrow> ('s \<Rightarrow> 'k \<Rightarrow> 's option) \<Rightarrow>
    's \<Rightarrow> ('k, 'v) dict_op list \<Rightarrow> 'v option list option" where
  "dict_answers look ins del s [] = Some []"
| "dict_answers look ins del s (Get k # xs) = do { r \<leftarrow> look s k; rs \<leftarrow> dict_answers look ins del s xs; Some (r # rs) }"
| "dict_answers look ins del s (Put k v # xs) = do { s1 \<leftarrow> ins s k v; dict_answers look ins del s1 xs }"
| "dict_answers look ins del s (Del k # xs) = do { s1 \<leftarrow> del s k; dict_answers look ins del s1 xs }"

locale dict =
  fixes inv :: "'s \<Rightarrow> bool"
    and abs :: "'s \<Rightarrow> 'c \<rightharpoonup> 'v"
    and cls :: "'k \<Rightarrow> 'c"
    and keyok :: "'s \<Rightarrow> 'k \<Rightarrow> bool"
    and look :: "'s \<Rightarrow> 'k \<Rightarrow> 'v option option"
    and ins :: "'s \<Rightarrow> 'k \<Rightarrow> 'v \<Rightarrow> 's option"
    and del :: "'s \<Rightarrow> 'k \<Rightarrow> 's option"
  assumes look_law: "inv s \<Longrightarrow> keyok s k \<Longrightarrow> look s k = Some (abs s (cls k))"
    and ins_law: "inv s \<Longrightarrow> keyok s k \<Longrightarrow>
      \<exists>s'. ins s k v = Some s' \<and> inv s' \<and> abs s' = (abs s)(cls k \<mapsto> v) \<and> keyok s' = keyok s"
    and del_law: "inv s \<Longrightarrow> keyok s k \<Longrightarrow>
      \<exists>s'. del s k = Some s' \<and> inv s' \<and> abs s' = (abs s)(cls k := None) \<and> keyok s' = keyok s"
begin

lemma answers:
  assumes "inv s" "\<And>x. x \<in> set xs \<Longrightarrow> keyok s (dict_key x)"
  shows "dict_answers look ins del s xs = Some (map_answers cls (abs s) xs)"
  using assms
proof (induction xs arbitrary: s)
  case (Cons x xs)
  have key: "keyok s (dict_key x)" using Cons.prems(2) by simp
  show ?case
  proof (cases x)
    case (Get k)
    then show ?thesis using look_law [of s k] Cons key by simp
  next
    case (Put k v)
    obtain s' where "ins s k v = Some s'" "inv s'" "abs s' = (abs s)(cls k \<mapsto> v)" "keyok s' = keyok s"
      using ins_law [of s k v] Cons.prems(1) key Put by auto
    then show ?thesis using Cons.IH [of s'] Cons.prems(2) Put by (simp add: fun_upd_def)
  next
    case (Del k)
    obtain s' where "del s k = Some s'" "inv s'" "abs s' = (abs s)(cls k := None)" "keyok s' = keyok s"
      using del_law [of s k] Cons.prems(1) key Del by auto
    then show ?thesis using Cons.IH [of s'] Cons.prems(2) Del by (simp add: fun_upd_def)
  qed
qed simp

end

end
