(* ===== verification/Hash_Props.thy ===== *)
theory Hash_Props
  imports Hash Dict_Spec
begin

text \<open>
  The hash tables are dictionaries.  The tables of identifiers and futexes compare the keys
  themselves, the table of inode names compares their hash values.
\<close>

datatype hcls = CId u32 | CPtr u64 | CHash u64

fun key_cls :: "hkey \<Rightarrow> hcls" where
  "key_cls (KId i) = CId i"
| "key_cls (KPtr p) = CPtr p"
| "key_cls (KName n) = CHash (hash_str n)"

fun cls_code :: "hcls \<Rightarrow> u64" where
  "cls_code (CId i) = scast i"
| "cls_code (CPtr p) = p"
| "cls_code (CHash h) = h"

lemma hash_code_cls: "hash_code k = cls_code (key_cls k)"
  by (cases k) auto

lemma hash_bool_cls: "hash_bool n k \<longleftrightarrow> key_cls (nkey n) = key_cls k"
  by (cases "nkey n"; cases k) (auto simp: hash_bool_def)

definition slot_no :: "'v hash_table \<Rightarrow> hcls \<Rightarrow> nat" where
  "slot_no table c = unat (cls_code c) mod hsize table"

text \<open>Every node is in the bucket of its key, and no two nodes of a bucket match the same keys.\<close>

definition hash_ok :: "'v hash_table \<Rightarrow> bool" where
  "hash_ok table \<longleftrightarrow> hsize table \<noteq> 0 \<and> length (hash_head table) = hsize table \<and>
     (\<forall>b\<in>set (hash_head table). distinct (map (key_cls \<circ> nkey) b))"

definition bucket_map :: "'v hash_node list \<Rightarrow> hcls \<rightharpoonup> 'v" where
  "bucket_map b = map_of (map (\<lambda>n. (key_cls (nkey n), nvalue n)) b)"

definition hash_map :: "'v hash_table \<Rightarrow> hcls \<rightharpoonup> 'v" where
  "hash_map table c = bucket_map (hash_head table ! slot_no table c) c"

text \<open>A key the table takes, with a name that is not empty and fits into a node.\<close>

definition hkey_ok :: "'v hash_table \<Rightarrow> hkey \<Rightarrow> bool" where
  "hkey_ok table k \<longleftrightarrow> key_ok (htype table) k \<and> (\<forall>n. k = KName n \<longrightarrow> n \<noteq> [] \<and> length n < NAME_LONG_MAX div 4)"

section \<open>Buckets\<close>

lemma find_bucket: "map_option nvalue (List.find (\<lambda>n. hash_bool n k) b) = bucket_map b (key_cls k)"
  by (induction b) (auto simp: bucket_map_def hash_bool_cls)

lemma find_None: "List.find (\<lambda>n. hash_bool n k) b = None \<Longrightarrow> key_cls k \<notin> set (map (key_cls \<circ> nkey) b)"
  by (auto simp: find_None_iff hash_bool_cls)

lemma bucket_append: "key_cls k \<notin> set (map (key_cls \<circ> nkey) b) \<Longrightarrow>
    bucket_map (b @ [\<lparr>nkey = k, nvalue = v\<rparr>]) = (bucket_map b)(key_cls k \<mapsto> v)"
  by (induction b) (auto simp: bucket_map_def fun_eq_iff)

lemma bucket_set: "List.find (\<lambda>n. hash_bool n k) b \<noteq> None \<Longrightarrow>
    bucket_map (set_first (\<lambda>n. hash_bool n k) (\<lambda>n. n\<lparr>nvalue := v\<rparr>) b) = (bucket_map b)(key_cls k \<mapsto> v)"
  by (induction b) (auto simp: bucket_map_def hash_bool_cls fun_eq_iff)

lemma bucket_set_keys: "map (key_cls \<circ> nkey) (set_first P (\<lambda>n. n\<lparr>nvalue := v\<rparr>) b) = map (key_cls \<circ> nkey) b"
  by (induction b) auto

lemma bucket_del: "distinct (map (key_cls \<circ> nkey) b) \<Longrightarrow>
    bucket_map (del_first (\<lambda>n. hash_bool n k) b) = (bucket_map b)(key_cls k := None)"
proof (induction b)
  case (Cons n b)
  have "bucket_map b (key_cls (nkey n)) = None" using Cons.prems by (auto simp: bucket_map_def map_of_eq_None_iff)
  then show ?case using Cons by (auto simp: bucket_map_def hash_bool_cls fun_eq_iff)
qed (simp add: bucket_map_def)

lemma bucket_del_distinct: "distinct (map (key_cls \<circ> nkey) b) \<Longrightarrow> distinct (map (key_cls \<circ> nkey) (del_first P b))"
proof (induction b)
  case (Cons n b)
  have "set (del_first P b) \<subseteq> set b" by (induction b) auto
  then show ?case using Cons by auto
qed simp

section \<open>Tables\<close>

lemma slot_less: "hash_ok table \<Longrightarrow> slot_no table c < length (hash_head table)"
  by (simp add: hash_ok_def slot_no_def)

lemma entry_ok: "hash_ok table \<Longrightarrow> key_ok (htype table) k \<Longrightarrow> hash_get_entry table k = Some (slot_no table (key_cls k))"
  by (simp add: hash_get_entry_def hash_ok_def slot_no_def hash_code_cls)

lemma lookup_eq: "hash_ok table \<Longrightarrow> key_ok (htype table) k \<Longrightarrow>
    hash_lookup table k = Some (slot_no table (key_cls k), List.find (\<lambda>n. hash_bool n k) (hash_head table ! slot_no table (key_cls k)))"
  by (simp add: hash_lookup_def entry_ok)

lemma slot_no_upd [simp]: "slot_no (table\<lparr>hash_head := h, hfreed := f\<rparr>) c = slot_no table c"
  by (simp add: slot_no_def)

text \<open>Replacing the bucket of a key.\<close>

lemma table_upd:
  assumes ok: "hash_ok table" and b: "distinct (map (key_cls \<circ> nkey) b)"
    and e: "e = slot_no table (key_cls k)" and m: "bucket_map b = (bucket_map (hash_head table ! e))(key_cls k := r)"
  shows "hash_ok (table\<lparr>hash_head := (hash_head table)[e := b], hfreed := f\<rparr>)"
    "hash_map (table\<lparr>hash_head := (hash_head table)[e := b], hfreed := f\<rparr>) = (hash_map table)(key_cls k := r)"
proof -
  show "hash_ok (table\<lparr>hash_head := (hash_head table)[e := b], hfreed := f\<rparr>)"
    using ok b by (auto simp: hash_ok_def dest!: set_update_subset_insert [THEN subsetD])
  show "hash_map (table\<lparr>hash_head := (hash_head table)[e := b], hfreed := f\<rparr>) = (hash_map table)(key_cls k := r)"
    using m e slot_less [OF ok] by (auto simp: hash_map_def fun_eq_iff nth_list_update)
qed

lemma hash_insert_ok:
  assumes ok: "hash_ok table" and k: "hkey_ok table k"
  shows "\<exists>table'. hash_insert (Some old) table k v = Some table' \<and> hash_ok table' \<and> hash_map table' = (hash_map table)(key_cls k \<mapsto> v) \<and>
    htype table' = htype table"
proof -
  let ?e = "slot_no table (key_cls k)"
  let ?b = "hash_head table ! ?e"
  have kk: "key_ok (htype table) k" using k by (simp add: hkey_ok_def)
  have d: "distinct (map (key_cls \<circ> nkey) ?b)" using ok slot_less [OF ok] by (simp add: hash_ok_def)
  have as: "hash_assign old k = Some k" using k by (cases k) (auto simp: hash_assign_def hkey_ok_def)
  show ?thesis
  proof (cases "List.find (\<lambda>n. hash_bool n k) ?b")
    case None
    note nk = find_None [OF None]
    have "hash_ok (table\<lparr>hash_head := (hash_head table)[?e := ?b @ [\<lparr>nkey = k, nvalue = v\<rparr>]], hfreed := hfreed table\<rparr>)"
      "hash_map (table\<lparr>hash_head := (hash_head table)[?e := ?b @ [\<lparr>nkey = k, nvalue = v\<rparr>]], hfreed := hfreed table\<rparr>) = (hash_map table)(key_cls k \<mapsto> v)"
      using table_upd [OF ok _ refl, of "?b @ [\<lparr>nkey = k, nvalue = v\<rparr>]" k "Some v" "hfreed table"] bucket_append [OF nk, of v] d nk by auto
    then show ?thesis using None as lookup_eq [OF ok kk] by (simp add: hash_insert_def)
  next
    case (Some node)
    have "List.find (\<lambda>n. hash_bool n k) ?b \<noteq> None" using Some by simp
    from bucket_set [OF this, of v] show ?thesis
      using Some lookup_eq [OF ok kk] d bucket_set_keys [of "\<lambda>n. hash_bool n k" v ?b]
        table_upd [OF ok _ refl, of "set_first (\<lambda>n. hash_bool n k) (\<lambda>n. n\<lparr>nvalue := v\<rparr>) ?b" k "Some v"]
      by (simp add: hash_insert_def)
  qed
qed

lemma hash_delete_ok:
  assumes ok: "hash_ok table" and kk: "key_ok (htype table) k"
  shows "\<exists>table'. hash_delete table k = Some table' \<and> hash_ok table' \<and> hash_map table' = (hash_map table)(key_cls k := None) \<and>
    htype table' = htype table"
proof -
  let ?e = "slot_no table (key_cls k)"
  let ?b = "hash_head table ! ?e"
  have d: "distinct (map (key_cls \<circ> nkey) ?b)" using ok slot_less [OF ok] by (simp add: hash_ok_def)
  show ?thesis
  proof (cases "List.find (\<lambda>n. hash_bool n k) ?b")
    case None
    have "hash_map table (key_cls k) = None" using find_bucket [of k ?b] None by (simp add: hash_map_def)
    then show ?thesis using None lookup_eq [OF ok kk] ok by (simp add: hash_delete_def fun_upd_idem)
  next
    case (Some node)
    then show ?thesis
      using lookup_eq [OF ok kk] table_upd [OF ok bucket_del_distinct [OF d] refl bucket_del [OF d]]
      by (simp add: hash_delete_def)
  qed
qed

text \<open>What \<^verbatim>\<open>hash_lookup\<close> finds is what the map holds.\<close>

definition hash_find :: "'v hash_table \<Rightarrow> hkey \<Rightarrow> 'v option option" where
  "hash_find table k = map_option (\<lambda>(e, n). map_option nvalue n) (hash_lookup table k)"

text \<open>An insertion when the allocation succeeds; what the memory of the node holds, \<open>mem\<close>, may depend on
  anything.\<close>

definition hash_put :: "('v hash_table \<Rightarrow> hkey \<Rightarrow> 'v \<Rightarrow> string) \<Rightarrow> 'v hash_table \<Rightarrow> hkey \<Rightarrow> 'v \<Rightarrow> 'v hash_table option" where
  "hash_put mem table k v = hash_insert (Some (mem table k v)) table k v"

interpretation hasht: dict hash_ok hash_map key_cls hkey_ok hash_find "hash_put mem" hash_delete
  for mem
proof
  fix s :: "'a hash_table" and k :: hkey and v :: 'a
  assume ok: "hash_ok s" and k: "hkey_ok s k"
  have kk: "key_ok (htype s) k" using k by (simp add: hkey_ok_def)
  show "hash_find s k = Some (hash_map s (key_cls k))"
    by (simp add: hash_find_def lookup_eq [OF ok kk] find_bucket hash_map_def)
  show "\<exists>s'. hash_put mem s k v = Some s' \<and> hash_ok s' \<and> hash_map s' = (hash_map s)(key_cls k \<mapsto> v) \<and> hkey_ok s' = hkey_ok s"
    using hash_insert_ok [OF ok k, of "mem s k v" v] by (auto simp: hkey_ok_def fun_eq_iff hash_put_def)
  show "\<exists>s'. hash_delete s k = Some s' \<and> hash_ok s' \<and> hash_map s' = (hash_map s)(key_cls k := None) \<and> hkey_ok s' = hkey_ok s"
    using hash_delete_ok [OF ok kk] by (auto simp: hkey_ok_def fun_eq_iff)
qed

lemma hash_init_ok: "n \<noteq> 0 \<Longrightarrow> hash_ok (hash_table_entry_init t n)" "n \<noteq> 0 \<Longrightarrow> hash_map (hash_table_entry_init t n) = Map.empty"
  by (auto simp: hash_ok_def hash_table_entry_init_def hash_map_def slot_no_def bucket_map_def fun_eq_iff)

text \<open>C13.  A new hash table answers every sequence of insertions, deletions and lookups as a map from the
  classes of the keys does, whatever the memory of its nodes holds: on the tables of identifiers
  and futexes the class of a key is the key, on the table of inode names it is the hash value of the
  name.  The allocations of nodes succeed, and names are not empty and fit into a node.\<close>

theorem hash_table_refines_map:
  assumes "n \<noteq> 0" "\<forall>x\<in>set xs. hkey_ok (hash_table_entry_init t n :: 'v hash_table) (dict_key x)"
  shows "dict_answers hash_find (hash_put mem) hash_delete (hash_table_entry_init t n :: 'v hash_table) xs =
    Some (map_answers key_cls Map.empty xs)"
  using hasht.answers [OF hash_init_ok(1) [OF assms(1)], of xs t mem] assms(2) by (simp add: hash_init_ok(2) [OF assms(1)])

theorem hash_table_refines_map_witness:
  "dict_answers hash_find (hash_put (\<lambda>_ _ _. ''junk'')) hash_delete (hash_table_entry_init PID_MAP 2 :: string hash_table)
     [Put (KId 1) ''a'', Put (KId 3) ''b'', Get (KId 1), Del (KId 3), Get (KId 3), Put (KId 1) ''c'', Get (KId 1)] =
   Some [Some ''a'', None, Some ''c''] \<and>
   dict_answers hash_find (hash_put (\<lambda>_ _ _. ''junk'')) hash_delete (hash_table_entry_init INODE_MAP 2 :: string hash_table)
     [Put (KName ''x'') ''a'', Put (KName ''y'') ''b'', Get (KName ''x''), Get (KName ''z'')] = Some [Some ''a'', None]"
  using hash_table_refines_map [of 2 "[Put (KId 1) ''a'', Put (KId 3) ''b'', Get (KId 1), Del (KId 3), Get (KId 3), Put (KId 1) ''c'', Get (KId 1)]" PID_MAP
      "\<lambda>_ _ _. ''junk''"]
    hash_table_refines_map [of 2 "[Put (KName ''x'') ''a'', Put (KName ''y'') ''b'', Get (KName ''x''), Get (KName ''z'')]" INODE_MAP
      "\<lambda>_ _ _. ''junk''"]
  by (simp add: hkey_ok_def hash_table_entry_init_def NAME_LONG_MAX_def hash_str_def)

text \<open>C38.  The table of inode names confuses names with the same hash value: after one that is not empty has
  been inserted the other is found, and inserting it overwrites and releases the first one's value.\<close>

theorem inode_map_collision:
  assumes "hash_ok table" "htype table = INODE_MAP" "hash_str n = hash_str m" "n \<noteq> []" "length n < NAME_LONG_MAX div 4"
  shows "\<exists>table' e node. hash_insert (Some old) table (KName n) v = Some table' \<and>
    hash_lookup table' (KName m) = Some (e, Some node) \<and> nvalue node = v \<and>
    (\<exists>table''. hash_insert mem table' (KName m) u = Some table'' \<and> hfreed table'' = hfreed table' @ [v])"
proof -
  have k: "hkey_ok table (KName n)" using assms(2,4,5) by (simp add: hkey_ok_def)
  obtain t1 where t1: "hash_insert (Some old) table (KName n) v = Some t1" "hash_ok t1" "hash_map t1 = (hash_map table)(key_cls (KName n) \<mapsto> v)"
    "htype t1 = INODE_MAP" using hash_insert_ok [OF assms(1) k, of old v] assms(2) by auto
  have km: "key_ok (htype t1) (KName m)" using t1(4) by simp
  note l = lookup_eq [OF t1(2) km]
  have "map_option nvalue (List.find (\<lambda>n. hash_bool n (KName m)) (hash_head t1 ! slot_no t1 (key_cls (KName m)))) = Some v"
    unfolding find_bucket using t1(3) assms(3) by (metis fun_upd_same hash_map_def key_cls.simps(3))
  then obtain node where nd: "List.find (\<lambda>n. hash_bool n (KName m)) (hash_head t1 ! slot_no t1 (key_cls (KName m))) = Some node" "nvalue node = v"
    by auto
  then show ?thesis using t1(1,4) l by (auto simp: hash_insert_def owns_values_def)
qed

theorem inode_map_collision_witness:
  "\<exists>table' e node. hash_insert (Some ''junk'') (hash_table_entry_init INODE_MAP 4) (KName ''Aa'') (1::nat) = Some table' \<and>
    hash_lookup table' (KName ''BB'') = Some (e, Some node) \<and> nvalue node = 1"
proof -
  have "hash_str ''Aa'' = hash_str ''BB''" by (simp add: hash_str_def)
  then show ?thesis
    using inode_map_collision [OF hash_init_ok(1), of 4 INODE_MAP "''Aa''" "''BB''" "''junk''" "1::nat" None 2]
    by (auto simp: hash_table_entry_init_def NAME_LONG_MAX_def)
qed

section \<open>Two defects of insertion\<close>

text \<open>An entry inserted under the empty name cannot be found again when the memory of its node held a
  name of another hash value: its key was never written.\<close>

theorem inode_map_empty_name:
  assumes "n \<noteq> 0" "hash_str old \<noteq> 0"
  shows "\<exists>table e. hash_insert (Some old) (hash_table_entry_init INODE_MAP n) (KName []) v = Some table \<and>
    hash_lookup table (KName []) = Some (e, None)"
  using assms
  by (simp add: hash_insert_def hash_lookup_def hash_get_entry_def hash_assign_def hash_table_entry_init_def hash_str_def
      NAME_LONG_MAX_def hash_bool_def)

theorem inode_map_empty_name_witness:
  "\<exists>table e. hash_insert (Some ''junk'') (hash_table_entry_init INODE_MAP 4) (KName []) (1::nat) = Some table \<and>
    hash_lookup table (KName []) = Some (e, None)"
  by (rule inode_map_empty_name) (simp_all add: hash_str_def)

text \<open>An insertion of a new key writes through a null pointer when there is no memory for the node.\<close>

theorem hash_insert_no_memory:
  assumes "hash_ok table" "hkey_ok table k" "hash_map table (key_cls k) = None"
  shows "hash_insert None table k v = None"
proof -
  have kk: "key_ok (htype table) k" using assms(2) by (simp add: hkey_ok_def)
  have "List.find (\<lambda>n. hash_bool n k) (hash_head table ! slot_no table (key_cls k)) = None"
    using find_bucket [of k "hash_head table ! slot_no table (key_cls k)"] assms(3) by (simp add: hash_map_def)
  then show ?thesis using lookup_eq [OF assms(1) kk] by (simp add: hash_insert_def)
qed

theorem hash_insert_no_memory_witness:
  "hash_insert None (hash_table_entry_init PID_MAP 4) (KId 7) (1::nat) = None"
  by (rule hash_insert_no_memory) (simp_all add: hash_init_ok, simp add: hkey_ok_def hash_table_entry_init_def)

end
