(* ===== verification/Vm.thy ===== *)
theory Vm
  imports Kalloc
begin

text \<open>
  Page tables and user memory (\<^verbatim>\<open>src/src/mm/vm.c\<close>, the Sv39 macros of
  \<^verbatim>\<open>src/include/lib/riscv.h\<close>) over the page allocator of theory \<open>Kalloc\<close>.

  Physical memory is the byte memory of theory \<open>Cstring\<close>, which the kernel maps one to one; a page
  table is 512 little-endian 64-bit words of it.  A pointer is an address and \<^verbatim>\<open>NULL\<close> is 0.
  Reading or writing through \<^verbatim>\<open>NULL\<close> is undefined in C and has no result.  Functions run on
  hart \<open>i\<close> with the reclaimer \<open>af\<close> of the page cache, as in theory \<open>Kalloc\<close>.

  A \<^verbatim>\<open>for\<close> loop over addresses carries the number of rounds it may still run; it has no
  result if it wanted another one, so a result is the result of the whole loop.
\<close>

section \<open>Sv39\<close>

definition SUPERPGSIZE :: u64 where "SUPERPGSIZE = 0x200000"
definition PGROUNDUP :: "u64 \<Rightarrow> u64" where "PGROUNDUP sz = ROUND_UP sz PGSIZE"
definition PGROUNDDOWN :: "u64 \<Rightarrow> u64" where "PGROUNDDOWN a = ROUND_DOWN a PGSIZE"
definition SUPERPG_ROUNDUP :: "u64 \<Rightarrow> u64" where
  "SUPERPG_ROUNDUP sz = ROUND_UP sz SUPERPGSIZE"
definition SUPERPG_DOWN :: "u64 \<Rightarrow> u64" where "SUPERPG_DOWN a = ROUND_DOWN a SUPERPGSIZE"

definition PTE_V :: u64 where "PTE_V = 1"
definition PTE_R :: u64 where "PTE_R = 2"
definition PTE_W :: u64 where "PTE_W = 4"
definition PTE_X :: u64 where "PTE_X = 8"
definition PTE_U :: u64 where "PTE_U = 0x10"
definition PTE_D :: u64 where "PTE_D = 0x80"
definition PTE_SHARE :: u64 where "PTE_SHARE = 0x100"
definition PTE_READONLY :: u64 where "PTE_READONLY = 0x200"

definition PA2PTE :: "u64 \<Rightarrow> u64" where "PA2PTE pa = push_bit 10 (drop_bit 12 pa)"
definition PTE2PA :: "u64 \<Rightarrow> u64" where "PTE2PA pte = push_bit 12 (drop_bit 10 pte)"
definition PTE_FLAGS :: "u64 \<Rightarrow> u64" where "PTE_FLAGS pte = pte AND 0x3FF"
definition PN :: "nat \<Rightarrow> u64 \<Rightarrow> u64" where "PN level va = drop_bit (12 + 9 * level) va AND 0x1FF"
definition MAXVA :: u64 where "MAXVA = 0x4000000000"

definition TRAMPOLINE :: u64 where "TRAMPOLINE = MAXVA - PGSIZE"
definition SIGRETURN :: u64 where "SIGRETURN = TRAMPOLINE - PGSIZE"
definition TRAPFRAME :: u64 where "TRAPFRAME = SIGRETURN - PGSIZE"
definition USTACK :: u64 where "USTACK = MAXVA - 512 * 10 * PGSIZE - 10 * PGSIZE"

definition COMMONPAGE :: nat where "COMMONPAGE = 0"
definition SUPERPAGE :: nat where "SUPERPAGE = 1"

text \<open>The test \<^verbatim>\<open>pte & bit\<close>.\<close>

abbreviation testb :: "u64 \<Rightarrow> u64 \<Rightarrow> bool" where "testb pte bits \<equiv> pte AND bits \<noteq> 0"

section \<open>Memory and the allocator together\<close>

record mach =
  km :: kmem
  pm :: mem

definition ld64 :: "mem \<Rightarrow> u64 \<Rightarrow> u64" where
  "ld64 m a = fold (\<lambda>j v. v OR push_bit (8 * j) (ucast (m (unat a + j)))) [0..<8] 0"

definition st64 :: "mem \<Rightarrow> u64 \<Rightarrow> u64 \<Rightarrow> mem" where
  "st64 m a v = (\<lambda>x. if unat a \<le> x \<and> x < unat a + 8 then ucast (drop_bit (8 * (x - unat a)) v) else m x)"

text \<open>\<^verbatim>\<open>*pte\<close> and \<^verbatim>\<open>*pte = v\<close>.\<close>

definition load :: "mach \<Rightarrow> u64 \<Rightarrow> u64 option" where
  "load s a = do { ASSERT (a \<noteq> 0); Some (ld64 (pm s) a) }"

definition store :: "mach \<Rightarrow> u64 \<Rightarrow> u64 \<Rightarrow> mach option" where
  "store s a v = do { ASSERT (a \<noteq> 0); Some (s\<lparr>pm := st64 (pm s) a v\<rparr>) }"

definition null_or :: "u64 option \<Rightarrow> u64" where
  "null_or r = (case r of None \<Rightarrow> 0 | Some p \<Rightarrow> p)"

definition kzalloc_s :: "(kmem \<Rightarrow> kmem option) \<Rightarrow> nat \<Rightarrow> u64 \<Rightarrow> mach \<Rightarrow> (mach \<times> u64) option" where
  "kzalloc_s af i sz s = do {
     (k, m, r) \<leftarrow> kzalloc af i sz (km s) (pm s);
     Some (\<lparr>km = k, pm = m\<rparr>, null_or r)
   }"

definition kmalloc_s :: "(kmem \<Rightarrow> kmem option) \<Rightarrow> nat \<Rightarrow> u64 \<Rightarrow> mach \<Rightarrow> (mach \<times> u64) option" where
  "kmalloc_s af i sz s = do {
     (k, r) \<leftarrow> kmalloc af i sz (km s);
     Some (s\<lparr>km := k\<rparr>, null_or r)
   }"

definition kfree_s :: "nat \<Rightarrow> u64 \<Rightarrow> mach \<Rightarrow> mach option" where
  "kfree_s i pa s = do { k \<leftarrow> kfree i pa (km s); Some (s\<lparr>km := k\<rparr>) }"

section \<open>Walking a page table\<close>

text \<open>\<open>walk_loop \<dots> n s pagetable\<close> is the loop of \<^verbatim>\<open>walk\<close> with \<open>n\<close> levels above
  \<open>lowlevel\<close> to go; the result is the state, the pointer stored through \<^verbatim>\<open>pte\<close> and the
  value returned.\<close>

primrec walk_loop ::
  "(kmem \<Rightarrow> kmem option) \<Rightarrow> nat \<Rightarrow> u64 \<Rightarrow> bool \<Rightarrow> nat \<Rightarrow> nat \<Rightarrow> mach \<Rightarrow> u64 \<Rightarrow> (mach \<times> u64 \<times> int) option" where
  "walk_loop af i va alloc lowlevel 0 s pagetable = Some (s, pagetable + 8 * PN lowlevel va, 0)"
| "walk_loop af i va alloc lowlevel (Suc n) s pagetable = (
     let level = lowlevel + Suc n; pte_tmp = pagetable + 8 * PN level va in do {
     v \<leftarrow> load s pte_tmp;
     if testb v PTE_V then
       if testb v PTE_R \<or> testb v PTE_X then do {
         ASSERT (level = 1);
         Some (s, pte_tmp, int level)
       }
       else walk_loop af i va alloc lowlevel n s (PTE2PA v)
     else if \<not> alloc then Some (s, 0, - 1)
     else do {
       (s1, child) \<leftarrow> kzalloc_s af i PGSIZE s;
       if child = 0 then Some (s1, 0, - 1)
       else do {
         s2 \<leftarrow> store s1 pte_tmp (PA2PTE child OR PTE_V);
         walk_loop af i va alloc lowlevel n s2 child
       }
     }
   })"

definition walk ::
  "(kmem \<Rightarrow> kmem option) \<Rightarrow> nat \<Rightarrow> mach \<Rightarrow> u64 \<Rightarrow> u64 \<Rightarrow> bool \<Rightarrow> nat \<Rightarrow> (mach \<times> u64 \<times> int) option" where
  "walk af i s pagetable va alloc lowlevel = do {
     ASSERT (va < MAXVA);
     walk_loop af i va alloc lowlevel (2 - lowlevel) s pagetable
   }"

definition walkaddr :: "(kmem \<Rightarrow> kmem option) \<Rightarrow> nat \<Rightarrow> mach \<Rightarrow> u64 \<Rightarrow> u64 \<Rightarrow> u64 option" where
  "walkaddr af i s pagetable va =
     (if MAXVA \<le> va then Some 0
      else do {
        (s1, pte, level) \<leftarrow> walk af i s pagetable va False 0;
        ASSERT (level \<le> 1);
        if pte = 0 then Some 0
        else do {
          v \<leftarrow> load s1 pte;
          if \<not> testb v PTE_V then Some 0
          else if \<not> testb v PTE_U then Some 0
          else if level = int COMMONPAGE then Some (PTE2PA v)
          else if level = int SUPERPAGE then Some (PTE2PA v + (PGROUNDDOWN va - SUPERPG_DOWN va))
          else None
        }
      })"

definition getphyaddr :: "(kmem \<Rightarrow> kmem option) \<Rightarrow> nat \<Rightarrow> mach \<Rightarrow> u64 \<Rightarrow> u64 \<Rightarrow> u64 option" where
  "getphyaddr af i s pagetable va = do {
     aligned_pa \<leftarrow> walkaddr af i s pagetable va;
     Some (if aligned_pa = 0 then 0 else aligned_pa + (va - PGROUNDDOWN va))
   }"

section \<open>Adding mappings\<close>

text \<open>The loop of \<^verbatim>\<open>mappages\<close>; \<open>n\<close> is the number of pages after this one, so the test
  \<^verbatim>\<open>a == last\<close> is \<open>n = 0\<close>.\<close>

primrec map_loop ::
  "(kmem \<Rightarrow> kmem option) \<Rightarrow> nat \<Rightarrow> u64 \<Rightarrow> nat \<Rightarrow> u64 \<Rightarrow> u64 \<Rightarrow> nat \<Rightarrow> mach \<Rightarrow> u64 \<Rightarrow> u64 \<Rightarrow> (mach \<times> int) option" where
  "map_loop af i pagetable lowlevel perm pgsize 0 s a pa = do {
     (s1, pte, _) \<leftarrow> walk af i s pagetable a True lowlevel;
     if pte = 0 then Some (s1, - 1)
     else do {
       v \<leftarrow> load s1 pte;
       ASSERT (\<not> testb v PTE_V);
       s2 \<leftarrow> store s1 pte (PA2PTE pa OR perm OR PTE_V);
       Some (s2, 0)
     }
   }"
| "map_loop af i pagetable lowlevel perm pgsize (Suc n) s a pa = do {
     (s1, pte, _) \<leftarrow> walk af i s pagetable a True lowlevel;
     if pte = 0 then Some (s1, - 1)
     else do {
       v \<leftarrow> load s1 pte;
       ASSERT (\<not> testb v PTE_V);
       s2 \<leftarrow> store s1 pte (PA2PTE pa OR perm OR PTE_V);
       map_loop af i pagetable lowlevel perm pgsize n s2 (a + pgsize) (pa + pgsize)
     }
   }"

definition mappages ::
  "(kmem \<Rightarrow> kmem option) \<Rightarrow> nat \<Rightarrow> mach \<Rightarrow> u64 \<Rightarrow> u64 \<Rightarrow> u64 \<Rightarrow> u64 \<Rightarrow> u64 \<Rightarrow> nat \<Rightarrow> (mach \<times> int) option" where
  "mappages af i s pagetable va sz pa perm lowlevel = do {
     ASSERT (sz \<noteq> 0);
     if lowlevel = 0 then
       let a = PGROUNDDOWN va; last = PGROUNDDOWN (va + sz - 1) in
         map_loop af i pagetable 0 perm PGSIZE (unat ((last - a) div PGSIZE)) s a pa
     else if lowlevel = 1 then do {
       ASSERT (va mod SUPERPGSIZE = 0);
       let a = SUPERPG_DOWN va; last = SUPERPG_DOWN (va + sz - 1) in
         map_loop af i pagetable 1 perm SUPERPGSIZE (unat ((last - a) div SUPERPGSIZE)) s a pa
     }
     else None
   }"

definition kvmmap ::
  "(kmem \<Rightarrow> kmem option) \<Rightarrow> nat \<Rightarrow> mach \<Rightarrow> u64 \<Rightarrow> u64 \<Rightarrow> u64 \<Rightarrow> u64 \<Rightarrow> u64 \<Rightarrow> nat \<Rightarrow> mach option" where
  "kvmmap af i s kpgtbl va pa sz perm lowlevel = do {
     (s1, r) \<leftarrow> mappages af i s kpgtbl va sz pa perm lowlevel;
     ASSERT (r = 0);
     Some s1
   }"

section \<open>Growing and shrinking\<close>

text \<open>
  \<^verbatim>\<open>uvmunmap\<close> calls \<^verbatim>\<open>uvmalloc\<close> when it cuts a superpage at its first page,
  \<^verbatim>\<open>uvmalloc\<close> calls \<^verbatim>\<open>uvmdealloc\<close> when it fails, and \<^verbatim>\<open>uvmdealloc\<close>
  calls \<^verbatim>\<open>uvmunmap\<close>.  Each body takes its callee as an argument, and the knot is tied with a
  depth: two nested unmaps are enough, because the inner one starts at a superpage boundary.
\<close>

primrec unmap_loop ::
  "(kmem \<Rightarrow> kmem option) \<Rightarrow> nat \<Rightarrow> (mach \<Rightarrow> u64 \<Rightarrow> u64 \<Rightarrow> u64 \<Rightarrow> (mach \<times> u64) option) \<Rightarrow> u64 \<Rightarrow> u64 \<Rightarrow> u64 \<Rightarrow> bool \<Rightarrow> bool \<Rightarrow>
    nat \<Rightarrow> mach \<Rightarrow> u64 \<Rightarrow> mach option" where
  "unmap_loop af i ualloc pagetable va endva do_free on_demand 0 s a = (if a < endva then None else Some s)"
| "unmap_loop af i ualloc pagetable va endva do_free on_demand (Suc n) s a =
     (if \<not> a < endva then Some s
      else do {
        (s1, pte, level) \<leftarrow> walk af i s pagetable a False 0;
        if pte = 0 then do {
          ASSERT on_demand;
          unmap_loop af i ualloc pagetable va endva do_free on_demand n s1 (a + PGSIZE)
        }
        else do {
          v \<leftarrow> load s1 pte;
          if \<not> testb v PTE_V then do {
            ASSERT on_demand;
            unmap_loop af i ualloc pagetable va endva do_free on_demand n s1 (a + PGSIZE)
          }
          else do {
            ASSERT (PTE_FLAGS v \<noteq> PTE_V);
            ASSERT (level \<le> 1);
            s2 \<leftarrow> (if do_free then kfree_s i (PTE2PA v) s1 else Some s1);
            s3 \<leftarrow> store s2 pte 0;
            if level = int SUPERPAGE then do {
              s4 \<leftarrow> (if a \<noteq> SUPERPG_DOWN a \<and> a = va
                     then map_option fst (ualloc s3 (SUPERPG_DOWN a) a (PTE_FLAGS v)) else Some s3);
              unmap_loop af i ualloc pagetable va endva do_free on_demand n s4 (a + (SUPERPGSIZE - PGSIZE) + PGSIZE)
            }
            else unmap_loop af i ualloc pagetable va endva do_free on_demand n s3 (a + PGSIZE)
          }
        }
      })"

definition unmap_body ::
  "(kmem \<Rightarrow> kmem option) \<Rightarrow> nat \<Rightarrow> (mach \<Rightarrow> u64 \<Rightarrow> u64 \<Rightarrow> u64 \<Rightarrow> (mach \<times> u64) option) \<Rightarrow> u64 \<Rightarrow> mach \<Rightarrow> u64 \<Rightarrow> u64 \<Rightarrow> bool \<Rightarrow> bool \<Rightarrow>
    mach option" where
  "unmap_body af i ualloc pagetable s va npages do_free on_demand = do {
     ASSERT (va mod PGSIZE = 0);
     unmap_loop af i ualloc pagetable va (va + npages * PGSIZE) do_free on_demand (unat npages) s va
   }"

definition uvmcreate :: "(kmem \<Rightarrow> kmem option) \<Rightarrow> nat \<Rightarrow> mach \<Rightarrow> (mach \<times> u64) option" where
  "uvmcreate af i s = kzalloc_s af i PGSIZE s"

text \<open>One of the three loops of \<^verbatim>\<open>uvmalloc\<close>: pages of size \<open>pgsz\<close> from \<open>a\<close> up to
  \<open>lim\<close>.  \<open>Inr\<close> is a completed loop, \<open>Inl\<close> an early \<^verbatim>\<open>return 0\<close>.\<close>

primrec alloc_loop ::
  "(kmem \<Rightarrow> kmem option) \<Rightarrow> nat \<Rightarrow> (mach \<Rightarrow> u64 \<Rightarrow> u64 \<Rightarrow> (mach \<times> u64) option) \<Rightarrow> u64 \<Rightarrow> u64 \<Rightarrow> u64 \<Rightarrow> u64 \<Rightarrow> nat \<Rightarrow>
    nat \<Rightarrow> mach \<Rightarrow> u64 \<Rightarrow> (mach + mach) option" where
  "alloc_loop af i dealloc pagetable startva lim perm level 0 s a = (if a < lim then None else Some (Inr s))"
| "alloc_loop af i dealloc pagetable startva lim perm level (Suc n) s a =
     (if \<not> a < lim then Some (Inr s)
      else let pgsz = (if level = SUPERPAGE then SUPERPGSIZE else PGSIZE) in do {
        (s1, mem) \<leftarrow> kzalloc_s af i pgsz s;
        if mem = 0 then do {
          (s2, _) \<leftarrow> dealloc s1 a startva;
          Some (Inl s2)
        }
        else do {
          (s2, r) \<leftarrow> mappages af i s1 pagetable a pgsz mem (PTE_R OR PTE_U OR perm) level;
          if r \<noteq> 0 then do {
            s3 \<leftarrow> kfree_s i mem s2;
            (s4, _) \<leftarrow> dealloc s3 a startva;
            Some (Inl s4)
          }
          else alloc_loop af i dealloc pagetable startva lim perm level n s2 (a + pgsz)
        }
      })"

text \<open>How many rounds such a loop takes at most.\<close>

definition rounds :: "u64 \<Rightarrow> u64 \<Rightarrow> u64 \<Rightarrow> nat" where
  "rounds a lim pgsz = (if a < lim then unat (lim - a) div unat pgsz + 1 else 0)"

definition alloc_body ::
  "(kmem \<Rightarrow> kmem option) \<Rightarrow> nat \<Rightarrow> (mach \<Rightarrow> u64 \<Rightarrow> u64 \<Rightarrow> (mach \<times> u64) option) \<Rightarrow> u64 \<Rightarrow> mach \<Rightarrow> u64 \<Rightarrow> u64 \<Rightarrow> u64 \<Rightarrow>
    (mach \<times> u64) option" where
  "alloc_body af i dealloc pagetable s startva endva perm =
     (if endva < startva then Some (s, startva)
      else let aligned_sz = PGROUNDUP startva; super_aligned_sz = SUPERPG_ROUNDUP startva;
        min = (if endva \<le> super_aligned_sz then endva else super_aligned_sz) in do {
        r1 \<leftarrow> alloc_loop af i dealloc pagetable startva min perm COMMONPAGE (rounds aligned_sz min PGSIZE) s aligned_sz;
        case r1 of
          Inl s1 \<Rightarrow> Some (s1, 0)
        | Inr s1 \<Rightarrow>
            if endva \<le> super_aligned_sz then Some (s1, endva)
            else let newsz_down = SUPERPG_DOWN endva in do {
              r2 \<leftarrow> alloc_loop af i dealloc pagetable startva newsz_down perm SUPERPAGE
                (rounds super_aligned_sz newsz_down SUPERPGSIZE) s1 super_aligned_sz;
              case r2 of
                Inl s2 \<Rightarrow> Some (s2, 0)
              | Inr s2 \<Rightarrow> do {
                  r3 \<leftarrow> alloc_loop af i dealloc pagetable startva endva perm COMMONPAGE
                    (rounds newsz_down endva PGSIZE) s2 newsz_down;
                  case r3 of Inl s3 \<Rightarrow> Some (s3, 0) | Inr s3 \<Rightarrow> Some (s3, endva)
                }
            }
      })"

text \<open>\<^verbatim>\<open>npages\<close> of \<^verbatim>\<open>uvmdealloc\<close> is an \<^verbatim>\<open>int\<close>.\<close>

definition dealloc_body ::
  "(mach \<Rightarrow> u64 \<Rightarrow> u64 \<Rightarrow> bool \<Rightarrow> bool \<Rightarrow> mach option) \<Rightarrow> mach \<Rightarrow> u64 \<Rightarrow> u64 \<Rightarrow> (mach \<times> u64) option" where
  "dealloc_body unmap s oldsz newsz =
     (if oldsz \<le> newsz then Some (s, oldsz)
      else if PGROUNDUP newsz < PGROUNDUP oldsz then do {
        let npages = (ucast ((PGROUNDUP oldsz - PGROUNDUP newsz) div PGSIZE) :: u32);
        s1 \<leftarrow> unmap s (PGROUNDUP newsz) (scast npages) True False;
        Some (s1, newsz)
      }
      else Some (s, newsz))"

primrec unmap_depth ::
  "nat \<Rightarrow> (kmem \<Rightarrow> kmem option) \<Rightarrow> nat \<Rightarrow> u64 \<Rightarrow> mach \<Rightarrow> u64 \<Rightarrow> u64 \<Rightarrow> bool \<Rightarrow> bool \<Rightarrow> mach option" where
  "unmap_depth 0 af i pagetable = unmap_body af i (\<lambda>_ _ _ _. None) pagetable"
| "unmap_depth (Suc d) af i pagetable =
     unmap_body af i (alloc_body af i (dealloc_body (unmap_depth d af i pagetable)) pagetable) pagetable"

definition uvmunmap ::
  "(kmem \<Rightarrow> kmem option) \<Rightarrow> nat \<Rightarrow> u64 \<Rightarrow> mach \<Rightarrow> u64 \<Rightarrow> u64 \<Rightarrow> bool \<Rightarrow> bool \<Rightarrow> mach option" where
  "uvmunmap = unmap_depth 1"

definition uvmdealloc :: "(kmem \<Rightarrow> kmem option) \<Rightarrow> nat \<Rightarrow> u64 \<Rightarrow> mach \<Rightarrow> u64 \<Rightarrow> u64 \<Rightarrow> (mach \<times> u64) option" where
  "uvmdealloc af i pagetable = dealloc_body (uvmunmap af i pagetable)"

definition uvmalloc ::
  "(kmem \<Rightarrow> kmem option) \<Rightarrow> nat \<Rightarrow> u64 \<Rightarrow> mach \<Rightarrow> u64 \<Rightarrow> u64 \<Rightarrow> u64 \<Rightarrow> (mach \<times> u64) option" where
  "uvmalloc af i pagetable = alloc_body af i (uvmdealloc af i pagetable) pagetable"

section \<open>Freeing a page table\<close>

text \<open>\<^verbatim>\<open>freewalk\<close> recurses through the tables; \<open>d\<close> bounds the depth, and there is no result
  when a table is nested deeper.  The three levels of Sv39 need \<open>d = 3\<close>.\<close>

primrec free_entries :: "(mach \<Rightarrow> u64 \<Rightarrow> mach option) \<Rightarrow> u64 \<Rightarrow> nat list \<Rightarrow> mach \<Rightarrow> mach option" where
  "free_entries rec pagetable [] s = Some s"
| "free_entries rec pagetable (j # js) s = do {
     pte \<leftarrow> load s (pagetable + 8 * of_nat j);
     if testb pte PTE_V \<and> \<not> testb pte (PTE_R OR PTE_W OR PTE_X) then do {
       s1 \<leftarrow> rec s (PTE2PA pte);
       s2 \<leftarrow> store s1 (pagetable + 8 * of_nat j) 0;
       free_entries rec pagetable js s2
     }
     else if testb pte PTE_V then None
     else free_entries rec pagetable js s
   }"

primrec freewalk :: "nat \<Rightarrow> nat \<Rightarrow> mach \<Rightarrow> u64 \<Rightarrow> mach option" where
  "freewalk 0 i s pagetable = None"
| "freewalk (Suc d) i s pagetable = do {
     s1 \<leftarrow> free_entries (freewalk d i) pagetable [0..<512] s;
     if pagetable \<noteq> 0 then kfree_s i pagetable s1 else Some s1
   }"

definition uvmclear :: "(kmem \<Rightarrow> kmem option) \<Rightarrow> nat \<Rightarrow> mach \<Rightarrow> u64 \<Rightarrow> u64 \<Rightarrow> mach option" where
  "uvmclear af i s pagetable va = do {
     (s1, pte, _) \<leftarrow> walk af i s pagetable va False 0;
     ASSERT (pte \<noteq> 0);
     v \<leftarrow> load s1 pte;
     store s1 pte (v AND NOT PTE_U)
   }"

section \<open>Copying from user memory\<close>

lemma unat_PGROUNDDOWN: "unat (PGROUNDDOWN a) = unat a div 4096 * 4096"
  using unat_ROUND_DOWN [of PGSIZE 12 a] by (simp add: PGROUNDDOWN_def PGSIZE_def)

lemma page_offset: "unat (a - PGROUNDDOWN a) = unat a mod 4096"
proof -
  have "unat (PGROUNDDOWN a) \<le> unat a" by (simp add: unat_PGROUNDDOWN)
  then have "unat (a - PGROUNDDOWN a) = unat a - unat (PGROUNDDOWN a)" by (simp add: unat_sub word_le_nat_alt)
  then show ?thesis by (simp add: unat_PGROUNDDOWN minus_div_mult_eq_mod)
qed

text \<open>The bytes of a round of a copy loop: to the end of the page, or fewer.\<close>

lemma chunk_size: "unat (min (PGSIZE - (a - PGROUNDDOWN a)) len) = min (4096 - unat a mod 4096) (unat len)"
proof -
  have "unat a mod 4096 < 4096" by simp
  then have "a - PGROUNDDOWN a \<le> PGSIZE" unfolding word_le_nat_alt page_offset by (simp add: PGSIZE_def)
  then have "unat (PGSIZE - (a - PGROUNDDOWN a)) = 4096 - unat a mod 4096"
    by (simp add: unat_sub page_offset) (simp add: PGSIZE_def)
  then show ?thesis by (simp add: min_def word_le_nat_alt)
qed

lemma chunk_decreases: "len \<noteq> 0 \<Longrightarrow> unat (len - min (PGSIZE - (a - PGROUNDDOWN a)) len) < unat len"
proof -
  assume "len \<noteq> 0"
  then have "0 < unat len" by (simp add: unat_gt_0)
  moreover have "unat a mod 4096 < 4096" by simp
  ultimately have "0 < unat (min (PGSIZE - (a - PGROUNDDOWN a)) len)" unfolding chunk_size by linarith
  moreover have "unat (len - min (PGSIZE - (a - PGROUNDDOWN a)) len) = unat len - unat (min (PGSIZE - (a - PGROUNDDOWN a)) len)"
    by (simp add: unat_sub)
  ultimately show ?thesis using \<open>0 < unat len\<close> by linarith
qed

function copyin ::
  "(kmem \<Rightarrow> kmem option) \<Rightarrow> nat \<Rightarrow> u64 \<Rightarrow> mach \<Rightarrow> u64 \<Rightarrow> u64 \<Rightarrow> u64 \<Rightarrow> (mach \<times> int) option" where
  "copyin af i pagetable s dst srcva len =
     (if len = 0 then Some (s, 0)
      else let va0 = PGROUNDDOWN srcva in
        case walkaddr af i s pagetable va0 of
          None \<Rightarrow> None
        | Some pa0 \<Rightarrow>
            if pa0 = 0 then Some (s, - 1)
            else let n = min (PGSIZE - (srcva - va0)) len in
              copyin af i pagetable (s\<lparr>pm := memmove (pm s) (unat dst) (unat (pa0 + (srcva - va0))) (unat n)\<rparr>)
                (dst + n) (va0 + PGSIZE) (len - n))"
  by pat_completeness auto
termination
  by (relation "measure (\<lambda>(af, i, t, s, dst, srcva, len). unat len)") (simp_all add: chunk_decreases)

declare copyin.simps [simp del]

primrec copy_chars :: "nat \<Rightarrow> mem \<Rightarrow> u64 \<Rightarrow> u64 \<Rightarrow> u64 \<Rightarrow> mem \<times> u64 \<times> u64 \<times> bool" where
  "copy_chars 0 m p dst mx = (m, dst, mx, False)"
| "copy_chars (Suc n) m p dst mx =
     (if m (unat p) = 0 then (m(unat dst := 0), dst, mx, True)
      else copy_chars n (m(unat dst := m (unat p))) (p + 1) (dst + 1) (mx - 1))"

lemma copy_chars_max: "copy_chars n m p dst mx = (m', dst', mx', False) \<Longrightarrow> mx' = mx - of_nat n"
  by (induction n arbitrary: m p dst mx) (auto split: if_splits simp: algebra_simps)

function copyinstr ::
  "(kmem \<Rightarrow> kmem option) \<Rightarrow> nat \<Rightarrow> u64 \<Rightarrow> mach \<Rightarrow> u64 \<Rightarrow> u64 \<Rightarrow> u64 \<Rightarrow> (mach \<times> int) option" where
  "copyinstr af i pagetable s dst srcva mx =
     (if mx = 0 then Some (s, - 1)
      else let va0 = PGROUNDDOWN srcva in
        case walkaddr af i s pagetable va0 of
          None \<Rightarrow> None
        | Some pa0 \<Rightarrow>
            if pa0 = 0 then Some (s, - 1)
            else let n = min (PGSIZE - (srcva - va0)) mx in
              case copy_chars (unat n) (pm s) (pa0 + (srcva - va0)) dst mx of
                (m, dst', mx', got_null) \<Rightarrow>
                  if got_null then Some (s\<lparr>pm := m\<rparr>, 0)
                  else copyinstr af i pagetable (s\<lparr>pm := m\<rparr>) dst' (va0 + PGSIZE) mx')"
  by pat_completeness auto
termination
proof (relation "measure (\<lambda>(af, i, t, s, dst, srcva, mx). unat mx)", goal_cases)
  case (2 af i pagetable s dst srcva mx va0 pa0 n m p2 dst' p3 mx' got_null)
  have "copy_chars (unat n) (pm s) (pa0 + (srcva - va0)) dst mx = (m, dst', mx', False)" using 2(6-9) by simp
  then have "mx' = mx - n" by (auto dest: copy_chars_max)
  then show ?case using 2 chunk_decreases [of mx srcva] by simp
qed simp

declare copyinstr.simps [simp del]

section \<open>Per-thread memory\<close>

definition uvm_thread_stack :: "(kmem \<Rightarrow> kmem option) \<Rightarrow> nat \<Rightarrow> mach \<Rightarrow> u64 \<Rightarrow> u64 \<Rightarrow> (mach \<times> int) option" where
  "uvm_thread_stack af i s pagetable ustack_page = do {
     (s1, pa) \<leftarrow> kzalloc_s af i PGSIZE s;
     if pa = 0 then Some (s1, - 1)
     else do {
       (s2, r) \<leftarrow> uvmalloc af i pagetable s1 USTACK (USTACK + ustack_page * PGSIZE) (PTE_W OR PTE_R);
       Some (s2, if r = 0 then - 1 else 0)
     }
   }"

definition uvm_thread_trapframe :: "(kmem \<Rightarrow> kmem option) \<Rightarrow> nat \<Rightarrow> mach \<Rightarrow> u64 \<Rightarrow> u64 \<Rightarrow> (mach \<times> u64) option" where
  "uvm_thread_trapframe af i s pagetable thread_idx = do {
     (s1, pa) \<leftarrow> kzalloc_s af i PGSIZE s;
     (s2, r) \<leftarrow> mappages af i s1 pagetable (TRAPFRAME - thread_idx * PGSIZE) PGSIZE pa (PTE_R OR PTE_W) 0;
     if r < 0 then do {
       s3 \<leftarrow> kfree_s i pa s2;
       Some (s3, 0)
     }
     else Some (s2, pa)
   }"

end
