(* ===== verification/Vm_Tree.thy ===== *)
theory Vm_Tree
  imports Vm Kalloc_Props
begin

text \<open>
  Page tables as trees of pages in memory: well-formedness, the pages a tree consists of, the
  translation it stands for, and what a change inside one subtree does to the whole.
\<close>

section \<open>Words in memory\<close>

lemma ld64_cong: "(\<And>j. j < 8 \<Longrightarrow> m' (unat a + j) = m (unat a + j)) \<Longrightarrow> ld64 m' a = ld64 m a"
  unfolding ld64_def by (intro fold_cong) auto

lemma bit_bytes:
  "bit (fold (\<lambda>j v. v OR push_bit (8 * j) (ucast (f j :: u8))) [0..<n] (0 :: u64)) b \<longleftrightarrow>
    b < 64 \<and> (\<exists>j<n. 8 * j \<le> b \<and> bit (f j) (b - 8 * j))"
  by (induction n) (auto simp: bit_simps less_Suc_eq)

lemma bit_u8: "bit (w :: u8) k \<Longrightarrow> k < 8"
  using bit_imp_le_length [of w k] by simp

lemma bit_ld64: "bit (ld64 m a) b \<longleftrightarrow> b < 64 \<and> bit (m (unat a + b div 8)) (b mod 8)"
proof -
  have "j = b div 8 \<and> b - 8 * j = b mod 8" if "8 * j \<le> b" "b - 8 * j < 8" for j
  proof -
    have "b div 8 = j" using that by (intro div_nat_eqI) auto
    then show ?thesis by (auto simp: minus_mult_div_eq_mod)
  qed
  moreover have "b - 8 * (b div 8) = b mod 8" "8 * (b div 8) \<le> b" by (simp_all add: minus_mult_div_eq_mod)
  moreover have "b < 64 \<Longrightarrow> b div 8 < 8" by simp
  ultimately show ?thesis unfolding ld64_def bit_bytes by (metis bit_u8)
qed

lemma ld_st_same [simp]: "ld64 (st64 m a v) a = v"
proof (rule bit_word_eqI)
  fix b assume "b < LENGTH(64)"
  then have b: "b < 64" by simp
  then have "b div 8 < 8" by simp
  then have "bit (ld64 (st64 m a v) a) b \<longleftrightarrow> bit (ucast (drop_bit (8 * (b div 8)) v) :: u8) (b mod 8)"
    using b by (simp add: bit_ld64 st64_def)
  also have "\<dots> \<longleftrightarrow> bit v (8 * (b div 8) + b mod 8)" using b by (simp add: bit_simps)
  finally show "bit (ld64 (st64 m a v) a) b = bit v b" by simp
qed

lemma st64_other: "x < unat a \<or> unat a + 8 \<le> x \<Longrightarrow> st64 m a v x = m x"
  by (auto simp: st64_def)

lemma ld_st_other: "8 dvd unat a \<Longrightarrow> 8 dvd unat b \<Longrightarrow> a \<noteq> b \<Longrightarrow> ld64 (st64 m a v) b = ld64 m b"
proof (rule ld64_cong)
  fix j :: nat assume "8 dvd unat a" "8 dvd unat b" "a \<noteq> b" "j < 8"
  then obtain p q where "unat a = 8 * p" "unat b = 8 * q" "unat a \<noteq> unat b"
    by (metis dvdE word_unat_eq_iff)
  then have "unat b + j < unat a \<or> unat a + 8 \<le> unat b + j" using \<open>j < 8\<close> by (cases "p < q") auto
  then show "st64 m a v (unat b + j) = m (unat b + j)" by (rule st64_other)
qed

section \<open>Entries\<close>

definition page_al :: "u64 \<Rightarrow> bool" where
  "page_al t \<longleftrightarrow> take_bit 12 t = 0 \<and> t \<noteq> 0"

definition page_bytes :: "u64 \<Rightarrow> nat set" where
  "page_bytes t = {unat t..<unat t + 4096}"

lemma page_al_dvd: "page_al t \<Longrightarrow> 4096 dvd unat t"
proof -
  assume "page_al t"
  then have "unat (take_bit 12 t) = 0" by (simp add: page_al_def)
  moreover have "unat (take_bit 12 t) = take_bit 12 (unat t)" by (rule unsigned_take_bit_eq)
  ultimately have "unat t mod 2 ^ 12 = 0" by (simp only: take_bit_eq_mod)
  then show ?thesis by (simp add: dvd_eq_mod_eq_0)
qed

lemma page_al_room: "page_al t \<Longrightarrow> unat t + 4096 \<le> 2 ^ 64"
proof -
  assume "page_al t"
  then obtain q where q: "unat t = 4096 * q" using page_al_dvd by blast
  have "unat t < 2 ^ 64" using unsigned_less [of t] by simp
  then have "q < 2 ^ 52" using q by simp
  then show ?thesis using q by simp
qed

lemma page_bytes_disjoint: "page_al t \<Longrightarrow> page_al t' \<Longrightarrow> t \<noteq> t' \<Longrightarrow> page_bytes t \<inter> page_bytes t' = {}"
proof -
  assume "page_al t" "page_al t'" "t \<noteq> t'"
  then obtain p q where "unat t = 4096 * p" "unat t' = 4096 * q" "unat t \<noteq> unat t'"
    using page_al_dvd by (metis dvdE word_unat_eq_iff)
  then show ?thesis unfolding page_bytes_def by (cases "p < q") auto
qed

text \<open>The entry \<open>j\<close> of the table at \<open>t\<close>.\<close>

abbreviation slot_at :: "u64 \<Rightarrow> u64 \<Rightarrow> u64" where "slot_at t j \<equiv> t + 8 * j"

lemma unat_slot: "page_al t \<Longrightarrow> j < 512 \<Longrightarrow> unat (slot_at t j) = unat t + 8 * unat j"
proof -
  assume "page_al t" "j < 512"
  then have j: "unat j < 512" by (simp add: word_less_nat_alt)
  have "unat (8 * j) = 8 * unat j" using j by (simp add: unat_mult_lem [THEN iffD1])
  then show ?thesis using j page_al_room [OF \<open>page_al t\<close>] by (simp add: unat_add_lem [THEN iffD1])
qed

lemma slot_props:
  assumes "page_al t" "j < 512"
  shows "8 dvd unat (slot_at t j)" "slot_at t j \<noteq> 0" "k < 8 \<Longrightarrow> unat (slot_at t j) + k \<in> page_bytes t"
proof -
  have j: "unat j < 512" using assms(2) by (simp add: word_less_nat_alt)
  have "(4096::nat) = 8 * 512" by simp
  then have "8 dvd unat t" using page_al_dvd [OF assms(1)] by (metis dvd_mult_left)
  then show "8 dvd unat (slot_at t j)" unfolding unat_slot [OF assms] by simp
  have "unat t \<noteq> 0" using assms(1) by (simp add: page_al_def unat_eq_0)
  then have "unat (slot_at t j) \<noteq> 0" unfolding unat_slot [OF assms] by simp
  then show "slot_at t j \<noteq> 0" by force
  show "k < 8 \<Longrightarrow> unat (slot_at t j) + k \<in> page_bytes t"
    unfolding unat_slot [OF assms] page_bytes_def using j by auto
qed

lemma slot_inject:
  assumes "page_al t" "j < 512" "page_al t'" "j' < 512" "slot_at t j = slot_at t' j'"
  shows "t = t' \<and> j = j'"
proof -
  have "unat (slot_at t j) \<in> page_bytes t" "unat (slot_at t' j') \<in> page_bytes t'"
    using slot_props(3) [OF assms(1,2), of 0] slot_props(3) [OF assms(3,4), of 0] by simp_all
  then have t: "t = t'" using page_bytes_disjoint [OF assms(1,3)] assms(5) by auto
  have "unat t + 8 * unat j = unat t' + 8 * unat j'"
    using unat_slot [OF assms(1,2)] unat_slot [OF assms(3,4)] assms(5) by metis
  then show ?thesis using t by (simp add: word_unat_eq_iff)
qed

definition ent :: "mem \<Rightarrow> u64 \<Rightarrow> u64 \<Rightarrow> u64" where "ent m t j = ld64 m (slot_at t j)"

definition ptr :: "u64 \<Rightarrow> bool" where "ptr v \<longleftrightarrow> testb v PTE_V \<and> \<not> testb v PTE_R \<and> \<not> testb v PTE_X"

lemma ent_cong:
  "page_al t \<Longrightarrow> j < 512 \<Longrightarrow> (\<And>x. x \<in> page_bytes t \<Longrightarrow> m' x = m x) \<Longrightarrow> ent m' t j = ent m t j"
  unfolding ent_def using slot_props(3) by (intro ld64_cong) auto

lemma PN_less [simp]: "PN l va < 512"
proof -
  have "PN l va \<le> 0x1FF" unfolding PN_def by (rule word_and_le1)
  then show ?thesis by (simp add: word_le_nat_alt word_less_nat_alt)
qed

section \<open>Trees\<close>

text \<open>The pages of the tree with root \<open>t\<close> at level \<open>l\<close>, and what makes it one: no page occurs
  twice, and only level 1 and 0 have leaves.\<close>

primrec tabs :: "nat \<Rightarrow> mem \<Rightarrow> u64 \<Rightarrow> u64 set" where
  "tabs 0 m t = {t}"
| "tabs (Suc l) m t = insert t (\<Union>j\<in>{j. j < 512 \<and> ptr (ent m t j)}. tabs l m (PTE2PA (ent m t j)))"

primrec pt_wf :: "nat \<Rightarrow> mem \<Rightarrow> u64 \<Rightarrow> bool" where
  "pt_wf 0 m t = page_al t"
| "pt_wf (Suc l) m t \<longleftrightarrow> page_al t \<and>
     (\<forall>j<512. (0 < l \<longrightarrow> testb (ent m t j) PTE_V \<longrightarrow> ptr (ent m t j)) \<and>
        (ptr (ent m t j) \<longrightarrow> pt_wf l m (PTE2PA (ent m t j)) \<and> t \<notin> tabs l m (PTE2PA (ent m t j)))) \<and>
     (\<forall>j<512. \<forall>k<512. j \<noteq> k \<longrightarrow> ptr (ent m t j) \<longrightarrow> ptr (ent m t k) \<longrightarrow>
        tabs l m (PTE2PA (ent m t j)) \<inter> tabs l m (PTE2PA (ent m t k)) = {})"

definition tree_bytes :: "nat \<Rightarrow> mem \<Rightarrow> u64 \<Rightarrow> nat set" where
  "tree_bytes l m t = (\<Union>p\<in>tabs l m t. page_bytes p)"

text \<open>The translation: the leaf entry for an address and its level.\<close>

primrec xl :: "nat \<Rightarrow> mem \<Rightarrow> u64 \<Rightarrow> u64 \<Rightarrow> (u64 \<times> nat) option" where
  "xl 0 m t u = (let v = ent m t (PN 0 u) in if testb v PTE_V then Some (v, 0) else None)"
| "xl (Suc l) m t u = (let v = ent m t (PN (Suc l) u) in
     if testb v PTE_V then if ptr v then xl l m (PTE2PA v) u else Some (v, Suc l) else None)"

text \<open>The entry at which a walk to level \<open>low\<close> stops, without allocation; \<open>n\<close> levels to go.\<close>

primrec stop :: "nat \<Rightarrow> nat \<Rightarrow> mem \<Rightarrow> u64 \<Rightarrow> u64 \<Rightarrow> (u64 \<times> nat) option" where
  "stop 0 low m t u = Some (slot_at t (PN low u), 0)"
| "stop (Suc n) low m t u = (let v = ent m t (PN (low + Suc n) u) in
     if testb v PTE_V then if ptr v then stop n low m (PTE2PA v) u else Some (slot_at t (PN (low + Suc n) u), low + Suc n)
     else None)"

lemma pt_wf_al: "pt_wf l m t \<Longrightarrow> page_al t" by (cases l) auto

lemma tabs_root [simp]: "t \<in> tabs l m t" by (cases l) auto

lemma pt_wfD:
  assumes "pt_wf (Suc l) m t" "j < 512"
  shows "page_al t" "0 < l \<Longrightarrow> testb (ent m t j) PTE_V \<Longrightarrow> ptr (ent m t j)"
    "ptr (ent m t j) \<Longrightarrow> pt_wf l m (PTE2PA (ent m t j))" "ptr (ent m t j) \<Longrightarrow> t \<notin> tabs l m (PTE2PA (ent m t j))"
    "ptr (ent m t j) \<Longrightarrow> tabs l m (PTE2PA (ent m t j)) \<subseteq> tabs (Suc l) m t"
    "k < 512 \<Longrightarrow> j \<noteq> k \<Longrightarrow> ptr (ent m t j) \<Longrightarrow> ptr (ent m t k) \<Longrightarrow>
      tabs l m (PTE2PA (ent m t j)) \<inter> tabs l m (PTE2PA (ent m t k)) = {}"
  using assms by auto

lemma tabs_al: "pt_wf l m t \<Longrightarrow> p \<in> tabs l m t \<Longrightarrow> page_al p"
  by (induction l arbitrary: t) auto

lemma page_in_tree: "p \<in> tabs l m t \<Longrightarrow> page_bytes p \<subseteq> tree_bytes l m t"
  by (auto simp: tree_bytes_def)

lemma tree_bytes_mono: "tabs l m t \<subseteq> tabs l' m' t' \<Longrightarrow> tree_bytes l m t \<subseteq> tree_bytes l' m' t'"
  by (auto simp: tree_bytes_def)

lemma tree_bytes_disjoint:
  assumes "pt_wf l m t" "\<forall>p\<in>T. page_al p" "tabs l m t \<inter> T = {}"
  shows "tree_bytes l m t \<inter> (\<Union>p\<in>T. page_bytes p) = {}"
proof -
  have "page_bytes p \<inter> page_bytes q = {}" if "p \<in> tabs l m t" "q \<in> T" for p q
    using that assms tabs_al page_bytes_disjoint by (metis disjoint_iff)
  then show ?thesis unfolding tree_bytes_def by blast
qed

text \<open>A tree whose pages did not change is the same tree.\<close>

lemma tree_same:
  assumes "pt_wf l m t" "\<And>x. x \<in> tree_bytes l m t \<Longrightarrow> m' x = m x"
  shows "tabs l m' t = tabs l m t \<and> pt_wf l m' t \<and> (\<forall>u. xl l m' t u = xl l m t u)"
  using assms
proof (induction l arbitrary: t)
  case 0
  then show ?case using ent_cong [of t _ m' m] by (auto simp: tree_bytes_def Let_def)
next
  case (Suc l)
  have al: "page_al t" using Suc.prems(1) by simp
  have e: "ent m' t j = ent m t j" if "j < 512" for j
    using that al Suc.prems(2) page_in_tree [of t "Suc l" m t] by (intro ent_cong) auto
  have IH: "tabs l m' (PTE2PA (ent m t j)) = tabs l m (PTE2PA (ent m t j)) \<and> pt_wf l m' (PTE2PA (ent m t j)) \<and>
    (\<forall>u. xl l m' (PTE2PA (ent m t j)) u = xl l m (PTE2PA (ent m t j)) u)" if "j < 512" "ptr (ent m t j)" for j
  proof (rule Suc.IH)
    show "pt_wf l m (PTE2PA (ent m t j))" using pt_wfD [OF Suc.prems(1) that(1)] that(2) by blast
    have "tree_bytes l m (PTE2PA (ent m t j)) \<subseteq> tree_bytes (Suc l) m t"
      using pt_wfD(5) [OF Suc.prems(1) that] by (rule tree_bytes_mono)
    then show "m' x = m x" if "x \<in> tree_bytes l m (PTE2PA (ent m t j))" for x using that Suc.prems(2) by blast
  qed
  have "tabs (Suc l) m' t = tabs (Suc l) m t" using e IH by auto
  moreover have "pt_wf (Suc l) m' t" using Suc.prems(1) e IH by auto
  moreover have "xl (Suc l) m' t u = xl (Suc l) m t u" for u using e IH by (simp add: Let_def)
  ultimately show ?case by blast
qed

section \<open>Changes inside a subtree\<close>

text \<open>\<open>m'\<close> differs from \<open>m\<close> only inside the tree at \<open>t\<close>, which may have grown by pages of \<open>F\<close>.\<close>

definition sub_upd :: "nat \<Rightarrow> mem \<Rightarrow> mem \<Rightarrow> u64 \<Rightarrow> u64 set \<Rightarrow> bool" where
  "sub_upd l m m' t F \<longleftrightarrow> pt_wf l m' t \<and> tabs l m t \<subseteq> tabs l m' t \<and> tabs l m' t \<subseteq> tabs l m t \<union> F \<and>
     (\<forall>x. x \<notin> tree_bytes l m' t \<longrightarrow> m' x = m x)"

lemma sub_upd_trans:
  assumes "sub_upd l m m1 t F" "sub_upd l m1 m2 t G"
  shows "sub_upd l m m2 t (F \<union> G)"
proof -
  have "tabs l m1 t \<subseteq> tabs l m2 t" using assms(2) by (simp add: sub_upd_def)
  then have "tree_bytes l m1 t \<subseteq> tree_bytes l m2 t" by (rule tree_bytes_mono)
  then show ?thesis using assms unfolding sub_upd_def by (metis (no_types, lifting) Un_assoc Un_mono in_mono subset_trans subset_refl)
qed

lemma sub_upd_lift:
  assumes wf: "pt_wf (Suc l) m t" and j: "j < 512" "ptr (ent m t j)"
    and upd: "sub_upd l m m' (PTE2PA (ent m t j)) F" and F: "F \<inter> tabs (Suc l) m t = {}"
  shows "sub_upd (Suc l) m m' t F" "ent m' t k = ent m t k \<or> \<not> k < 512"
    "xl (Suc l) m' t u = (if PN (Suc l) u = j then xl l m' (PTE2PA (ent m t j)) u else xl (Suc l) m t u)"
proof -
  let ?c = "PTE2PA (ent m t j)"
  note D = pt_wfD [OF wf j(1)]
  have U: "pt_wf l m' ?c" "tabs l m ?c \<subseteq> tabs l m' ?c" "tabs l m' ?c \<subseteq> tabs l m ?c \<union> F"
    "\<And>x. x \<notin> tree_bytes l m' ?c \<Longrightarrow> m' x = m x" using upd by (auto simp: sub_upd_def)
  have keep: "m' x = m x" if "x \<in> page_bytes p" "page_al p" "p \<notin> tabs l m' ?c" for x p
  proof (rule U(4))
    have "tree_bytes l m' ?c \<inter> (\<Union>q\<in>{p}. page_bytes q) = {}" using that by (intro tree_bytes_disjoint [OF U(1)]) auto
    then show "x \<notin> tree_bytes l m' ?c" using that(1) by auto
  qed
  have t: "t \<notin> tabs l m' ?c" using U(3) D(4) [OF j(2)] F by auto
  have e: "ent m' t k = ent m t k" if "k < 512" for k
    using keep t D(1) that by (intro ent_cong) auto
  then show "ent m' t k = ent m t k \<or> \<not> k < 512" by blast
  have sib: "tabs l m' (PTE2PA (ent m t k)) = tabs l m (PTE2PA (ent m t k)) \<and> pt_wf l m' (PTE2PA (ent m t k)) \<and>
    (\<forall>u. xl l m' (PTE2PA (ent m t k)) u = xl l m (PTE2PA (ent m t k)) u)"
    and sib2: "tabs l m' ?c \<inter> tabs l m (PTE2PA (ent m t k)) = {}"
    if k: "k < 512" "k \<noteq> j" "ptr (ent m t k)" for k
  proof -
    note E = pt_wfD [OF wf k(1)]
    show dis: "tabs l m' ?c \<inter> tabs l m (PTE2PA (ent m t k)) = {}"
      using U(3) D(6) [OF k(1) k(2)[symmetric] j(2) k(3)] E(5) [OF k(3)] F by blast
    show "tabs l m' (PTE2PA (ent m t k)) = tabs l m (PTE2PA (ent m t k)) \<and> pt_wf l m' (PTE2PA (ent m t k)) \<and>
      (\<forall>u. xl l m' (PTE2PA (ent m t k)) u = xl l m (PTE2PA (ent m t k)) u)"
    proof (rule tree_same [OF E(3) [OF k(3)]])
      fix x assume "x \<in> tree_bytes l m (PTE2PA (ent m t k))"
      then obtain p where p: "p \<in> tabs l m (PTE2PA (ent m t k))" "x \<in> page_bytes p" by (auto simp: tree_bytes_def)
      then show "m' x = m x" using keep tabs_al [OF E(3) [OF k(3)]] dis by blast
    qed
  qed
  have tabs': "tabs (Suc l) m' t = tabs (Suc l) m t \<union> tabs l m' ?c"
  proof -
    have a: "tabs l m' (PTE2PA (ent m t k)) = (if k = j then tabs l m' ?c else tabs l m (PTE2PA (ent m t k)))"
      if "k < 512" "ptr (ent m t k)" for k using that sib by auto
    have "tabs (Suc l) m' t = insert t (\<Union>k\<in>{k. k < 512 \<and> ptr (ent m t k)}. tabs l m' (PTE2PA (ent m t k)))"
      using e by auto
    also have "\<dots> = insert t (\<Union>k\<in>{k. k < 512 \<and> ptr (ent m t k)}. if k = j then tabs l m' ?c else tabs l m (PTE2PA (ent m t k)))"
      using a by auto
    also have "\<dots> = tabs (Suc l) m t \<union> tabs l m' ?c" using j U(2) by (auto split: if_splits)
    finally show ?thesis .
  qed
  have "pt_wf (Suc l) m' t"
  proof -
    have 1: "(0 < l \<longrightarrow> testb (ent m' t k) PTE_V \<longrightarrow> ptr (ent m' t k)) \<and>
        (ptr (ent m' t k) \<longrightarrow> pt_wf l m' (PTE2PA (ent m' t k)) \<and> t \<notin> tabs l m' (PTE2PA (ent m' t k)))" if "k < 512" for k
      using e [OF that] pt_wfD [OF wf that] sib [OF that] U(1) t by (cases "k = j") auto
    have 2: "tabs l m' (PTE2PA (ent m' t k)) \<inter> tabs l m' (PTE2PA (ent m' t k')) = {}"
      if "k < 512" "k' < 512" "k \<noteq> k'" "ptr (ent m' t k)" "ptr (ent m' t k')" for k k'
    proof (cases "k = j \<or> k' = j")
      case True
      then show ?thesis using that e sib2 sib by (metis Int_commute)
    next
      case False
      then show ?thesis using that e sib pt_wfD(6) [OF wf that(1,2,3)] by auto
    qed
    show ?thesis unfolding pt_wf.simps using D(1) 1 2 by blast
  qed
  then show "sub_upd (Suc l) m m' t F" unfolding sub_upd_def
    using tabs' U(3,4) D(5) [OF j(2)] tree_bytes_mono [of l m' ?c "Suc l" m' t] by blast
  show "xl (Suc l) m' t u = (if PN (Suc l) u = j then xl l m' ?c u else xl (Suc l) m t u)"
    using e sib j by (auto simp: Let_def ptr_def)
qed

section \<open>Storing an entry\<close>

text \<open>In the table itself: only the entry changes.\<close>

lemma ent_st:
  assumes "page_al t" "j < 512" "page_al t'" "k < 512"
  shows "ent (st64 m (slot_at t j) v) t' k = (if t' = t \<and> k = j then v else ent m t' k)"
proof (cases "t' = t \<and> k = j")
  case False
  then have "slot_at t j \<noteq> slot_at t' k" using slot_inject [OF assms] by auto
  then show ?thesis unfolding ent_def using False ld_st_other slot_props(1) assms by auto
qed (auto simp: ent_def)

lemma st_outside:
  assumes "page_al t" "j < 512" "x \<notin> page_bytes t"
  shows "st64 m (slot_at t j) v x = m x"
proof (rule st64_other)
  have "unat (slot_at t j) + k \<noteq> x" if "k < 8" for k using slot_props(3) [OF assms(1,2) that] assms(3) by blast
  then have "\<not> (unat (slot_at t j) \<le> x \<and> x < unat (slot_at t j) + 8)"
    by (metis add_diff_inverse_nat nat_add_left_cancel_less not_less)
  then show "x < unat (slot_at t j) \<or> unat (slot_at t j) + 8 \<le> x" by linarith
qed

definition leaf_view :: "u64 \<Rightarrow> nat \<Rightarrow> (u64 \<times> nat) option" where
  "leaf_view v l = (if testb v PTE_V then Some (v, l) else None)"

lemma st_leaf_here:
  assumes wf: "pt_wf l m t" and l: "l \<le> 1" and j: "j < 512"
    and ok: "l = 0 \<or> \<not> ptr (ent m t j) \<and> \<not> ptr v"
  defines "m' \<equiv> st64 m (slot_at t j) v"
  shows "sub_upd l m m' t {}" "xl l m' t u = (if PN l u = j then leaf_view v l else xl l m t u)"
proof -
  have al: "page_al t" by (rule pt_wf_al [OF wf])
  have e: "ent m' t k = (if k = j then v else ent m t k)" if "k < 512" for k
    unfolding m'_def using ent_st [OF al j al that] by simp
  have out: "m' x = m x" if "x \<notin> page_bytes t" for x unfolding m'_def by (rule st_outside [OF al j that])
  have "sub_upd l m m' t {} \<and> xl l m' t u = (if PN l u = j then leaf_view v l else xl l m t u)"
  proof (cases l)
    case 0
    then show ?thesis using al out e by (auto simp: sub_upd_def tree_bytes_def leaf_view_def Let_def)
  next
    case (Suc l')
    then have l0: "l = Suc 0" "l' = 0" using l by auto
    have np: "\<not> ptr (ent m t j)" "\<not> ptr v" using ok l0 by auto
    have pe: "k < 512 \<and> ptr (ent m' t k) \<longleftrightarrow> k < 512 \<and> ptr (ent m t k)" for k using e [of k] np by (cases "k = j") auto
    have ek: "ent m' t k = ent m t k" if "k < 512" "ptr (ent m t k)" for k using e [of k] that np by (cases "k = j") auto
    have tabs: "tabs l m' t = tabs l m t" using ek unfolding l0 by (auto simp: pe)
    have ek': "k < 512 \<and> ptr (ent m t k) \<and> ent m' t k = ent m t k" if "ptr (ent m' t k)" "k < 512" for k
      using that pe [of k] ek [of k] by auto
    have dis: "PTE2PA (ent m' t k) \<noteq> PTE2PA (ent m' t i)" if "k < 512" "i < 512" "k \<noteq> i" "ptr (ent m' t k)" "ptr (ent m' t i)" for k i
      using pt_wfD(6) [of 0 m t k i] wf that ek' [of k] ek' [of i] unfolding l0 by auto
    have "pt_wf l m' t" using wf dis unfolding l0 by (auto dest: ek')
    moreover have "page_bytes t \<subseteq> tree_bytes l m' t" by (rule page_in_tree) simp
    ultimately have "sub_upd l m m' t {}" using tabs out by (auto simp: sub_upd_def)
    moreover have "xl l m' t u = (if PN l u = j then leaf_view v l else xl l m t u)"
    proof (cases "PN l u = j")
      case True
      then show ?thesis using e [OF j] np(2) unfolding l0 by (simp add: Let_def leaf_view_def)
    next
      case False
      have k: "PN l u < 512" by simp
      show ?thesis
      proof (cases "ptr (ent m t (PN l u))")
        case True
        have "page_al (PTE2PA (ent m t (PN l u)))" "PTE2PA (ent m t (PN l u)) \<noteq> t"
          using pt_wfD(3,4) [of 0 m t "PN l u"] wf k True unfolding l0 by (simp_all del: pt_wf.simps(2))
        then have "ent m' (PTE2PA (ent m t (PN l u))) i = ent m (PTE2PA (ent m t (PN l u))) i" if "i < 512" for i
          unfolding m'_def using ent_st [OF al j _ that] by simp
        then show ?thesis using e [OF k] False True unfolding l0 by (simp add: Let_def)
      next
        case nonptr: False
        then show ?thesis using e [OF k] False unfolding l0 by (simp add: Let_def)
      qed
    qed
    ultimately show ?thesis by blast
  qed
  then show "sub_upd l m m' t {}" "xl l m' t u = (if PN l u = j then leaf_view v l else xl l m t u)" by blast+
qed

text \<open>Through the tree: the entry where a walk to level \<open>low\<close> ends.\<close>

definition agree :: "nat \<Rightarrow> nat \<Rightarrow> u64 \<Rightarrow> u64 \<Rightarrow> bool" where
  "agree low l u va \<longleftrightarrow> (\<forall>j\<in>{low..l}. PN j u = PN j va)"

lemma agree_Suc: "low \<le> Suc l \<Longrightarrow> agree low (Suc l) u va \<longleftrightarrow> PN (Suc l) u = PN (Suc l) va \<and> agree low l u va"
  by (auto simp: agree_def le_Suc_eq)

lemma st_leaf:
  assumes wf: "pt_wf (low + n) m t" and low: "low \<le> 1" and stop: "stop n low m t va = Some (a, 0)"
    and ok: "low = 0 \<or> \<not> ptr (ld64 m a) \<and> \<not> ptr v"
  shows "sub_upd (low + n) m (st64 m a v) t {} \<and>
    xl (low + n) (st64 m a v) t u = (if agree low (low + n) u va then leaf_view v low else xl (low + n) m t u)"
  using wf stop
proof (induction n arbitrary: t)
  case 0
  then have a: "a = slot_at t (PN low va)" by simp
  have "low = 0 \<or> \<not> ptr (ent m t (PN low va)) \<and> \<not> ptr v" using ok by (simp add: ent_def a)
  then show ?case using st_leaf_here(1) [of low m t "PN low va" v] st_leaf_here(2) [of low m t "PN low va" v u] low 0(1) by (simp add: a agree_def)
next
  case (Suc n)
  let ?j = "PN (low + Suc n) va"
  have p: "ptr (ent m t ?j)" and s: "stop n low m (PTE2PA (ent m t ?j)) va = Some (a, 0)"
    using Suc.prems(2) by (auto simp: Let_def split: if_splits)
  have wf: "pt_wf (Suc (low + n)) m t" using Suc.prems(1) by simp
  have IH: "sub_upd (low + n) m (st64 m a v) (PTE2PA (ent m t ?j)) {}"
    "xl (low + n) (st64 m a v) (PTE2PA (ent m t ?j)) u =
      (if agree low (low + n) u va then leaf_view v low else xl (low + n) m (PTE2PA (ent m t ?j)) u)"
    using Suc.IH [OF pt_wfD(3) [OF wf PN_less p] s] by auto
  note L = sub_upd_lift [OF wf PN_less p IH(1)]
  have "xl (Suc (low + n)) m t u = xl (low + n) m (PTE2PA (ent m t ?j)) u" if "PN (Suc (low + n)) u = ?j"
    using p that by (auto simp: Let_def ptr_def)
  then show ?case using L(1,3) IH(2) agree_Suc [of low "low + n" u va] by auto
qed

lemma stop_slot:
  assumes "pt_wf (low + n) m t" "stop n low m t va = Some (a, l)"
  shows "\<exists>p j. p \<in> tabs (low + n) m t \<and> page_al p \<and> j < 512 \<and> a = slot_at p j"
  using assms
proof (induction n arbitrary: t)
  case 0
  then show ?case using pt_wf_al [of low m t] by (intro exI [of _ t] exI [of _ "PN low va"]) simp
next
  case (Suc n)
  let ?v = "ent m t (PN (low + Suc n) va)"
  have wf: "pt_wf (Suc (low + n)) m t" using Suc.prems(1) by simp
  show ?case
  proof (cases "ptr ?v")
    case True
    then have "stop n low m (PTE2PA ?v) va = Some (a, l)" using Suc.prems(2) by (auto simp: Let_def ptr_def)
    then obtain p j where "p \<in> tabs (low + n) m (PTE2PA ?v)" "page_al p" "j < 512" "a = slot_at p j"
      using Suc.IH [of "PTE2PA ?v"] pt_wfD(3) [OF wf PN_less] True by auto
    moreover have "tabs (low + n) m (PTE2PA ?v) \<subseteq> tabs (low + Suc n) m t"
      using pt_wfD(5) [OF wf PN_less] True by simp
    ultimately show ?thesis by blast
  next
    case False
    then have "a = slot_at t (PN (low + Suc n) va)" using Suc.prems(2) by (auto simp: Let_def split: if_splits)
    then show ?thesis using pt_wf_al [OF wf] by (intro exI [of _ t] exI [of _ "PN (low + Suc n) va"]) simp
  qed
qed

text \<open>A walk to level 0 that stops at a superpage stops where a walk to level 1 ends.\<close>

lemma xl_stop:
  assumes "pt_wf n m t" "n \<le> 2"
  shows "xl n m t u = (case stop n 0 m t u of None \<Rightarrow> None | Some (a, l) \<Rightarrow> leaf_view (ld64 m a) l)"
  using assms
proof (induction n arbitrary: t)
  case (Suc n)
  let ?v = "ent m t (PN (Suc n) u)"
  show ?case
  proof (cases "ptr ?v")
    case True
    then show ?thesis using Suc.IH [of "PTE2PA ?v"] pt_wfD(3) [OF Suc.prems(1) PN_less True] Suc.prems(2)
      by (auto simp: Let_def ptr_def)
  next
    case False
    then show ?thesis by (auto simp: Let_def leaf_view_def ent_def)
  qed
qed (auto simp: leaf_view_def Let_def ent_def)

end
