(* ===== verification/Vm_Walk.thy ===== *)
theory Vm_Walk
  imports Vm_Tree
begin

text \<open>
  \<open>walk\<close> on a well-formed page table: what it finds, and that the tables it adds change no
  translation.
\<close>

section \<open>Entries as words\<close>

definition flags_ok :: "u64 \<Rightarrow> bool" where "flags_ok f \<longleftrightarrow> take_bit 10 f = f"

lemma flags_bit: "flags_ok f \<Longrightarrow> bit f k \<Longrightarrow> k < 10"
  unfolding flags_ok_def by (metis bit_take_bit_iff)

lemma PTE2PA_inverse: "take_bit 12 p = 0 \<Longrightarrow> flags_ok f \<Longrightarrow> PTE2PA (PA2PTE p OR f) = p"
proof (rule bit_word_eqI)
  fix k assume p: "take_bit 12 p = 0" and f: "flags_ok f" and k: "k < LENGTH(64)"
  have "\<not> bit p k" if "k < 12" using that p by (metis bit_0_eq bit_take_bit_iff bot_apply bot_bool_def)
  moreover have "\<not> bit f (k - 2)" if "12 \<le> k" using flags_bit [OF f, of "k - 2"] that by linarith
  ultimately show "bit (PTE2PA (PA2PTE p OR f)) k = bit p k"
    using k by (cases "k < 12") (auto simp: PTE2PA_def PA2PTE_def bit_simps)
qed

lemma PA2PTE_and: "flags_ok b \<Longrightarrow> (PA2PTE p OR f) AND b = f AND b"
  by (rule bit_word_eqI) (auto simp: PA2PTE_def bit_simps dest: flags_bit)

lemma flags_ok_bits [simp]:
  "flags_ok PTE_V" "flags_ok PTE_R" "flags_ok PTE_W" "flags_ok PTE_X" "flags_ok PTE_U" "flags_ok PTE_SHARE" "flags_ok PTE_READONLY"
  by (simp_all add: flags_ok_def PTE_V_def PTE_R_def PTE_W_def PTE_X_def PTE_U_def PTE_SHARE_def PTE_READONLY_def)

lemma flags_ok_or [simp]: "flags_ok a \<Longrightarrow> flags_ok b \<Longrightarrow> flags_ok (a OR b)"
  by (simp add: flags_ok_def)

lemma testb_or: "testb (a OR b) c \<longleftrightarrow> testb a c \<or> testb (b :: u64) c"
  by (simp add: bit_eq_iff bit_simps) blast

lemma testb_PA2PTE [simp]: "flags_ok b \<Longrightarrow> testb (PA2PTE p OR f) b \<longleftrightarrow> testb f b"
  by (simp add: PA2PTE_and)

lemma PTE_V_nonzero [simp]: "PTE_V \<noteq> 0"
  by (simp add: PTE_V_def)

lemma testb_V [simp]: "testb PTE_V PTE_V" "\<not> testb PTE_V PTE_R" "\<not> testb PTE_V PTE_X" "\<not> testb PTE_V PTE_U"
  "\<not> testb 0 b" "testb (f OR PTE_V) PTE_V"
  by (simp_all add: testb_or) (simp_all add: PTE_V_def PTE_R_def PTE_X_def PTE_U_def)

lemma ptr_table [simp]: "ptr (PA2PTE p OR PTE_V)"
  by (simp add: ptr_def)

section \<open>A new table\<close>

lemma ent_zero: "page_al p \<Longrightarrow> j < 512 \<Longrightarrow> (\<And>x. x \<in> page_bytes p \<Longrightarrow> m x = 0) \<Longrightarrow> ent m p j = 0"
proof -
  assume a: "page_al p" "j < 512" and z: "\<And>x. x \<in> page_bytes p \<Longrightarrow> m x = 0"
  have "bit (ent m p j) b = bit 0 b" if "b < LENGTH(64)" for b
  proof -
    have "b div 8 < 8" using that by simp
    then have "m (unat (slot_at p j) + b div 8) = 0" using slot_props(3) [OF a] z by blast
    then show ?thesis unfolding ent_def bit_ld64 by simp
  qed
  then show ?thesis by (rule bit_word_eqI)
qed

lemma zero_tree:
  assumes "page_al p" "\<And>x. x \<in> page_bytes p \<Longrightarrow> m x = 0"
  shows "tabs l m p = {p}" "pt_wf l m p" "xl l m p u = None" "stop (Suc n) low m p u = None"
proof -
  have z: "ent m p j = 0" if "j < 512" for j by (rule ent_zero [OF assms(1) that assms(2)])
  have "\<not> ptr 0" by (simp add: ptr_def)
  then show "tabs l m p = {p}" "pt_wf l m p" using z assms(1) by (cases l; auto)+
  show "xl l m p u = None" using z by (cases l) auto
  show "stop (Suc n) low m p u = None" using z by simp
qed

lemma new_table:
  assumes wf: "pt_wf (Suc l) m t" and j: "j < 512" "\<not> testb (ent m t j) PTE_V"
    and p: "page_al p" "p \<notin> tabs (Suc l) m t" "\<And>x. x \<in> page_bytes p \<Longrightarrow> m1 x = 0" "\<And>x. x \<notin> page_bytes p \<Longrightarrow> m1 x = m x"
    and m2: "m2 = st64 m1 (slot_at t j) (PA2PTE p OR PTE_V)"
  shows "sub_upd (Suc l) m m2 t {p}" "ent m2 t j = PA2PTE p OR PTE_V" "PTE2PA (ent m2 t j) = p"
    "xl (Suc l) m2 t u = xl (Suc l) m t u"
proof -
  have al: "page_al t" by (rule pt_wf_al [OF wf])
  have pt: "p \<noteq> t" using p(2) by auto
  have out: "m2 x = m x" if "x \<in> page_bytes q" "page_al q" "q \<noteq> p" "q \<noteq> t" for x q
  proof -
    have "x \<notin> page_bytes t" "x \<notin> page_bytes p" using that p(1) al page_bytes_disjoint by blast+
    then show ?thesis unfolding m2 using st_outside [OF al j(1)] p(4) by simp
  qed
  have z: "m2 x = 0" if "x \<in> page_bytes p" for x
  proof -
    have "x \<notin> page_bytes t" using that p(1) al pt page_bytes_disjoint by blast
    then show ?thesis unfolding m2 using st_outside [OF al j(1)] p(3) that by simp
  qed
  note zt = zero_tree [OF p(1) z]
  have m1: "ent m1 t k = ent m t k" if "k < 512" for k
    using that al pt page_bytes_disjoint [OF p(1) al] p(4) by (intro ent_cong) auto
  have e: "ent m2 t k = (if k = j then PA2PTE p OR PTE_V else ent m t k)" if "k < 512" for k
    unfolding m2 using ent_st [OF al j(1) al that] m1 [OF that] by simp
  then show ej: "ent m2 t j = PA2PTE p OR PTE_V" using j(1) by simp
  have c: "PTE2PA (PA2PTE p OR PTE_V) = p" using p(1) by (intro PTE2PA_inverse) (auto simp: page_al_def)
  then show "PTE2PA (ent m2 t j) = p" using ej by simp
  have nj: "\<not> ptr (ent m t j)" using j(2) by (simp add: ptr_def)
  have sib: "tabs l m2 (PTE2PA (ent m t k)) = tabs l m (PTE2PA (ent m t k)) \<and> pt_wf l m2 (PTE2PA (ent m t k)) \<and>
    (\<forall>u. xl l m2 (PTE2PA (ent m t k)) u = xl l m (PTE2PA (ent m t k)) u)" if k: "k < 512" "ptr (ent m t k)" for k
  proof (rule tree_same)
    note E = pt_wfD [OF wf k(1)]
    show "pt_wf l m (PTE2PA (ent m t k))" by (rule E(3) [OF k(2)])
    fix x assume "x \<in> tree_bytes l m (PTE2PA (ent m t k))"
    then obtain q where q: "q \<in> tabs l m (PTE2PA (ent m t k))" "x \<in> page_bytes q" by (auto simp: tree_bytes_def)
    moreover have "q \<noteq> t" "q \<noteq> p" using q(1) E(4,5) [OF k(2)] p(2) by auto
    ultimately show "m2 x = m x" using out tabs_al [OF E(3) [OF k(2)]] by blast
  qed
  have pe: "k < 512 \<and> ptr (ent m2 t k) \<longleftrightarrow> k = j \<or> k < 512 \<and> ptr (ent m t k)" for k
    using e [of k] nj j(1) by (cases "k = j") auto
  have tabs': "tabs (Suc l) m2 t = insert p (tabs (Suc l) m t)"
  proof -
    have "{k. k < 512 \<and> ptr (ent m2 t k)} = insert j {k. k < 512 \<and> ptr (ent m t k)}" using pe by auto
    moreover have "tabs l m2 (PTE2PA (ent m2 t k)) = tabs l m (PTE2PA (ent m t k))" if "k < 512" "ptr (ent m t k)" for k
      using e [OF that(1)] sib that nj by auto
    moreover have "tabs l m2 (PTE2PA (ent m2 t j)) = {p}" using ej c zt(1) by simp
    ultimately show ?thesis by auto
  qed
  have "pt_wf (Suc l) m2 t"
  proof -
    have 1: "(0 < l \<longrightarrow> testb (ent m2 t k) PTE_V \<longrightarrow> ptr (ent m2 t k)) \<and>
        (ptr (ent m2 t k) \<longrightarrow> pt_wf l m2 (PTE2PA (ent m2 t k)) \<and> t \<notin> tabs l m2 (PTE2PA (ent m2 t k)))" if "k < 512" for k
      using e [OF that] pt_wfD [OF wf that] sib [OF that] zt(1,2) c pt by (cases "k = j") auto
    have 2: "tabs l m2 (PTE2PA (ent m2 t k)) \<inter> tabs l m2 (PTE2PA (ent m2 t k')) = {}"
      if "k < 512" "k' < 512" "k \<noteq> k'" "ptr (ent m2 t k)" "ptr (ent m2 t k')" for k k'
    proof -
      have s: "tabs l m2 (PTE2PA (ent m2 t i)) = tabs l m (PTE2PA (ent m t i)) \<and> p \<notin> tabs l m (PTE2PA (ent m t i)) \<and>
        ptr (ent m t i)" if "i < 512" "i \<noteq> j" "ptr (ent m2 t i)" for i
        using that e [OF that(1)] sib [OF that(1)] pt_wfD(5) [OF wf that(1)] p(2) by auto
      have "tabs l m2 (PTE2PA (ent m2 t j)) = {p}" using ej c zt(1) by simp
      then show ?thesis using that s [of k] s [of k'] pt_wfD(6) [OF wf that(1,2,3)] by (cases "k = j"; cases "k' = j") auto
    qed
    show ?thesis unfolding pt_wf.simps using al 1 2 by blast
  qed
  moreover have "m2 x = m x" if "x \<notin> page_bytes p" "x \<notin> page_bytes t" for x
    unfolding m2 using st_outside [OF al j(1) that(2)] p(4) that(1) by simp
  moreover have "page_bytes p \<subseteq> tree_bytes (Suc l) m2 t" "page_bytes t \<subseteq> tree_bytes (Suc l) m2 t"
    using tabs' by (auto intro!: page_in_tree)
  ultimately show "sub_upd (Suc l) m m2 t {p}" unfolding sub_upd_def using tabs' by blast
  show "xl (Suc l) m2 t u = xl (Suc l) m t u"
  proof (cases "PN (Suc l) u = j")
    case True
    then show ?thesis using ej c zt(3) j(2) by (simp add: Let_def)
  next
    case False
    then show ?thesis using e [OF PN_less, of "Suc l" u] sib [OF PN_less, of "Suc l" u] by (simp add: Let_def)
  qed
qed

section \<open>Pages of the allocator\<close>

definition held :: "kmem \<Rightarrow> u64 set" where
  "held k = page_to_pa ` {q. q < NPAGES \<and> allocated (kpages k q)}"

definition keeps :: "kmem \<Rightarrow> kmem \<Rightarrow> bool" where
  "keeps k k' \<longleftrightarrow> (\<forall>q<NPAGES. allocated (kpages k q) \<longrightarrow> kpages k' q = kpages k q)"

lemma keeps_refl [simp]: "keeps k k" by (simp add: keeps_def)

lemma keeps_trans: "keeps a b \<Longrightarrow> keeps b c \<Longrightarrow> keeps a c" by (simp add: keeps_def)

lemma keeps_held: "keeps k k' \<Longrightarrow> held k \<subseteq> held k'" by (auto simp: keeps_def held_def)

lemma page_to_pa_al: "q < NPAGES \<Longrightarrow> page_al (page_to_pa q)"
proof -
  assume "q < NPAGES"
  then have q: "q < 22528" by (simp add: config)
  have u: "unat (page_to_pa q) = q * 4096 + unat START_MEM"
    using q by (simp add: page_to_pa_def PGSIZE_def START_MEM_def unat_add_lem [THEN iffD1] unat_mult_lem [THEN iffD1] unat_of_nat)
  have "unat (take_bit 12 (page_to_pa q)) = take_bit 12 (unat (page_to_pa q))"
    by (rule unsigned_take_bit_eq)
  also have "\<dots> = unat (page_to_pa q) mod 2 ^ 12" by (rule take_bit_eq_mod)
  also have "\<dots> = 0" unfolding u by (simp add: START_MEM_def)
  finally have "take_bit 12 (page_to_pa q) = 0" by (simp only: unat_eq_0)
  moreover have "page_to_pa q \<noteq> 0" using u by (auto simp: START_MEM_def)
  ultimately show ?thesis by (simp add: page_al_def)
qed

lemma page_to_pa_inject: "p < NPAGES \<Longrightarrow> q < NPAGES \<Longrightarrow> page_to_pa p = page_to_pa q \<Longrightarrow> p = q"
proof -
  assume "p < NPAGES" "q < NPAGES" "page_to_pa p = page_to_pa q"
  moreover have "NPAGES < 2 ^ 50" by (simp add: config)
  ultimately have "Some p = Some q" using page_to_pa_inverse by (metis less_trans)
  then show "p = q" by simp
qed

lemma held_al: "p \<in> held k \<Longrightarrow> page_al p"
  by (auto simp: held_def page_to_pa_al)

text \<open>A page from \<open>kmalloc\<close>, and one from \<open>kzalloc\<close>, with nothing to reclaim.\<close>

lemma kmalloc_page:
  assumes "kmem_ok k" "i < NCPU" "reclaims {} af"
  shows "\<exists>k' r. kmalloc af i PGSIZE k = Some (k', r) \<and> kmem_ok k' \<and> keeps k k' \<and>
    (case r of None \<Rightarrow> kfree_set k = {} \<and> kfree_set k' = {}
     | Some p \<Rightarrow> p \<notin> held k \<and> (\<exists>q<NPAGES. p = page_to_pa q \<and> allocated (kpages k' q) \<and> refcnt (kpages k' q) = 1 \<and>
         (af = Some \<longrightarrow> kfree_set k' = kfree_set k - {q})))"
proof -
  have "kmalloc af i PGSIZE k = alloc_order af i 0 k" by (simp add: kmalloc_def)
  moreover have "{} \<inter> kfree_set k = {}" by simp
  ultimately obtain k' r where a: "kmalloc af i PGSIZE k = Some (k', r)" "kmem_ok k'"
    "case r of None \<Rightarrow> same_mem k k' \<and> (\<forall>j<NCPU. no_run 0 k j)
     | Some pa \<Rightarrow> \<exists>p. pa = page_to_pa p \<and> {p..<p + 2 ^ 0} \<subseteq> kfree_set k \<and>
         allocated (kpages k' p) \<and> order (kpages k' p) = 0 \<and> refcnt (kpages k' p) = 1 \<and>
         (\<forall>q<NPAGES. q \<notin> {} \<longrightarrow> allocated (kpages k q) \<longrightarrow> kpages k' q = kpages k q) \<and>
         (af = Some \<longrightarrow> kfree_set k' = kfree_set k - {p..<p + 2 ^ 0})"
    using alloc_order_ok [OF assms(1,2) le0 assms(3)] by auto
  have po: "pools_ok k" using assms(1) by (simp add: kmem_ok_def)
  show ?thesis
  proof (cases r)
    case None
    then have sm: "same_mem k k'" using a(3) by simp
    have nr: "no_run 0 k j" if "j < NCPU" for j using a(3) None that by simp
    have "free_set (mempools k j) = {}" if "j < NCPU" for j
    proof -
      have "q \<notin> free_set (mempools k j)" if "j * PAGES_PER_CPU \<le> q" for q
        using nr [OF \<open>j < NCPU\<close>] that unfolding no_run_def by auto
      then show ?thesis using pools_okD(5) [OF po that] unfolding slot_def by auto
    qed
    then have "kfree_set k = {}" unfolding kfree_set_def by auto
    then show ?thesis using a(1,2) None sm same_mem_kfree [OF sm] by (auto simp: same_mem_def keeps_def)
  next
    case (Some pa)
    then obtain p where p: "pa = page_to_pa p" "p \<in> kfree_set k" "allocated (kpages k' p)" "refcnt (kpages k' p) = 1"
      "keeps k k'" "af = Some \<longrightarrow> kfree_set k' = kfree_set k - {p}" using a(3) by (auto simp: keeps_def)
    have np: "p < NPAGES" "\<not> allocated (kpages k p)" using kfree_set_range [OF po p(2)] kfree_not_allocated [OF po p(2)] by auto
    then have "pa \<notin> held k" using page_to_pa_inject p(1) unfolding held_def by blast
    then show ?thesis using a(1,2) Some p np(1) by auto
  qed
qed

text \<open>At most \<open>n\<close> pages stopped being free.\<close>

definition took_pages :: "nat \<Rightarrow> kmem \<Rightarrow> kmem \<Rightarrow> bool" where
  "took_pages n k k' \<longleftrightarrow> (\<exists>Q. finite Q \<and> card Q \<le> n \<and> kfree_set k \<subseteq> kfree_set k' \<union> Q)"

lemma took_pages_0 [simp]: "took_pages n k k"
  unfolding took_pages_def by (intro exI [of _ "{}"]) simp

lemma took_pages_trans: "took_pages a k1 k2 \<Longrightarrow> took_pages b k2 k3 \<Longrightarrow> took_pages (a + b) k1 k3"
proof -
  assume "took_pages a k1 k2" "took_pages b k2 k3"
  then obtain P Q where "finite P" "card P \<le> a" "kfree_set k1 \<subseteq> kfree_set k2 \<union> P" "finite Q" "card Q \<le> b" "kfree_set k2 \<subseteq> kfree_set k3 \<union> Q"
    unfolding took_pages_def by blast
  then have "finite (P \<union> Q)" "card (P \<union> Q) \<le> a + b" "kfree_set k1 \<subseteq> kfree_set k3 \<union> (P \<union> Q)"
    using card_Un_le [of P Q] by auto
  then show ?thesis unfolding took_pages_def by blast
qed

lemma took_pages_mono: "took_pages a k k' \<Longrightarrow> a \<le> b \<Longrightarrow> took_pages b k k'"
  unfolding took_pages_def by (meson le_trans)

lemma took_pages_all: "took_pages n k k' \<Longrightarrow> kfree_set k' = {} \<Longrightarrow> card (kfree_set k) \<le> n"
proof -
  assume "took_pages n k k'" "kfree_set k' = {}"
  then obtain Q where "finite Q" "card Q \<le> n" "kfree_set k \<subseteq> Q" by (auto simp: took_pages_def)
  then show ?thesis using card_mono [of Q "kfree_set k"] by simp
qed

definition fresh_page :: "mach \<Rightarrow> mach \<Rightarrow> u64 \<Rightarrow> bool" where
  "fresh_page s s' p \<longleftrightarrow> page_al p \<and> p \<notin> held (km s) \<and> p \<in> held (km s') \<and>
     (\<exists>q<NPAGES. p = page_to_pa q \<and> allocated (kpages (km s') q) \<and> refcnt (kpages (km s') q) = 1) \<and>
     (\<forall>x\<in>page_bytes p. pm s' x = 0) \<and> (\<forall>x. x \<notin> page_bytes p \<longrightarrow> pm s' x = pm s x)"

lemma kzalloc_page:
  assumes "kmem_ok (km s)" "i < NCPU" "reclaims {} af"
  shows "\<exists>s' p. kzalloc_s af i PGSIZE s = Some (s', p) \<and> kmem_ok (km s') \<and> keeps (km s) (km s') \<and>
    (if p = 0 then pm s' = pm s \<and> kfree_set (km s) = {} \<and> kfree_set (km s') = {}
     else fresh_page s s' p) \<and> (af = Some \<longrightarrow> took_pages 1 (km s) (km s'))"
proof -
  obtain k' r where k: "kmalloc af i PGSIZE (km s) = Some (k', r)" "kmem_ok k'" "keeps (km s) k'"
    "case r of None \<Rightarrow> kfree_set (km s) = {} \<and> kfree_set k' = {}
     | Some p \<Rightarrow> p \<notin> held (km s) \<and> (\<exists>q<NPAGES. p = page_to_pa q \<and> allocated (kpages k' q) \<and> refcnt (kpages k' q) = 1 \<and>
         (af = Some \<longrightarrow> kfree_set k' = kfree_set (km s) - {q}))"
    using kmalloc_page [OF assms] by blast
  have sz: "unat (ucast PGSIZE :: u32) = 4096" by (simp add: PGSIZE_def)
  show ?thesis
  proof (cases r)
    case None
    then show ?thesis using k by (auto simp: kzalloc_s_def kzalloc_def null_or_def took_pages_def intro!: exI [of _ "{}"])
  next
    case (Some p)
    then have p: "p \<notin> held (km s)" "page_al p" "p \<in> held k'" "af = Some \<longrightarrow> (\<exists>q. kfree_set k' = kfree_set (km s) - {q})"
      "\<exists>q<NPAGES. p = page_to_pa q \<and> allocated (kpages k' q) \<and> refcnt (kpages k' q) = 1"
      using k(4) page_to_pa_al by (auto simp: held_def)
    have tk: "took_pages 1 (km s) k'" if a: "af = Some"
    proof -
      obtain q where "kfree_set k' = kfree_set (km s) - {q}" using p(4) a by blast
      then show ?thesis unfolding took_pages_def by (intro exI [of _ "{q}"]) auto
    qed
    have m: "memset (pm s) (unat p) 0 4096 x = (if x \<in> page_bytes p then 0 else pm s x)" for x
      by (simp add: memset_eq page_bytes_def)
    have "kzalloc_s af i PGSIZE s = Some (\<lparr>km = k', pm = memset (pm s) (unat p) 0 4096\<rparr>, p)"
      using k(1) Some by (simp add: kzalloc_s_def kzalloc_def null_or_def sz)
    then show ?thesis using k(2,3) p(1-3,5) m tk by (auto simp: fresh_page_def page_al_def)
  qed
qed

section \<open>Walking\<close>

declare pt_wf.simps(2) [simp del] tabs.simps(2) [simp del]

definition walked :: "nat \<Rightarrow> nat \<Rightarrow> u64 \<Rightarrow> u64 \<Rightarrow> mach \<Rightarrow> mach \<Rightarrow> u64 \<Rightarrow> int \<Rightarrow> bool" where
  "walked low n t va s s' a l \<longleftrightarrow> kmem_ok (km s') \<and> keeps (km s) (km s') \<and>
     sub_upd (low + n) (pm s) (pm s') t (held (km s') - held (km s)) \<and> tabs (low + n) (pm s') t \<subseteq> held (km s') \<and>
     (\<forall>u. xl (low + n) (pm s') t u = xl (low + n) (pm s) t u) \<and>
     (if a = 0 then l = - 1 \<and> kfree_set (km s') = {} else \<exists>l'. l = int l' \<and> stop n low (pm s') t va = Some (a, l'))"

lemma sub_upd_refl: "pt_wf l m t \<Longrightarrow> sub_upd l m m t F"
  by (auto simp: sub_upd_def)

lemma sub_upd_mono: "sub_upd l m m' t F \<Longrightarrow> F \<subseteq> G \<Longrightarrow> sub_upd l m m' t G"
  by (auto simp: sub_upd_def)

lemma walked_lift:
  assumes wf: "pt_wf (low + Suc n) (pm s) t" and sub: "tabs (low + Suc n) (pm s) t \<subseteq> held (km s)"
    and e: "ptr (ent (pm s) t (PN (low + Suc n) va))"
    and w: "walked low n (PTE2PA (ent (pm s) t (PN (low + Suc n) va))) va s s' a l"
  shows "walked low (Suc n) t va s s' a l"
proof -
  let ?j = "PN (low + Suc n) va" let ?c = "PTE2PA (ent (pm s) t ?j)" let ?F = "held (km s') - held (km s)"
  have wf': "pt_wf (Suc (low + n)) (pm s) t" using wf by simp
  have F: "?F \<inter> tabs (Suc (low + n)) (pm s) t = {}" using sub by auto
  have up: "sub_upd (low + n) (pm s) (pm s') ?c ?F" using w by (simp add: walked_def)
  note L = sub_upd_lift [OF wf' PN_less, of "low + Suc n" va "pm s'" ?F]
  have U: "sub_upd (Suc (low + n)) (pm s) (pm s') t ?F" using L(1) e up F by simp
  have ej: "ent (pm s') t ?j = ent (pm s) t ?j" using L(2) [of ?j] e up F by simp
  have X: "xl (Suc (low + n)) (pm s') t u = xl (Suc (low + n)) (pm s) t u" for u
    using L(3) [of u] e up F w by (auto simp: walked_def Let_def ptr_def)
  have "tabs (Suc (low + n)) (pm s') t \<subseteq> held (km s')"
    using U sub w keeps_held [of "km s" "km s'"] unfolding sub_upd_def walked_def by auto
  moreover have st: "stop (Suc n) low (pm s') t va = stop n low (pm s') ?c va"
    using e unfolding stop.simps ej by (simp add: Let_def ptr_def)
  ultimately show ?thesis using w U X unfolding walked_def add_Suc_right st by blast
qed

lemma walk_alloc:
  assumes "pt_wf (low + n) (pm s) t" "tabs (low + n) (pm s) t \<subseteq> held (km s)" "kmem_ok (km s)"
    and "i < NCPU" "reclaims {} af"
  shows "\<exists>s' a l. walk_loop af i va True low n s t = Some (s', a, l) \<and> walked low n t va s s' a l \<and>
    (af = Some \<longrightarrow> took_pages n (km s) (km s'))"
  using assms(1-3)
proof (induction n arbitrary: s t)
  case 0
  then show ?case using slot_props(2) [OF pt_wf_al [OF 0(1)] PN_less] sub_upd_refl [OF 0(1)] by (auto simp: walked_def)
next
  case (Suc n)
  let ?j = "PN (low + Suc n) va"
  let ?v = "ent (pm s) t ?j"
  have wf: "pt_wf (Suc (low + n)) (pm s) t" using Suc.prems(1) by simp
  have nz: "slot_at t ?j \<noteq> 0" by (rule slot_props(2) [OF pt_wf_al [OF wf] PN_less])
  have ld: "load s (slot_at t ?j) = Some ?v" using nz by (simp add: load_def ent_def)
  have down: "\<exists>s'' a l. walk_loop af i va True low n s' (PTE2PA (ent (pm s') t ?j)) = Some (s'', a, l) \<and> walked low (Suc n) t va s' s'' a l \<and>
      (af = Some \<longrightarrow> took_pages n (km s') (km s''))"
    if s': "pt_wf (low + Suc n) (pm s') t" "tabs (low + Suc n) (pm s') t \<subseteq> held (km s')" "kmem_ok (km s')" "ptr (ent (pm s') t ?j)" for s'
  proof -
    have wf': "pt_wf (Suc (low + n)) (pm s') t" using s'(1) by simp
    have c: "pt_wf (low + n) (pm s') (PTE2PA (ent (pm s') t ?j))" "tabs (low + n) (pm s') (PTE2PA (ent (pm s') t ?j)) \<subseteq> held (km s')"
      using pt_wfD(3,5) [OF wf' PN_less s'(4)] s'(2) by auto
    then show ?thesis using Suc.IH [OF c s'(3)] walked_lift [OF s'(1,2,4)] by blast
  qed
  consider (leaf) "testb ?v PTE_V" "\<not> ptr ?v" | (ptr) "ptr ?v" | (none) "\<not> testb ?v PTE_V" by (auto simp: ptr_def)
  then show ?case
  proof cases
    case leaf
    then have "low + n = 0" using pt_wfD(2) [OF wf PN_less, of "low + Suc n" va] by (cases "low + n") auto
    then have "walk_loop af i va True low (Suc n) s t = Some (s, slot_at t ?j, 1)"
      using ld leaf by (auto simp: Let_def ptr_def)
    moreover have "stop (Suc n) low (pm s) t va = Some (slot_at t ?j, 1)" using leaf \<open>low + n = 0\<close> by (simp add: Let_def)
    ultimately show ?thesis using Suc.prems nz sub_upd_refl [OF Suc.prems(1)] by (auto simp: walked_def)
  next
    case ptr
    then have "walk_loop af i va True low (Suc n) s t = walk_loop af i va True low n s (PTE2PA ?v)"
      using ld by (simp add: Let_def ptr_def)
    then show ?thesis using down [OF Suc.prems ptr] took_pages_mono [of n _ _ "Suc n"] by auto
  next
    case none
    obtain s1 p where z: "kzalloc_s af i PGSIZE s = Some (s1, p)" "kmem_ok (km s1)" "keeps (km s) (km s1)"
      "if p = 0 then pm s1 = pm s \<and> kfree_set (km s1) = {} else fresh_page s s1 p" "af = Some \<longrightarrow> took_pages 1 (km s) (km s1)"
      using kzalloc_page [OF Suc.prems(3) assms(4,5)] by (auto split: if_splits)
    show ?thesis
    proof (cases "p = 0")
      case True
      then have "walk_loop af i va True low (Suc n) s t = Some (s1, 0, - 1)" using ld none z(1) by (simp add: Let_def)
      moreover have "walked low (Suc n) t va s s1 0 (- 1)"
        using z True Suc.prems(1,2) keeps_held [OF z(3)] sub_upd_refl [OF Suc.prems(1)] by (auto simp: walked_def)
      moreover have "af = Some \<longrightarrow> took_pages (Suc n) (km s) (km s1)" using z(5) took_pages_mono [of 1 _ _ "Suc n"] by auto
      ultimately show ?thesis by blast
    next
      case False
      let ?s2 = "s1\<lparr>pm := st64 (pm s1) (slot_at t ?j) (PA2PTE p OR PTE_V)\<rparr>"
      have f: "page_al p" "p \<notin> held (km s)" "p \<in> held (km s1)" "\<And>x. x \<in> page_bytes p \<Longrightarrow> pm s1 x = 0"
        "\<And>x. x \<notin> page_bytes p \<Longrightarrow> pm s1 x = pm s x" using z(4) False by (auto simp: fresh_page_def)
      have pt: "p \<notin> tabs (Suc (low + n)) (pm s) t" using f(2) Suc.prems(2) by auto
      note N = new_table [OF wf PN_less none f(1) pt f(4,5), of "pm ?s2"]
      have u2: "sub_upd (Suc (low + n)) (pm s) (pm ?s2) t {p}" "ent (pm ?s2) t ?j = PA2PTE p OR PTE_V"
        "PTE2PA (ent (pm ?s2) t ?j) = p" "\<And>u. xl (Suc (low + n)) (pm ?s2) t u = xl (Suc (low + n)) (pm s) t u"
        using N by simp_all
      have "tabs (low + Suc n) (pm ?s2) t \<subseteq> held (km ?s2)" "pt_wf (low + Suc n) (pm ?s2) t"
        using u2(1) Suc.prems(2) keeps_held [OF z(3)] f(3) by (auto simp: sub_upd_def)
      moreover have "ptr (ent (pm ?s2) t ?j)" using u2(2) by simp
      ultimately obtain s' a l where w: "walk_loop af i va True low n ?s2 p = Some (s', a, l)" "walked low (Suc n) t va ?s2 s' a l"
        "af = Some \<longrightarrow> took_pages n (km ?s2) (km s')"
        using down [of ?s2] z(2) u2(3) by auto
      have "walk_loop af i va True low (Suc n) s t = Some (s', a, l)"
        using ld none z(1) False nz w(1) by (simp add: Let_def store_def)
      moreover have "walked low (Suc n) t va s s' a l"
      proof -
        have W: "sub_upd (Suc (low + n)) (pm ?s2) (pm s') t (held (km s') - held (km s1))" "keeps (km s1) (km s')"
          using w(2) by (simp_all add: walked_def)
        have "{p} \<union> (held (km s') - held (km s1)) \<subseteq> held (km s') - held (km s)"
          using f(2,3) keeps_held [OF W(2)] keeps_held [OF z(3)] by auto
        then have "sub_upd (Suc (low + n)) (pm s) (pm s') t (held (km s') - held (km s))"
          using sub_upd_trans [OF u2(1) W(1)] sub_upd_mono by blast
        then show ?thesis using w(2) u2(4) keeps_trans [OF z(3) W(2)] by (auto simp: walked_def)
      qed
      moreover have "af = Some \<longrightarrow> took_pages (Suc n) (km s) (km s')"
        using w(3) z(5) took_pages_trans [of 1 "km s" "km s1" n "km s'"] by simp
      ultimately show ?thesis by blast
    qed
  qed
qed

text \<open>Without allocation: the state stays, and the result is where the walk stops.\<close>

lemma walk_noalloc:
  assumes "pt_wf (low + n) (pm s) t"
  shows "walk_loop af i va False low n s t =
    Some (case stop n low (pm s) t va of None \<Rightarrow> (s, 0, - 1) | Some (a, l) \<Rightarrow> (s, a, int l))"
  using assms
proof (induction n arbitrary: t)
  case (Suc n)
  let ?j = "PN (low + Suc n) va"
  let ?v = "ent (pm s) t ?j"
  have wf: "pt_wf (Suc (low + n)) (pm s) t" using Suc.prems(1) by simp
  have nz: "slot_at t ?j \<noteq> 0" by (rule slot_props(2) [OF pt_wf_al [OF wf] PN_less])
  have ld: "load s (slot_at t ?j) = Some ?v" using nz by (simp add: load_def ent_def)
  consider (leaf) "testb ?v PTE_V" "\<not> ptr ?v" | (ptr) "ptr ?v" | (none) "\<not> testb ?v PTE_V" by (auto simp: ptr_def)
  then show ?case
  proof cases
    case leaf
    then have "low + n = 0" using pt_wfD(2) [OF wf PN_less, of "low + Suc n" va] by (cases "low + n") auto
    then show ?thesis using leaf ld by (auto simp: Let_def ptr_def)
  next
    case ptr
    then show ?thesis using Suc.IH [OF pt_wfD(3) [OF wf PN_less ptr]] ld by (simp add: Let_def ptr_def)
  next
    case none
    then show ?thesis using ld by (simp add: Let_def)
  qed
qed simp

end
