(* ===== verification/Vm_Map.thy ===== *)
theory Vm_Map
  imports Vm_Walk
begin

text \<open>
  \<open>mappages\<close>, \<open>walkaddr\<close>, \<open>uvmunmap\<close> and the copies against the translation that a page table stands for.
\<close>

section \<open>Page numbers\<close>

abbreviation vpn :: "u64 \<Rightarrow> nat" where "vpn u \<equiv> unat u div 4096"

lemma unat_PN: "unat (PN l va) = unat va div 2 ^ (12 + 9 * l) mod 512"
proof -
  have "PN l va = take_bit 9 (drop_bit (12 + 9 * l) va)" by (simp add: PN_def take_bit_eq_mask mask_eq_exp_minus_1)
  then have "unat (PN l va) = take_bit 9 (drop_bit (12 + 9 * l) (unat va))"
    by (simp only: unsigned_take_bit_eq unsigned_drop_bit_eq) (simp add: take_bit_nat_eq_self unsigned_less [of va, simplified])
  then show ?thesis by (simp add: take_bit_eq_mod drop_bit_eq_div)
qed

lemma digits: "(x::nat) div 2 ^ 12 = 512 * (512 * (x div 2 ^ 30) + x div 2 ^ 21 mod 512) + x div 2 ^ 12 mod 512"
proof -
  have "x div 2 ^ 30 = x div 2 ^ 21 div 512" "x div 2 ^ 21 = x div 2 ^ 12 div 512" by (simp_all flip: div_mult2_eq)
  then show ?thesis by (metis mult_div_mod_eq)
qed

lemma agree_vpn:
  assumes "u < MAXVA" "va < MAXVA"
  shows "agree 0 2 u va \<longleftrightarrow> vpn u = vpn va"
proof -
  have "{0..2} = {0, 1, 2::nat}" by auto
  then have ag: "agree 0 2 u va \<longleftrightarrow> unat (PN 0 u) = unat (PN 0 va) \<and> unat (PN 1 u) = unat (PN 1 va) \<and> unat (PN 2 u) = unat (PN 2 va)"
    by (simp add: agree_def word_unat_eq_iff)
  have top: "unat x div 2 ^ 30 mod 512 = unat x div 2 ^ 30" if "x < MAXVA" for x
    using that by (simp add: MAXVA_def word_less_nat_alt)
  have "unat (PN 2 u) = unat u div 2 ^ 30" "unat (PN 2 va) = unat va div 2 ^ 30"
    "unat (PN 1 u) = unat u div 2 ^ 21 mod 512" "unat (PN 1 va) = unat va div 2 ^ 21 mod 512"
    "unat (PN 0 u) = unat u div 2 ^ 12 mod 512" "unat (PN 0 va) = unat va div 2 ^ 12 mod 512"
    using top [OF assms(1)] top [OF assms(2)] by (simp_all add: unat_PN)
  note P = this
  have "agree 0 2 u va \<longleftrightarrow> unat u div 2 ^ 12 = unat va div 2 ^ 12"
  proof
    assume "agree 0 2 u va"
    then show "unat u div 2 ^ 12 = unat va div 2 ^ 12" using ag P digits [of "unat u"] digits [of "unat va"] by metis
  next
    assume e: "unat u div 2 ^ 12 = unat va div 2 ^ 12"
    have "x div 2 ^ 21 = x div 2 ^ 12 div 512" "x div 2 ^ 30 = x div 2 ^ 12 div 512 div 512" for x :: nat
      by (simp_all flip: div_mult2_eq)
    then show "agree 0 2 u va" unfolding ag P using e by simp
  qed
  then show ?thesis by simp
qed

section \<open>One page\<close>

definition vm_ok :: "mach \<Rightarrow> u64 \<Rightarrow> bool" where
  "vm_ok s t \<longleftrightarrow> kmem_ok (km s) \<and> pt_wf 2 (pm s) t \<and> tabs 2 (pm s) t \<subseteq> held (km s)"

text \<open>What page-table operations may do: the tree stays one, grows only by pages that were free,
  and no byte outside it changes, nor any page that was handed out.\<close>

definition vm_step :: "u64 \<Rightarrow> mach \<Rightarrow> mach \<Rightarrow> bool" where
  "vm_step t s s' \<longleftrightarrow> vm_ok s' t \<and> keeps (km s) (km s') \<and> sub_upd 2 (pm s) (pm s') t (held (km s') - held (km s))"

lemma vm_step_refl: "vm_ok s t \<Longrightarrow> vm_step t s s"
  by (simp add: vm_step_def vm_ok_def sub_upd_refl)

lemma vm_step_trans: "vm_step t a b \<Longrightarrow> vm_step t b c \<Longrightarrow> vm_step t a c"
proof -
  assume ab: "vm_step t a b" and bc: "vm_step t b c"
  have k: "held (km a) \<subseteq> held (km b)" "held (km b) \<subseteq> held (km c)" using ab bc keeps_held by (auto simp: vm_step_def)
  have "sub_upd 2 (pm a) (pm c) t ((held (km b) - held (km a)) \<union> (held (km c) - held (km b)))"
    using ab bc sub_upd_trans unfolding vm_step_def by blast
  moreover have "(held (km b) - held (km a)) \<union> (held (km c) - held (km b)) \<subseteq> held (km c) - held (km a)" using k by auto
  ultimately show ?thesis using ab bc keeps_trans sub_upd_mono unfolding vm_step_def by blast
qed

lemma xl_store:
  assumes ok: "vm_ok s t" and st: "stop 2 0 (pm s) t a = Some (pte, 0)" and a: "a < MAXVA"
  shows "vm_step t s (s\<lparr>pm := st64 (pm s) pte v\<rparr>)"
    "u < MAXVA \<Longrightarrow> xl 2 (st64 (pm s) pte v) t u = (if vpn u = vpn a then leaf_view v 0 else xl 2 (pm s) t u)"
proof -
  have wf: "pt_wf 2 (pm s) t" using ok by (simp add: vm_ok_def)
  note S = st_leaf [where low = 0 and n = 2, unfolded add_0, OF wf zero_le_one st, of v]
  have U: "sub_upd 2 (pm s) (st64 (pm s) pte v) t {}" using S by blast
  then have "pt_wf 2 (st64 (pm s) pte v) t" "tabs 2 (st64 (pm s) pte v) t = tabs 2 (pm s) t" by (auto simp: sub_upd_def)
  then show "vm_step t s (s\<lparr>pm := st64 (pm s) pte v\<rparr>)" using ok U by (simp add: vm_step_def vm_ok_def)
  show "u < MAXVA \<Longrightarrow> xl 2 (st64 (pm s) pte v) t u = (if vpn u = vpn a then leaf_view v 0 else xl 2 (pm s) t u)"
    using S [of u] agree_vpn [OF _ a, of u] by simp
qed

lemma xl_stop2: "vm_ok s t \<Longrightarrow> xl 2 (pm s) t u = (case stop 2 0 (pm s) t u of None \<Rightarrow> None | Some (a, l) \<Rightarrow> leaf_view (ld64 (pm s) a) l)"
  by (rule xl_stop) (simp_all add: vm_ok_def)

lemma stop_level:
  assumes "vm_ok s t" "stop 2 0 (pm s) t u = Some (a, l)"
  shows "a \<noteq> 0" "l = 0 \<or> l = 1 \<and> testb (ld64 (pm s) a) PTE_V"
proof -
  have wf: "pt_wf 2 (pm s) t" using assms(1) by (simp add: vm_ok_def)
  then show "a \<noteq> 0" using stop_slot [where low = 0 and n = 2, unfolded add_0, OF wf assms(2)] slot_props(2) by auto
  have wf': "pt_wf (Suc 1) (pm s) t" using wf by (simp add: numeral_2_eq_2)
  have "stop (Suc (Suc 0)) 0 (pm s) t u = Some (a, l)" using assms(2) by (simp only: numeral_2_eq_2)
  then show "l = 0 \<or> l = 1 \<and> testb (ld64 (pm s) a) PTE_V"
    using pt_wfD(2) [OF wf' PN_less, of 2 u] by (auto simp: Let_def ent_def numeral_2_eq_2 split: if_splits)
qed

lemma walk_lookup:
  assumes "vm_ok s t" "va < MAXVA"
  shows "walk af i s t va False 0 = Some (case stop 2 0 (pm s) t va of None \<Rightarrow> (s, 0, - 1) | Some (a, l) \<Rightarrow> (s, a, int l))"
  using walk_noalloc [where low = 0 and n = 2, unfolded add_0, of s t] assms by (simp add: walk_def vm_ok_def)

lemma map_one:
  assumes ok: "vm_ok s t" "i < NCPU" "reclaims {} af" and a: "a < MAXVA" and free: "xl 2 (pm s) t a = None"
  shows "\<exists>s1 pte l. walk af i s t a True 0 = Some (s1, pte, l) \<and> vm_step t s s1 \<and> (\<forall>u. xl 2 (pm s1) t u = xl 2 (pm s) t u) \<and>
    (af = Some \<longrightarrow> took_pages 2 (km s) (km s1)) \<and>
    (if pte = 0 then kfree_set (km s1) = {}
     else load s1 pte = Some (ld64 (pm s1) pte) \<and> \<not> testb (ld64 (pm s1) pte) PTE_V \<and> stop 2 0 (pm s1) t a = Some (pte, 0))"
proof -
  have wf: "pt_wf 2 (pm s) t" "tabs 2 (pm s) t \<subseteq> held (km s)" "kmem_ok (km s)" using ok(1) by (simp_all add: vm_ok_def)
  obtain s1 pte l where w: "walk_loop af i a True 0 2 s t = Some (s1, pte, l)" "walked 0 2 t a s s1 pte l"
    "af = Some \<longrightarrow> took_pages 2 (km s) (km s1)"
    using walk_alloc [where low = 0 and n = 2, unfolded add_0, OF wf ok(2,3)] by blast
  have run: "walk af i s t a True 0 = Some (s1, pte, l)" using w(1) a by (simp add: walk_def)
  have step: "vm_step t s s1" and x: "\<And>u. xl 2 (pm s1) t u = xl 2 (pm s) t u"
    using w(2) unfolding walked_def add_0 vm_step_def vm_ok_def by (auto simp: sub_upd_def)
  show ?thesis
  proof (cases "pte = 0")
    case True
    then show ?thesis using run step x w(2,3) unfolding walked_def add_0 by auto
  next
    case False
    then obtain l' where l: "stop 2 0 (pm s1) t a = Some (pte, l')" using w(2) unfolding walked_def add_0 by auto
    have ok1: "vm_ok s1 t" using step by (simp add: vm_step_def)
    have "\<not> testb (ld64 (pm s1) pte) PTE_V" using xl_stop2 [OF ok1, of a] l x [of a] free by (simp add: leaf_view_def split: if_splits)
    moreover from this have "l' = 0" using stop_level(2) [OF ok1 l] by blast
    ultimately show ?thesis using run step x l False w(3) by (auto simp: load_def)
  qed
qed

section \<open>A range of pages\<close>

text \<open>The translation \<open>f\<close> with \<open>j\<close> pages from \<open>a\<close> on mapped to the frames from \<open>pa\<close> on.\<close>

definition mapped :: "(u64 \<Rightarrow> (u64 \<times> nat) option) \<Rightarrow> u64 \<Rightarrow> u64 \<Rightarrow> u64 \<Rightarrow> nat \<Rightarrow> u64 \<Rightarrow> (u64 \<times> nat) option" where
  "mapped f a pa prm j u =
     (if vpn a \<le> vpn u \<and> vpn u < vpn a + j then Some (PA2PTE (pa + of_nat (vpn u - vpn a) * PGSIZE) OR prm OR PTE_V, 0)
      else f u)"

lemma mapped_0 [simp]: "mapped f a pa prm 0 = f"
  by (auto simp: mapped_def fun_eq_iff)

lemma leaf_view_V: "leaf_view (x OR y OR PTE_V) l = Some (x OR y OR PTE_V, l)"
  by (simp add: leaf_view_def testb_or)

lemma map_step:
  assumes "vm_ok s t" "i < NCPU" "reclaims {} af" "a < MAXVA" "xl 2 (pm s) t a = None"
  shows "\<exists>s1 pte l. walk af i s t a True 0 = Some (s1, pte, l) \<and> (af = Some \<longrightarrow> took_pages 2 (km s) (km s1)) \<and>
    (if pte = 0 then vm_step t s s1 \<and> (\<forall>u. xl 2 (pm s1) t u = xl 2 (pm s) t u) \<and> kfree_set (km s1) = {}
     else \<exists>v s2. load s1 pte = Some v \<and> \<not> testb v PTE_V \<and> store s1 pte (PA2PTE pa OR prm OR PTE_V) = Some s2 \<and> km s2 = km s1 \<and> vm_step t s s2 \<and>
       (\<forall>u<MAXVA. xl 2 (pm s2) t u = mapped (xl 2 (pm s) t) a pa prm 1 u))"
proof -
  obtain s1 pte l where w: "walk af i s t a True 0 = Some (s1, pte, l)" "vm_step t s s1" "\<forall>u. xl 2 (pm s1) t u = xl 2 (pm s) t u"
    "if pte = 0 then kfree_set (km s1) = {}
     else load s1 pte = Some (ld64 (pm s1) pte) \<and> \<not> testb (ld64 (pm s1) pte) PTE_V \<and> stop 2 0 (pm s1) t a = Some (pte, 0)"
    "af = Some \<longrightarrow> took_pages 2 (km s) (km s1)"
    using map_one [OF assms] by blast
  show ?thesis
  proof (cases "pte = 0")
    case True
    then show ?thesis using w by auto
  next
    case False
    let ?s2 = "s1\<lparr>pm := st64 (pm s1) pte (PA2PTE pa OR prm OR PTE_V)\<rparr>"
    have ok1: "vm_ok s1 t" using w(2) by (simp add: vm_step_def)
    have st: "stop 2 0 (pm s1) t a = Some (pte, 0)" using w(4) False by simp
    have "vm_step t s ?s2" using vm_step_trans [OF w(2) xl_store(1) [OF ok1 st assms(4)]] .
    moreover have "xl 2 (pm ?s2) t u = mapped (xl 2 (pm s) t) a pa prm 1 u" if "u < MAXVA" for u
      using xl_store(2) [OF ok1 st assms(4) that] w(3) by (auto simp: mapped_def leaf_view_V)
    moreover have "store s1 pte (PA2PTE pa OR prm OR PTE_V) = Some ?s2" using False by (simp add: store_def)
    ultimately show ?thesis using w False by auto
  qed
qed

lemma vpn_next: "unat a + 4096 < 2 ^ 64 \<Longrightarrow> vpn (a + PGSIZE) = vpn a + 1" "unat a + 4096 < 2 ^ 64 \<Longrightarrow> unat (a + PGSIZE) = unat a + 4096"
proof -
  assume "unat a + 4096 < 2 ^ 64"
  then show "unat (a + PGSIZE) = unat a + 4096" by (simp add: PGSIZE_def unat_add_lem [THEN iffD1])
  then show "vpn (a + PGSIZE) = vpn a + 1" by simp
qed

lemma mapped_next:
  assumes "unat a + 4096 < 2 ^ 64"
  shows "mapped f a pa prm (Suc j) u = mapped (mapped f a pa prm 1) (a + PGSIZE) (pa + PGSIZE) prm j u"
proof (cases "vpn a + 1 \<le> vpn u")
  case True
  have "pa + of_nat (vpn u - vpn a) * PGSIZE = pa + PGSIZE + of_nat (vpn u - (vpn a + 1)) * PGSIZE"
  proof -
    have "vpn u - vpn a = Suc (vpn u - (vpn a + 1))" using True by simp
    then show ?thesis by (simp add: algebra_simps)
  qed
  then show ?thesis using True vpn_next(1) [OF assms] unfolding mapped_def by (simp del: of_nat_diff add: add.assoc)
next
  case False
  then show ?thesis using vpn_next(1) [OF assms] by (auto simp: mapped_def)
qed

lemma map_loop_ok:
  assumes "i < NCPU" "reclaims {} af"
    and "vm_ok s t" "unat a + n * 4096 < 2 ^ 38" "\<And>u. u < MAXVA \<Longrightarrow> vpn a \<le> vpn u \<Longrightarrow> vpn u \<le> vpn a + n \<Longrightarrow> xl 2 (pm s) t u = None"
  shows "\<exists>s' r j. map_loop af i t 0 prm PGSIZE n s a pa = Some (s', r) \<and> vm_step t s s' \<and>
    (if r = 0 then j = n + 1 else r = - 1 \<and> j \<le> n \<and> kfree_set (km s') = {}) \<and>
    (\<forall>u<MAXVA. xl 2 (pm s') t u = mapped (xl 2 (pm s) t) a pa prm j u) \<and>
    (af = Some \<longrightarrow> took_pages (2 * (n + 1)) (km s) (km s'))"
  using assms(3-)
proof (induction n arbitrary: s a pa)
  case (0 s a pa)
  have a: "a < MAXVA" using 0(2) by (simp add: MAXVA_def word_less_nat_alt)
  obtain s1 pte l where w: "walk af i s t a True 0 = Some (s1, pte, l)" and
    tk: "af = Some \<longrightarrow> took_pages 2 (km s) (km s1)" and w2:
    "if pte = 0 then vm_step t s s1 \<and> (\<forall>u. xl 2 (pm s1) t u = xl 2 (pm s) t u) \<and> kfree_set (km s1) = {}
     else \<exists>v s2. load s1 pte = Some v \<and> \<not> testb v PTE_V \<and> store s1 pte (PA2PTE pa OR prm OR PTE_V) = Some s2 \<and> km s2 = km s1 \<and> vm_step t s s2 \<and>
       (\<forall>u<MAXVA. xl 2 (pm s2) t u = mapped (xl 2 (pm s) t) a pa prm 1 u)"
    using map_step [OF 0(1) assms(1,2) a 0(3) [OF a], of pa prm] by auto
  show ?case
  proof (cases "pte = 0")
    case True
    have "map_loop af i t 0 prm PGSIZE 0 s a pa = Some (s1, - 1)" using w True by simp
    then show ?thesis using w2 tk True by (intro exI [of _ s1] exI [of _ "- 1 :: int"] exI [of _ 0]) simp
  next
    case False
    then obtain v s2 where v: "load s1 pte = Some v" "\<not> testb v PTE_V" "store s1 pte (PA2PTE pa OR prm OR PTE_V) = Some s2" "km s2 = km s1"
      "vm_step t s s2" "\<forall>u<MAXVA. xl 2 (pm s2) t u = mapped (xl 2 (pm s) t) a pa prm 1 u" using w2 by auto
    have "map_loop af i t 0 prm PGSIZE 0 s a pa = Some (s2, 0)" using w False v by simp
    then show ?thesis using v tk by (intro exI [of _ s2] exI [of _ 0] exI [of _ 1]) simp
  qed
next
  case (Suc n s a pa)
  have a: "a < MAXVA" using Suc(3) by (simp add: MAXVA_def word_less_nat_alt)
  have room: "unat a + 4096 < 2 ^ 64" using Suc(3) by simp
  obtain s1 pte l where w: "walk af i s t a True 0 = Some (s1, pte, l)" and
    tk: "af = Some \<longrightarrow> took_pages 2 (km s) (km s1)" and w2:
    "if pte = 0 then vm_step t s s1 \<and> (\<forall>u. xl 2 (pm s1) t u = xl 2 (pm s) t u) \<and> kfree_set (km s1) = {}
     else \<exists>v s2. load s1 pte = Some v \<and> \<not> testb v PTE_V \<and> store s1 pte (PA2PTE pa OR prm OR PTE_V) = Some s2 \<and> km s2 = km s1 \<and> vm_step t s s2 \<and>
       (\<forall>u<MAXVA. xl 2 (pm s2) t u = mapped (xl 2 (pm s) t) a pa prm 1 u)"
    using map_step [OF Suc(2) assms(1,2) a Suc(4) [OF a], of pa prm] by auto
  show ?case
  proof (cases "pte = 0")
    case True
    have "map_loop af i t 0 prm PGSIZE (Suc n) s a pa = Some (s1, - 1)" using w True by simp
    then show ?thesis using w2 tk True took_pages_mono [of 2 "km s" "km s1" "2 * (Suc n + 1)"]
      by (intro exI [of _ s1] exI [of _ "- 1 :: int"] exI [of _ 0]) simp
  next
    case False
    then obtain v s2 where v: "load s1 pte = Some v" "\<not> testb v PTE_V" "store s1 pte (PA2PTE pa OR prm OR PTE_V) = Some s2" "km s2 = km s1"
      "vm_step t s s2" "\<forall>u<MAXVA. xl 2 (pm s2) t u = mapped (xl 2 (pm s) t) a pa prm 1 u" using w2 by auto
    have "xl 2 (pm s2) t u = None" if "u < MAXVA" "vpn (a + PGSIZE) \<le> vpn u" "vpn u \<le> vpn (a + PGSIZE) + n" for u
      using that v(6) Suc(4) [OF that(1)] vpn_next(1) [OF room] by (auto simp: mapped_def)
    moreover have "vm_ok s2 t" using v(5) by (simp add: vm_step_def)
    moreover have "unat (a + PGSIZE) + n * 4096 < 2 ^ 38" using Suc(3) vpn_next(2) [OF room] by simp
    ultimately obtain s' r j where r: "map_loop af i t 0 prm PGSIZE n s2 (a + PGSIZE) (pa + PGSIZE) = Some (s', r)" "vm_step t s2 s'"
      "if r = 0 then j = n + 1 else r = - 1 \<and> j \<le> n \<and> kfree_set (km s') = {}"
      "\<forall>u<MAXVA. xl 2 (pm s') t u = mapped (xl 2 (pm s2) t) (a + PGSIZE) (pa + PGSIZE) prm j u"
      "af = Some \<longrightarrow> took_pages (2 * (n + 1)) (km s2) (km s')"
      using Suc(1) [of s2 "a + PGSIZE" "pa + PGSIZE"] by blast
    have "map_loop af i t 0 prm PGSIZE (Suc n) s a pa = Some (s', r)" using w False v r(1) by simp
    moreover have "xl 2 (pm s') t u = mapped (xl 2 (pm s) t) a pa prm (Suc j) u" if "u < MAXVA" for u
      using r(4) v(6) that unfolding mapped_next [OF room] by (simp add: mapped_def)
    moreover have "af = Some \<longrightarrow> took_pages (2 * (Suc n + 1)) (km s) (km s')"
      using tk r(5) v(4) took_pages_trans [of 2 "km s" "km s1" "2 * (n + 1)" "km s'"] by simp
    ultimately show ?thesis using vm_step_trans [OF v(5) r(2)] r(3)
      by (intro exI [of _ s'] exI [of _ r] exI [of _ "Suc j"]) auto
  qed
qed

end
