(* ===== verification/Vm_Copy.thy ===== *)
theory Vm_Copy
  imports Vm_Map
begin

text \<open>
  The physical address behind a user address, and what \<open>copyin\<close> and \<open>copyout\<close> do in terms of it.
\<close>

text \<open>The frame behind a user address: 0 when there is none.\<close>

definition frame :: "(u64 \<Rightarrow> (u64 \<times> nat) option) \<Rightarrow> u64 \<Rightarrow> u64" where
  "frame f va = (if va < MAXVA then case f va of
       None \<Rightarrow> 0
     | Some (e, l) \<Rightarrow> if testb e PTE_U then if l = 0 then PTE2PA e else PTE2PA e + (PGROUNDDOWN va - SUPERPG_DOWN va) else 0
   else 0)"

lemma walkaddr_eq:
  assumes ok: "vm_ok s t"
  shows "walkaddr af i s t va = Some (frame (xl 2 (pm s) t) va)"
proof (cases "va < MAXVA")
  case True
  show ?thesis
  proof (cases "stop 2 0 (pm s) t va")
    case None
    then show ?thesis using True walk_lookup [OF ok True] xl_stop2 [OF ok, of va] by (simp add: walkaddr_def frame_def)
  next
    case (Some al)
    obtain a l where al: "stop 2 0 (pm s) t va = Some (a, l)" using Some by (cases al) auto
    note L = stop_level [OF ok al]
    have "load s a = Some (ld64 (pm s) a)" using L(1) by (simp add: load_def)
    then show ?thesis using True walk_lookup [OF ok True, of af i] xl_stop2 [OF ok, of va] al L
      by (auto simp: walkaddr_def frame_def leaf_view_def COMMONPAGE_def SUPERPAGE_def)
  qed
qed (auto simp: walkaddr_def frame_def)

text \<open>Frames are page aligned, so an address and its offset add without carry.\<close>

lemma PGROUNDDOWN_al: "take_bit 12 (PGROUNDDOWN a) = 0" "take_bit 12 (SUPERPG_DOWN a) = 0"
proof -
  have "PGROUNDDOWN a = push_bit 12 (drop_bit 12 a)"
    using and_not_mask_shift [of a 12] by (simp add: PGROUNDDOWN_def ROUND_DOWN_def PGSIZE_def mask_eq_exp_minus_1)
  then show "take_bit 12 (PGROUNDDOWN a) = 0" by (simp add: take_bit_push_bit)
  have "SUPERPG_DOWN a = push_bit 21 (drop_bit 21 a)"
    using and_not_mask_shift [of a 21] by (simp add: SUPERPG_DOWN_def ROUND_DOWN_def SUPERPGSIZE_def mask_eq_exp_minus_1)
  then show "take_bit 12 (SUPERPG_DOWN a) = 0" by (simp add: take_bit_push_bit)
qed

lemma take_bit_12_iff: "take_bit 12 (w :: u64) = 0 \<longleftrightarrow> 4096 dvd unat w"
proof -
  have "unat (take_bit 12 w) = unat w mod 4096"
    using unsigned_take_bit_eq [of 12 w, where 'a = nat] by (simp add: take_bit_eq_mod)
  then show ?thesis by (metis dvd_eq_mod_eq_0 unat_eq_0)
qed

lemma dvd_word_add: "4096 dvd unat (a :: u64) \<Longrightarrow> 4096 dvd unat b \<Longrightarrow> 4096 dvd unat (a + b)"
  "4096 dvd unat (a :: u64) \<Longrightarrow> 4096 dvd unat b \<Longrightarrow> 4096 dvd unat (a - b)"
proof -
  assume a: "4096 dvd unat a" "4096 dvd unat b"
  have d: "(4096::nat) dvd 2 ^ 64" by (simp add: dvd_eq_mod_eq_0)
  have sum: "unat (x + y) = (unat x + unat y) mod 2 ^ 64" for x y :: u64 using unat_word_ariths(1) [of x y] by simp
  show "4096 dvd unat (a + b)" using a d unfolding sum by (simp add: dvd_mod)
  have "unat a = (unat (a - b) + unat b) mod 2 ^ 64" using sum [of "a - b" b] by simp
  then have "4096 dvd unat (a - b) + unat b" using a(1) d by (metis dvd_mod_iff)
  then show "4096 dvd unat (a - b)" using a(2) by (simp add: dvd_add_left_iff)
qed

lemma frame_al: "4096 dvd unat (frame f va)"
proof -
  have "take_bit 12 (PTE2PA e) = 0" for e by (simp add: PTE2PA_def take_bit_push_bit)
  then have "4096 dvd unat (PTE2PA e)" for e by (simp only: take_bit_12_iff)
  moreover have "4096 dvd unat (PGROUNDDOWN va)" "4096 dvd unat (SUPERPG_DOWN va)"
    using PGROUNDDOWN_al by (simp_all only: take_bit_12_iff)
  ultimately show ?thesis by (auto simp: frame_def dvd_word_add split: option.split)
qed

lemma unat_frame_off: "4096 dvd unat (p :: u64) \<Longrightarrow> unat d < 4096 \<Longrightarrow> unat (p + d) = unat p + unat d"
proof -
  assume "4096 dvd unat p" "unat d < 4096"
  then obtain q where q: "unat p = 4096 * q" by blast
  have "unat p < 2 ^ 64" using unsigned_less [of p] by simp
  then have "q < 2 ^ 52" using q by simp
  then have "unat p + unat d < 2 ^ 64" using q \<open>unat d < 4096\<close> by simp
  then show ?thesis by (simp add: unat_add_lem [THEN iffD1])
qed

text \<open>The physical address of a user byte (\<open>getphyaddr\<close>), as a number.\<close>

definition upa :: "(u64 \<Rightarrow> (u64 \<times> nat) option) \<Rightarrow> u64 \<Rightarrow> nat" where
  "upa f va = unat (frame f (PGROUNDDOWN va)) + unat va mod 4096"

definition present :: "(u64 \<Rightarrow> (u64 \<times> nat) option) \<Rightarrow> u64 \<Rightarrow> bool" where
  "present f va \<longleftrightarrow> frame f (PGROUNDDOWN va) \<noteq> 0"

text \<open>The addresses of one round of a copy: all in one page.\<close>

lemma PGROUNDDOWN_eq: "vpn a = vpn b \<Longrightarrow> PGROUNDDOWN a = PGROUNDDOWN b"
  by (simp add: word_unat_eq_iff unat_PGROUNDDOWN)

lemma round_bytes:
  assumes "k < 4096 - unat va mod 4096"
  shows "unat (va + of_nat k) = unat va + k" "PGROUNDDOWN (va + of_nat k) = PGROUNDDOWN va"
    "unat (va + of_nat k) mod 4096 = unat va mod 4096 + k"
proof -
  have d: "unat va = 4096 * vpn va + unat va mod 4096" by simp
  have "unat va < 2 ^ 64" using unsigned_less [of va] by simp
  then have "vpn va < 4503599627370496" by (simp add: div_less_iff_less_mult)
  then have "unat va + k < 18446744073709551616" using assms d by linarith
  then have "unat va + k < 2 ^ 64" by simp
  then show u: "unat (va + of_nat k) = unat va + k"
    using assms by (simp add: unat_add_lem [THEN iffD1] unat_of_nat)
  have v: "(unat va + k) div 4096 = vpn va"
  proof (rule div_nat_eqI)
    show "4096 * vpn va \<le> unat va + k" using d by linarith
    have "unat va + k < 4096 * vpn va + 4096" using d assms by linarith
    then show "unat va + k < 4096 * Suc (vpn va)" by simp
  qed
  show "unat (va + of_nat k) mod 4096 = unat va mod 4096 + k"
    unfolding u using v d minus_mult_div_eq_mod [of "unat va + k" 4096] by linarith
  show "PGROUNDDOWN (va + of_nat k) = PGROUNDDOWN va" using PGROUNDDOWN_eq u v by metis
qed

section \<open>Copying in\<close>

text \<open>Memory that is not a page table may change without changing translations.\<close>

lemma vm_ok_other_mem:
  assumes ok: "vm_ok s t" and same: "\<And>x. x \<in> tree_bytes 2 (pm s) t \<Longrightarrow> m x = pm s x"
  shows "vm_ok (s\<lparr>pm := m\<rparr>) t" "xl 2 m t = xl 2 (pm s) t" "tree_bytes 2 m t = tree_bytes 2 (pm s) t"
proof -
  have wf: "pt_wf 2 (pm s) t" using ok by (simp add: vm_ok_def)
  note T = tree_same [OF wf same]
  show "vm_ok (s\<lparr>pm := m\<rparr>) t" using ok T by (simp add: vm_ok_def)
  show "xl 2 m t = xl 2 (pm s) t" using T by auto
  show "tree_bytes 2 m t = tree_bytes 2 (pm s) t" using T by (simp add: tree_bytes_def)
qed

text \<open>The bytes from a user address on.\<close>

definition user_range :: "(u64 \<Rightarrow> (u64 \<times> nat) option) \<Rightarrow> u64 \<Rightarrow> nat \<Rightarrow> nat set" where
  "user_range f va n = (\<lambda>k. upa f (va + of_nat k)) ` {..<n}"

lemma chunk_upa:
  assumes "k < 4096 - unat va mod 4096"
  shows "upa f (va + of_nat k) = unat (frame f (PGROUNDDOWN va) + (va - PGROUNDDOWN va)) + k"
    "present f (va + of_nat k) = present f va"
proof -
  have "unat (frame f (PGROUNDDOWN va) + (va - PGROUNDDOWN va)) = unat (frame f (PGROUNDDOWN va)) + unat va mod 4096"
    using unat_frame_off [OF frame_al, of "va - PGROUNDDOWN va" f "PGROUNDDOWN va"] by (simp add: page_offset)
  then show "upa f (va + of_nat k) = unat (frame f (PGROUNDDOWN va) + (va - PGROUNDDOWN va)) + k"
    using round_bytes [OF assms] by (simp add: upa_def)
  show "present f (va + of_nat k) = present f va" using round_bytes(2) [OF assms] by (simp add: present_def)
qed

text \<open>The next round starts at the next page.\<close>

lemma next_round:
  assumes "unat len + unat va < 2 ^ 64" "n = min (PGSIZE - (va - PGROUNDDOWN va)) len" "len \<noteq> 0"
  shows "unat (len - n) = unat len - unat n" "unat n \<le> unat len" "unat n = min (4096 - unat va mod 4096) (unat len)"
    "n \<noteq> len \<Longrightarrow> PGROUNDDOWN va + PGSIZE + of_nat k = va + of_nat (unat n + k)"
proof -
  show n: "unat n = min (4096 - unat va mod 4096) (unat len)" unfolding assms(2) by (rule chunk_size)
  then show "unat n \<le> unat len" by simp
  then show "unat (len - n) = unat len - unat n" by (simp add: unat_sub word_le_nat_alt)
  assume "n \<noteq> len"
  then have "n = PGSIZE - (va - PGROUNDDOWN va)" using assms(2) by (auto simp: min_def split: if_splits)
  then show "PGROUNDDOWN va + PGSIZE + of_nat k = va + of_nat (unat n + k)" by simp
qed

lemma copyin_ok:
  assumes "vm_ok s t" "unat len + unat srcva < 2 ^ 64" "unat dst + unat len < 2 ^ 64"
    and "{unat dst..<unat dst + unat len} \<inter> (tree_bytes 2 (pm s) t \<union> user_range (xl 2 (pm s) t) srcva (unat len)) = {}"
  shows "\<exists>s' r. copyin af i t s dst srcva len = Some (s', r) \<and> km s' = km s \<and>
    (if \<forall>k<unat len. present (xl 2 (pm s) t) (srcva + of_nat k)
     then r = 0 \<and> pm s' = (\<lambda>x. if unat dst \<le> x \<and> x < unat dst + unat len
       then pm s (upa (xl 2 (pm s) t) (srcva + of_nat (x - unat dst))) else pm s x)
     else r = - 1 \<and> (\<forall>x. x \<notin> {unat dst..<unat dst + unat len} \<longrightarrow> pm s' x = pm s x))"
  using assms
proof (induction af i t s dst srcva len rule: copyin.induct)
  case (1 af i t s dst srcva len)
  let ?f = "xl 2 (pm s) t"
  define va0 where "va0 = PGROUNDDOWN srcva"
  define n where "n = min (PGSIZE - (srcva - va0)) len"
  define P where "P = unat (frame ?f va0 + (srcva - va0))"
  let ?D = "{unat dst..<unat dst + unat len}"
  have w: "walkaddr af i s t va0 = Some (frame ?f va0)" by (rule walkaddr_eq [OF 1(2)])
  show ?case
  proof (cases "len = 0 \<or> frame ?f va0 = 0")
    case True
    show ?thesis
    proof (cases "len = 0")
      case False
      then have "\<not> present ?f (srcva + of_nat 0)" using True by (simp add: present_def va0_def)
      moreover have "0 < unat len" using False by (simp add: unat_gt_0)
      ultimately have "\<not> (\<forall>k<unat len. present ?f (srcva + of_nat k))" by blast
      moreover have "copyin af i t s dst srcva len = Some (s, - 1)"
        using False True w by (subst copyin.simps) (simp add: Let_def va0_def)
      ultimately show ?thesis by auto
    qed (subst copyin.simps, auto simp: fun_eq_iff)
  next
    case False
    then have l: "len \<noteq> 0" "frame ?f va0 \<noteq> 0" by auto
    note IH = 1(1) [OF l(1) va0_def w l(2) n_def]
    note N = next_round [OF 1(3) n_def [unfolded va0_def] l(1)]
    define s1 where "s1 = s\<lparr>pm := memmove (pm s) (unat dst) P (unat n)\<rparr>"
    have pm1: "pm s1 x = (if unat dst \<le> x \<and> x < unat dst + unat n then pm s (P + (x - unat dst)) else pm s x)" for x
      by (simp add: s1_def memmove_eq)
    have ch: "upa ?f (srcva + of_nat k) = P + k" "present ?f (srcva + of_nat k)" if "k < unat n" for k
      using that chunk_upa [of k srcva ?f] l(2) N(3) by (auto simp: P_def va0_def present_def)
    have run: "copyin af i t s dst srcva len = copyin af i t s1 (dst + n) (va0 + PGSIZE) (len - n)"
      using l w by (subst copyin.simps) (simp add: Let_def va0_def n_def s1_def P_def)
    have T: "vm_ok s1 t" "xl 2 (pm s1) t = ?f" "tree_bytes 2 (pm s1) t = tree_bytes 2 (pm s) t"
      using vm_ok_other_mem [OF 1(2), of "pm s1"] pm1 1(5) N(2) unfolding s1_def by fastforce+
    have here: "pm s1 x = pm s (upa ?f (srcva + of_nat (x - unat dst)))" if "unat dst \<le> x" "x < unat dst + unat n" for x
      using that ch(1) [of "x - unat dst"] pm1 by auto
    show ?thesis
    proof (cases "n = len")
      case True
      then have "copyin af i t s dst srcva len = Some (s1, 0)" unfolding run by (subst copyin.simps) simp
      moreover have "pm s1 = (\<lambda>x. if unat dst \<le> x \<and> x < unat dst + unat len
         then pm s (upa ?f (srcva + of_nat (x - unat dst))) else pm s x)"
        using here pm1 True by auto
      ultimately show ?thesis using ch(2) True by (simp add: s1_def)
    next
      case False
      have up: "unat (va0 + PGSIZE) = unat srcva + unat n" "unat (dst + n) = unat dst + unat n"
        using N(4) [OF False, of 0] 1(3,4) N(2) by (simp_all add: va0_def unat_add_lem [THEN iffD1])
      have sh: "va0 + PGSIZE + of_nat k = srcva + of_nat (unat n + k)" for k unfolding va0_def by (rule N(4) [OF False])
      have ur: "user_range ?f (va0 + PGSIZE) (unat len - unat n) \<subseteq> user_range ?f srcva (unat len)"
        unfolding user_range_def sh by (auto intro!: image_eqI [where x = "unat n + _"])
      have rg: "{unat dst + unat n..<unat dst + unat n + (unat len - unat n)} \<subseteq> ?D" using N(2) by auto
      have "{unat (dst + n)..<unat (dst + n) + unat (len - n)} \<inter>
          (tree_bytes 2 (pm s1) t \<union> user_range (xl 2 (pm s1) t) (va0 + PGSIZE) (unat (len - n))) = {}"
        unfolding T up N(1) using 1(5) ur rg by blast
      moreover have "unat (len - n) + unat (va0 + PGSIZE) < 2 ^ 64" "unat (dst + n) + unat (len - n) < 2 ^ 64"
        using 1(3,4) up N(1,2) by linarith+
      ultimately obtain s' r where r: "copyin af i t s1 (dst + n) (va0 + PGSIZE) (len - n) = Some (s', r)" "km s' = km s1"
        "if \<forall>k<unat (len - n). present ?f (va0 + PGSIZE + of_nat k)
         then r = 0 \<and> pm s' = (\<lambda>x. if unat (dst + n) \<le> x \<and> x < unat (dst + n) + unat (len - n)
           then pm s1 (upa ?f (va0 + PGSIZE + of_nat (x - unat (dst + n)))) else pm s1 x)
         else r = - 1 \<and> (\<forall>x. x \<notin> {unat (dst + n)..<unat (dst + n) + unat (len - n)} \<longrightarrow> pm s' x = pm s1 x)"
        using IH [folded P_def, folded s1_def] T(1) unfolding T(2) by blast
      have all: "(\<forall>k<unat len. present ?f (srcva + of_nat k)) \<longleftrightarrow> (\<forall>k<unat (len - n). present ?f (va0 + PGSIZE + of_nat k))"
        unfolding sh N(1)
      proof (intro iffI allI impI)
        fix k assume a: "\<forall>k<unat len - unat n. present ?f (srcva + of_nat (unat n + k))" "k < unat len"
        show "present ?f (srcva + of_nat k)"
        proof (cases "k < unat n")
          case False
          then show ?thesis using a(1) [rule_format, of "k - unat n"] a(2) by (simp del: of_nat_diff of_nat_add)
        qed (rule ch(2))
      qed (auto simp del: of_nat_add)
      have kept: "pm s1 (upa ?f (srcva + of_nat k)) = pm s (upa ?f (srcva + of_nat k))" if "k < unat len" for k
      proof -
        have "upa ?f (srcva + of_nat k) \<in> user_range ?f srcva (unat len)" using that by (auto simp: user_range_def)
        then have "upa ?f (srcva + of_nat k) \<notin> ?D" using 1(5) by blast
        then show ?thesis using pm1 N(2) by auto
      qed
      show ?thesis
      proof (cases "\<forall>k<unat len. present ?f (srcva + of_nat k)")
        case True
        have "pm s' x = (if unat dst \<le> x \<and> x < unat dst + unat len
           then pm s (upa ?f (srcva + of_nat (x - unat dst))) else pm s x)" for x
        proof (cases "unat dst + unat n \<le> x \<and> x < unat dst + unat len")
          case in2: True
          then have "unat n + (x - (unat dst + unat n)) = x - unat dst" by linarith
          then have "pm s' x = pm s1 (upa ?f (srcva + of_nat (x - unat dst)))"
            using r(3) True all in2 N(1,2) unfolding up sh by simp
          then show ?thesis using kept [of "x - unat dst"] in2 by (simp add: less_diff_conv2)
        next
          case out2: False
          then have "pm s' x = pm s1 x" using r(3) True all N(1,2) unfolding up by auto
          then show ?thesis using here [of x] pm1 [of x] out2 N(2) by auto
        qed
        moreover have "r = 0" using r(3) True all by simp
        ultimately show ?thesis using run r(1,2) True by (auto simp: s1_def)
      next
        case no: False
        then have "r = - 1" "\<forall>x. x \<notin> {unat (dst + n)..<unat (dst + n) + unat (len - n)} \<longrightarrow> pm s' x = pm s1 x"
          using r(3) all by auto
        then have "\<forall>x. x \<notin> ?D \<longrightarrow> pm s' x = pm s x" using pm1 up N(1,2) by auto
        then show ?thesis using run r(1,2) no \<open>r = - 1\<close> by (auto simp: s1_def)
      qed
    qed
  qed
qed

end
