(* ===== verification/Vma.thy ===== *)
theory Vma
  imports Vm
begin

text \<open>
  Virtual memory areas (\<^verbatim>\<open>src/src/mm/vma.c\<close>, \<^verbatim>\<open>src/include/memory/vma.h\<close>) and the
  mapping system calls (\<^verbatim>\<open>src/src/mm/mmap.c\<close>).  A \<^verbatim>\<open>struct vma\<close> is an entry of the
  table \<^verbatim>\<open>vmas\<close> and is named by its index; the list \<^verbatim>\<open>head_vma\<close> of an address space is the
  list of the indices on it, first the one added last (\<open>Klist\<close> shows what the pointer list does).
  Operations run under the locks that the code takes around them.  Of the file layer,
  \<^verbatim>\<open>fat32_filedup\<close> is modelled and \<^verbatim>\<open>fat32_filewrite\<close> is the parameter \<open>fwrite\<close>.
\<close>

datatype vmatype = VMA_STACK | VMA_HEAP | VMA_TEXT | VMA_FILE | VMA_ANON | VMA_INTERP

record vma =
  vtype :: vmatype
  startva :: u64
  vsize :: u64
  perm :: u32
  used :: int
  offset :: u64
  vm_file :: "nat option"

record kfile =
  f_count :: u16
  f_flags :: u16

record mm_struct =
  head_vma :: "nat list"
  pagetable :: u64
  start_brk :: u64
  brk :: u64
  heapvma :: "nat option"

record vmsys =
  mc :: mach
  vmas :: "nat \<Rightarrow> vma"
  files :: "nat \<Rightarrow> kfile"

definition NVMA :: nat where "NVMA = 3000"
definition PERM_READ :: u32 where "PERM_READ = 1"
definition PERM_WRITE :: u32 where "PERM_WRITE = 2"
definition PERM_EXEC :: u32 where "PERM_EXEC = 4"
definition PERM_SHARED :: u32 where "PERM_SHARED = 8"
definition MAP_SHARED :: u32 where "MAP_SHARED = 1"
definition MAP_FIXED :: u32 where "MAP_FIXED = 0x10"
definition MAP_ANONYMOUS :: u32 where "MAP_ANONYMOUS = 0x20"
definition MAP_FAILED :: u64 where "MAP_FAILED = - 1"
definition MMAP_START :: u64 where "MMAP_START = 0x30000000"

definition upd_vma :: "nat \<Rightarrow> (vma \<Rightarrow> vma) \<Rightarrow> vmsys \<Rightarrow> vmsys" where
  "upd_vma v f s = s\<lparr>vmas := (vmas s)(v := f (vmas s v))\<rparr>"

section \<open>The table of areas\<close>

definition alloc_vma :: "vmsys \<Rightarrow> vmsys \<times> nat option" where
  "alloc_vma s = (case find (\<lambda>j. used (vmas s j) = 0) [0..<NVMA] of
     None \<Rightarrow> (s, None)
   | Some j \<Rightarrow> (upd_vma j (\<lambda>v. v\<lparr>used := 1\<rparr>) s, Some j))"

definition free_vma :: "nat \<Rightarrow> vmsys \<Rightarrow> vmsys" where
  "free_vma j s = upd_vma j (\<lambda>v. v\<lparr>used := 0\<rparr>) s"

text \<open>The address ranges of the comparisons: \<^verbatim>\<open>[start, start + size)\<close>, at 64 bits.\<close>

definition vma_covers :: "vma \<Rightarrow> u64 \<Rightarrow> bool" where
  "vma_covers v addr \<longleftrightarrow> startva v \<le> addr \<and> addr < startva v + vsize v"

definition check_vma_intersect :: "vmsys \<Rightarrow> nat list \<Rightarrow> nat \<Rightarrow> bool" where
  "check_vma_intersect s head checked =
     (let c = vmas s checked; checked_start = startva c; checked_end = checked_start + vsize c - 1 in
      list_ex (\<lambda>pos. vma_covers (vmas s pos) checked_start \<or> vma_covers (vmas s pos) checked_end) head)"

definition add_vma_to_vmspace :: "vmsys \<Rightarrow> mm_struct \<Rightarrow> nat \<Rightarrow> mm_struct option" where
  "add_vma_to_vmspace s mm v = do {
     ASSERT (\<not> check_vma_intersect s (head_vma mm) v);
     Some (mm\<lparr>head_vma := v # head_vma mm\<rparr>)
   }"

definition is_vma_in_vmspace :: "nat list \<Rightarrow> nat \<Rightarrow> bool" where
  "is_vma_in_vmspace head v = list_ex (\<lambda>pos. pos = v) head"

definition del_vma_from_vmspace :: "vmsys \<Rightarrow> mm_struct \<Rightarrow> nat \<Rightarrow> (vmsys \<times> mm_struct) option" where
  "del_vma_from_vmspace s mm v = do {
     ASSERT (is_vma_in_vmspace (head_vma mm) v);
     Some (free_vma v s, mm\<lparr>head_vma := remove1 v (head_vma mm)\<rparr>)
   }"

definition find_vma_for_va :: "vmsys \<Rightarrow> mm_struct \<Rightarrow> u64 \<Rightarrow> nat option" where
  "find_vma_for_va s mm addr = find (\<lambda>pos. vma_covers (vmas s pos) addr) (head_vma mm)"

section \<open>Mapping\<close>

definition vma_map_range ::
  "vmsys \<Rightarrow> mm_struct \<Rightarrow> u64 \<Rightarrow> u64 \<Rightarrow> u64 \<Rightarrow> vmatype \<Rightarrow> (vmsys \<times> mm_struct \<times> nat option) option" where
  "vma_map_range s mm va len prm type = (case alloc_vma s of
     (s1, None) \<Rightarrow> Some (s1, mm, None)
   | (s1, Some v) \<Rightarrow> do {
       ASSERT (va mod PGSIZE = 0);
       let len1 = (if len < PGSIZE then PGSIZE else len);
       let s2 = upd_vma v (\<lambda>x. x\<lparr>startva := PGROUNDDOWN va, vsize := PGROUNDUP len1, perm := ucast prm, vtype := type\<rparr>) s1;
       mm1 \<leftarrow> add_vma_to_vmspace s2 mm v;
       Some (s2, mm1, Some v)
     })"

definition vma_map ::
  "vmsys \<Rightarrow> mm_struct \<Rightarrow> u64 \<Rightarrow> u64 \<Rightarrow> u64 \<Rightarrow> vmatype \<Rightarrow> (vmsys \<times> mm_struct \<times> int) option" where
  "vma_map s mm va len prm type = do {
     (s1, mm1, r) \<leftarrow> vma_map_range s mm va len prm type;
     case r of
       None \<Rightarrow> Some (s1, mm1, - 1)
     | Some v \<Rightarrow> Some (s1, if type = VMA_HEAP then mm1\<lparr>heapvma := Some v\<rparr> else mm1, 0)
   }"

definition F_WRITEABLE :: "kfile \<Rightarrow> bool" where "F_WRITEABLE fp \<longleftrightarrow> f_flags fp > 0"

definition fat32_filedup :: "nat \<Rightarrow> vmsys \<Rightarrow> vmsys option" where
  "fat32_filedup f s = do {
     ASSERT (\<not> f_count (files s f) < 1);
     Some (s\<lparr>files := (files s)(f := (files s f)\<lparr>f_count := f_count (files s f) + 1\<rparr>)\<rparr>)
   }"

definition vma_map_file ::
  "vmsys \<Rightarrow> mm_struct \<Rightarrow> u64 \<Rightarrow> u64 \<Rightarrow> u64 \<Rightarrow> vmatype \<Rightarrow> u64 \<Rightarrow> nat \<Rightarrow> (vmsys \<times> mm_struct \<times> int) option" where
  "vma_map_file s mm va len prm type off fp =
     (if \<not> F_WRITEABLE (files s fp) \<and> prm AND ucast PERM_WRITE \<noteq> 0 \<and> prm AND ucast PERM_SHARED \<noteq> 0
      then Some (s, mm, - 1)
      else do {
        (s1, mm1, r) \<leftarrow> vma_map_range s mm va len prm type;
        case r of
          None \<Rightarrow> Some (s1, mm1, - 1)
        | Some v \<Rightarrow> do {
            s2 \<leftarrow> fat32_filedup fp (upd_vma v (\<lambda>x. x\<lparr>offset := off, vm_file := Some fp\<rparr>) s1);
            Some (s2, mm1, 0)
          }
      })"

definition split_vma ::
  "vmsys \<Rightarrow> mm_struct \<Rightarrow> nat \<Rightarrow> u64 \<Rightarrow> bool \<Rightarrow> (vmsys \<times> mm_struct \<times> int) option" where
  "split_vma s mm v addr new_below = (case alloc_vma s of
     (s1, None) \<Rightarrow> Some (s1, mm, - 1)
   | (s1, Some new) \<Rightarrow> do {
       let old = vmas s1 v;
       let s2 = upd_vma new (\<lambda>_. old) s1;
       let s3 = (if new_below then
           upd_vma new (\<lambda>x. x\<lparr>vsize := addr - startva old\<rparr>)
             (upd_vma v (\<lambda>x. x\<lparr>vsize := startva old + vsize old - addr, startva := addr,
                offset := offset old + (addr - startva old)\<rparr>) s2)
         else
           upd_vma v (\<lambda>x. x\<lparr>vsize := addr - startva old\<rparr>)
             (upd_vma new (\<lambda>x. x\<lparr>startva := addr, vsize := startva old + vsize old - addr,
                offset := offset old + (addr - startva old)\<rparr>) s2));
       s4 \<leftarrow> (case vm_file (vmas s3 new) of None \<Rightarrow> Some s3 | Some f \<Rightarrow> fat32_filedup f s3);
       mm1 \<leftarrow> add_vma_to_vmspace s4 mm new;
       Some (s4, mm1, 0)
     })"

section \<open>Unmapping\<close>

text \<open>\<open>n\<close> is the number of rounds left, as in theory \<open>Vm\<close>.\<close>

primrec writeback_loop ::
  "(kmem \<Rightarrow> kmem option) \<Rightarrow> nat \<Rightarrow> (nat \<Rightarrow> u64 \<Rightarrow> u64 \<Rightarrow> vmsys \<Rightarrow> vmsys option) \<Rightarrow> u64 \<Rightarrow> nat \<Rightarrow> u64 \<Rightarrow> nat \<Rightarrow> vmsys \<Rightarrow> u64 \<Rightarrow>
    vmsys option" where
  "writeback_loop af i fwrite pt fp endva 0 s addr = (if addr < endva then None else Some s)"
| "writeback_loop af i fwrite pt fp endva (Suc n) s addr =
     (if \<not> addr < endva then Some s
      else do {
        (m1, pte, _) \<leftarrow> walk af i (mc s) pt addr False 0;
        v \<leftarrow> (if pte = 0 then Some 0 else load m1 pte);
        s1 \<leftarrow> (if pte \<noteq> 0 \<and> testb v PTE_V \<and> testb (PTE_FLAGS v) PTE_D
               then fwrite fp addr (if endva - addr < PGSIZE then endva - addr else PGSIZE) (s\<lparr>mc := m1\<rparr>)
               else Some (s\<lparr>mc := m1\<rparr>));
        writeback_loop af i fwrite pt fp endva n s1 (addr + PGSIZE)
      })"

definition writeback ::
  "(kmem \<Rightarrow> kmem option) \<Rightarrow> nat \<Rightarrow> (nat \<Rightarrow> u64 \<Rightarrow> u64 \<Rightarrow> vmsys \<Rightarrow> vmsys option) \<Rightarrow> u64 \<Rightarrow> nat option \<Rightarrow> u64 \<Rightarrow> u64 \<Rightarrow> vmsys \<Rightarrow>
    vmsys option" where
  "writeback af i fwrite pt fp start len s = do {
     ASSERT (start mod PGSIZE = 0);
     f \<leftarrow> fp;
     writeback_loop af i fwrite pt f (start + len) (rounds start (start + len) PGSIZE) s start
   }"

text \<open>\<^verbatim>\<open>uvmunmap\<close> on the whole state.\<close>

definition unmap_range ::
  "(kmem \<Rightarrow> kmem option) \<Rightarrow> nat \<Rightarrow> u64 \<Rightarrow> u64 \<Rightarrow> u64 \<Rightarrow> vmsys \<Rightarrow> vmsys option" where
  "unmap_range af i pt start npages s = do {
     m \<leftarrow> uvmunmap af i pt (mc s) start npages True True;
     Some (s\<lparr>mc := m\<rparr>)
   }"

lemma del_vma_length:
  "del_vma_from_vmspace s mm v = Some (s', mm') \<Longrightarrow> length (head_vma mm') < length (head_vma mm)"
  using length_pos_if_in_set [of v "head_vma mm"]
  by (auto simp: del_vma_from_vmspace_def is_vma_in_vmspace_def list_ex_iff length_remove1 split: if_splits)

function vmspace_unmap ::
  "(kmem \<Rightarrow> kmem option) \<Rightarrow> nat \<Rightarrow> (nat \<Rightarrow> u64 \<Rightarrow> u64 \<Rightarrow> vmsys \<Rightarrow> vmsys option) \<Rightarrow> vmsys \<Rightarrow> mm_struct \<Rightarrow> u64 \<Rightarrow> u64 \<Rightarrow>
    (vmsys \<times> mm_struct \<times> int) option" where
  "vmspace_unmap af i fwrite s mm va len = (case find_vma_for_va s mm va of
     None \<Rightarrow> Some (s, mm, - 1)
   | Some v \<Rightarrow>
       let start = startva (vmas s v); sz = vsize (vmas s v); len1 = PGROUNDUP len in
       if va \<noteq> start then Some (s, mm, - 1)
       else do {
         s1 \<leftarrow> (if vtype (vmas s v) = VMA_FILE \<and> perm (vmas s v) AND PERM_SHARED \<noteq> 0 \<and> perm (vmas s v) AND PERM_WRITE \<noteq> 0
                then writeback af i fwrite (pagetable mm) (vm_file (vmas s v)) start len s else Some s);
         if len1 < sz then do {
           s2 \<leftarrow> unmap_range af i (pagetable mm) start (PGROUNDUP sz div PGSIZE)
             (upd_vma v (\<lambda>x. x\<lparr>startva := startva x + len1, vsize := vsize x - len1\<rparr>) s1);
           Some (s2, mm, 0)
         }
         else do {
           (s2, mm1) \<leftarrow> del_vma_from_vmspace s1 mm v;
           s3 \<leftarrow> unmap_range af i (pagetable mm1) start (PGROUNDUP sz div PGSIZE) s2;
           if sz < len1 then do {
             (s4, mm2, _) \<leftarrow> vmspace_unmap af i fwrite s3 mm1 (va + sz) (len1 - sz);
             Some (s4, mm2, 0)
           }
           else Some (s3, mm1, 0)
         }
       })"
  by pat_completeness auto
termination
  by (relation "measure (\<lambda>(af, i, fwrite, s, mm, va, len). length (head_vma mm))")
    (auto dest: del_vma_length)

declare vmspace_unmap.simps [simp del]

section \<open>Whole address spaces\<close>

fun mapping_end :: "vmsys \<Rightarrow> nat list \<Rightarrow> u64 \<Rightarrow> u64" where
  "mapping_end s [] mx = mx"
| "mapping_end s (pos # ps) mx =
     (let v = vmas s pos; endva = startva v + vsize v in
      if vtype v = VMA_INTERP \<or> vtype v = VMA_STACK then mapping_end s ps mx
      else mapping_end s ps (if mx < endva then endva else mx))"

definition find_mapping_space :: "(kmem \<Rightarrow> kmem option) \<Rightarrow> nat \<Rightarrow> vmsys \<Rightarrow> mm_struct \<Rightarrow> u64 option" where
  "find_mapping_space af i s mm = do {
     let mx = mapping_end s (head_vma mm) MMAP_START;
     ASSERT (mx mod PGSIZE = 0);
     (m1, pte, ret) \<leftarrow> walk af i (mc s) (pagetable mm) mx False 0;
     if ret = - 1 then Some mx
     else do {
       v \<leftarrow> load m1 pte;
       ASSERT (v = 0);
       Some mx
     }
   }"

fun copy_vmas :: "nat list \<Rightarrow> vmsys \<Rightarrow> mm_struct \<Rightarrow> (vmsys \<times> mm_struct \<times> int) option" where
  "copy_vmas [] s dst = Some (s, dst, 0)"
| "copy_vmas (pos # ps) s dst = do {
     let v = vmas s pos;
     (s1, dst1, r) \<leftarrow> (if vtype v = VMA_FILE then do {
         f \<leftarrow> vm_file v;
         vma_map_file s dst (startva v) (vsize v) (ucast (perm v)) (vtype v) (offset v) f
       } else vma_map s dst (startva v) (vsize v) (ucast (perm v)) (vtype v));
     if r < 0 then Some (s1, dst1, - 1) else copy_vmas ps s1 dst1
   }"

definition vmacopy :: "vmsys \<Rightarrow> mm_struct \<Rightarrow> mm_struct \<Rightarrow> (vmsys \<times> mm_struct \<times> int) option" where
  "vmacopy s src dst = copy_vmas (head_vma src) s dst"

text \<open>The loop goes through the nodes the list had; a node that an earlier round has taken off the
  list is freed memory, and visiting it has no result.\<close>

fun free_vmas ::
  "(kmem \<Rightarrow> kmem option) \<Rightarrow> nat \<Rightarrow> (nat \<Rightarrow> u64 \<Rightarrow> u64 \<Rightarrow> vmsys \<Rightarrow> vmsys option) \<Rightarrow> nat list \<Rightarrow> vmsys \<Rightarrow> mm_struct \<Rightarrow>
    (vmsys \<times> mm_struct) option" where
  "free_vmas af i fwrite [] s mm = Some (s, mm)"
| "free_vmas af i fwrite (pos # ps) s mm = do {
     ASSERT (pos \<in> set (head_vma mm));
     let v = vmas s pos;
     (s1, mm1) \<leftarrow> (if vtype v = VMA_HEAP \<and> vsize v = 0 then del_vma_from_vmspace s mm pos
       else do {
         (s1, mm1, r) \<leftarrow> vmspace_unmap af i fwrite s mm (startva v) (vsize v);
         ASSERT (\<not> r < 0);
         Some (s1, mm1)
       });
     free_vmas af i fwrite ps s1 mm1
   }"

definition free_all_vmas ::
  "(kmem \<Rightarrow> kmem option) \<Rightarrow> nat \<Rightarrow> (nat \<Rightarrow> u64 \<Rightarrow> u64 \<Rightarrow> vmsys \<Rightarrow> vmsys option) \<Rightarrow> vmsys \<Rightarrow> mm_struct \<Rightarrow>
    (vmsys \<times> mm_struct) option" where
  "free_all_vmas af i fwrite s mm = free_vmas af i fwrite (head_vma mm) s mm"

definition uvmfree ::
  "(kmem \<Rightarrow> kmem option) \<Rightarrow> nat \<Rightarrow> (nat \<Rightarrow> u64 \<Rightarrow> u64 \<Rightarrow> vmsys \<Rightarrow> vmsys option) \<Rightarrow> vmsys \<Rightarrow> mm_struct \<Rightarrow>
    (vmsys \<times> mm_struct) option" where
  "uvmfree af i fwrite s mm = do {
     (s1, mm1) \<leftarrow> free_all_vmas af i fwrite s mm;
     m \<leftarrow> freewalk 3 i (mc s1) (pagetable mm1);
     Some (s1\<lparr>mc := m\<rparr>, mm1)
   }"

section \<open>System calls\<close>

definition mkperm :: "u32 \<Rightarrow> u32 \<Rightarrow> u64" where
  "mkperm prot mflags = (if mflags AND MAP_SHARED \<noteq> 0 then ucast PERM_SHARED else 0) OR scast prot"

text \<open>The part of \<^verbatim>\<open>do_mmap\<close> and \<^verbatim>\<open>sys_mprotect\<close> that cuts the area to
  \<^verbatim>\<open>[start, end)\<close>.\<close>

definition cut_vma :: "vmsys \<Rightarrow> mm_struct \<Rightarrow> nat \<Rightarrow> u64 \<Rightarrow> u64 \<Rightarrow> (vmsys \<times> mm_struct \<times> int) option" where
  "cut_vma s mm v start fin = do {
     (s1, mm1, r1) \<leftarrow> (if start \<noteq> startva (vmas s v) then split_vma s mm v start True else Some (s, mm, 0));
     if r1 < 0 then Some (s1, mm1, - 1)
     else do {
       (s2, mm2, r2) \<leftarrow> (if fin \<noteq> startva (vmas s1 v) + vsize (vmas s1 v) then split_vma s1 mm1 v fin False
         else Some (s1, mm1, 0));
       Some (s2, mm2, if r2 < 0 then - 1 else 0)
     }
   }"

definition new_heapvma :: "vmsys \<Rightarrow> mm_struct \<Rightarrow> mm_struct" where
  "new_heapvma s mm = fold (\<lambda>pos mm'. if vtype (vmas s pos) = VMA_HEAP \<and> startva (vmas s pos) + vsize (vmas s pos) = brk mm
     then mm'\<lparr>heapvma := Some pos\<rparr> else mm') (head_vma mm) mm"

definition map_new ::
  "vmsys \<Rightarrow> mm_struct \<Rightarrow> u64 \<Rightarrow> u64 \<Rightarrow> u32 \<Rightarrow> u32 \<Rightarrow> nat option \<Rightarrow> u64 \<Rightarrow> (vmsys \<times> mm_struct \<times> u64) option" where
  "map_new s mm mapva len prot mflags fp off = do {
     (s1, mm1, r) \<leftarrow> (case fp of
         Some f \<Rightarrow> if mflags AND MAP_ANONYMOUS \<noteq> 0 then vma_map s mm mapva len (mkperm prot mflags) VMA_ANON
           else vma_map_file s mm mapva len (mkperm prot mflags) VMA_FILE off f
       | None \<Rightarrow> vma_map s mm mapva len (mkperm prot mflags) VMA_ANON);
     Some (s1, mm1, if r < 0 then MAP_FAILED else mapva)
   }"

definition do_mmap ::
  "(kmem \<Rightarrow> kmem option) \<Rightarrow> nat \<Rightarrow> vmsys \<Rightarrow> mm_struct \<Rightarrow> u64 \<Rightarrow> u64 \<Rightarrow> u32 \<Rightarrow> u32 \<Rightarrow> nat option \<Rightarrow> u64 \<Rightarrow>
    (vmsys \<times> mm_struct \<times> u64) option" where
  "do_mmap af i s mm addr len prot mflags fp off =
     (if addr = 0 then do {
        mapva \<leftarrow> find_mapping_space af i s mm;
        map_new s mm mapva len prot mflags fp off
      }
      else if mflags AND MAP_FIXED = 0 then Some (s, mm, MAP_FAILED)
      else case find_vma_for_va s mm addr of
        None \<Rightarrow> map_new s mm 0 len prot mflags fp off
      | Some v \<Rightarrow> do {
          (s1, mm1, r) \<leftarrow> cut_vma s mm v addr (addr + len);
          if r < 0 then Some (s1, mm1, MAP_FAILED)
          else do {
            let mm2 = (if vtype (vmas s1 v) = VMA_HEAP then new_heapvma s1 mm1 else mm1);
            (s2, mm3) \<leftarrow> del_vma_from_vmspace s1 mm2 v;
            map_new s2 mm3 addr len prot mflags fp off
          }
        })"

text \<open>\<open>special\<close> is the test of \<^verbatim>\<open>sys_munmap\<close> on the program's name and the thread's index;
  \<open>v2\<close> is used through a pointer that may be \<^verbatim>\<open>NULL\<close>.\<close>

definition sys_munmap ::
  "(kmem \<Rightarrow> kmem option) \<Rightarrow> nat \<Rightarrow> (nat \<Rightarrow> u64 \<Rightarrow> u64 \<Rightarrow> vmsys \<Rightarrow> vmsys option) \<Rightarrow> bool \<Rightarrow> vmsys \<Rightarrow> mm_struct \<Rightarrow> u64 \<Rightarrow> u64 \<Rightarrow>
    (vmsys \<times> mm_struct \<times> u64) option" where
  "sys_munmap af i fwrite special s mm addr len = do {
     stack \<leftarrow> (if special then do {
         v2 \<leftarrow> find_vma_for_va s mm addr;
         Some (vtype (vmas s v2) = VMA_ANON)
       } else Some False);
     if stack then Some (s, mm, 0)
     else do {
       (s1, mm1, r) \<leftarrow> vmspace_unmap af i fwrite s mm addr len;
       Some (s1, mm1, if r \<noteq> 0 then - 1 else 0)
     }
   }"

definition sys_mmap ::
  "(kmem \<Rightarrow> kmem option) \<Rightarrow> nat \<Rightarrow> vmsys \<Rightarrow> mm_struct \<Rightarrow> u64 \<Rightarrow> u64 \<Rightarrow> u32 \<Rightarrow> u32 \<Rightarrow> nat option \<Rightarrow> u64 \<Rightarrow>
    (vmsys \<times> mm_struct \<times> u64) option" where
  "sys_mmap af i s mm addr len prot mflags fp off =
     (if off \<noteq> 0 then Some (s, mm, MAP_FAILED) else do_mmap af i s mm addr len prot mflags fp off)"

definition sys_mprotect :: "vmsys \<Rightarrow> mm_struct \<Rightarrow> u64 \<Rightarrow> u64 \<Rightarrow> u32 \<Rightarrow> (vmsys \<times> mm_struct \<times> u64) option" where
  "sys_mprotect s mm start len prot =
     (if len = 0 then Some (s, mm, 0)
      else let fin = start + PGROUNDUP len in
        if fin < start then Some (s, mm, - 1)
        else if prot AND NOT 7 \<noteq> 0 then Some (s, mm, - 1)
        else case find_vma_for_va s mm start of
          None \<Rightarrow> Some (s, mm, - 1)
        | Some v \<Rightarrow> do {
            (s1, mm1, r) \<leftarrow> cut_vma s mm v start fin;
            if r < 0 then Some (s1, mm1, - 1)
            else Some (upd_vma v (\<lambda>x. x\<lparr>perm := prot\<rparr>) s1, mm1, 0)
          })"

end
