(* ===== verification/Pagefault.thy ===== *)
theory Pagefault
  imports Vma
begin

text \<open>
  Demand paging and copy-on-write (\<^verbatim>\<open>src/src/mm/pagefault.c\<close>), and the two operations of
  \<^verbatim>\<open>src/src/mm/vm.c\<close> that meet them: \<^verbatim>\<open>copyout\<close> and \<^verbatim>\<open>uvmcopy\<close>.  The contents of a
  mapped file come from \<open>fread\<close>, which stands for the locked \<^verbatim>\<open>fat32_inode_read\<close> of one page
  into a physical address.
\<close>

definition perm_vma2pte :: "u32 \<Rightarrow> u32" where
  "perm_vma2pte vma_perm =
     (if vma_perm AND PERM_READ \<noteq> 0 then ucast PTE_R else 0) OR
     (if vma_perm AND PERM_WRITE \<noteq> 0 then ucast PTE_W else 0) OR
     (if vma_perm AND PERM_EXEC \<noteq> 0 then ucast PTE_X else 0)"

definition is_a_cow_page :: "u64 \<Rightarrow> bool" where
  "is_a_cow_page flg = (if \<not> testb flg PTE_SHARE then False else if testb flg PTE_READONLY then False else True)"

definition INSTUCTION_PAGEFAULT :: u64 where "INSTUCTION_PAGEFAULT = 12"
definition LOAD_PAGEFAULT :: u64 where "LOAD_PAGEFAULT = 13"
definition STORE_PAGEFAULT :: u64 where "STORE_PAGEFAULT = 15"

definition CHECK_PERM :: "u64 \<Rightarrow> vma \<Rightarrow> bool" where
  "CHECK_PERM cause v \<longleftrightarrow>
     cause = STORE_PAGEFAULT \<and> perm v AND PERM_WRITE \<noteq> 0 \<or>
     cause = LOAD_PAGEFAULT \<and> perm v AND PERM_READ \<noteq> 0 \<or>
     cause = INSTUCTION_PAGEFAULT \<and> perm v AND PERM_EXEC \<noteq> 0"

definition cow ::
  "(kmem \<Rightarrow> kmem option) \<Rightarrow> nat \<Rightarrow> mach \<Rightarrow> u64 \<Rightarrow> int \<Rightarrow> u64 \<Rightarrow> u64 \<Rightarrow> (mach \<times> int) option" where
  "cow af i s pte level pa flg =
     (if level \<noteq> int SUPERPAGE \<and> level \<noteq> int COMMONPAGE then Some (s, - 1)
      else let pgsz = (if level = int SUPERPAGE then SUPERPGSIZE else PGSIZE) in do {
        (s1, mem) \<leftarrow> kmalloc_s af i pgsz s;
        if mem = 0 then Some (s1, - 1)
        else do {
          s2 \<leftarrow> store (s1\<lparr>pm := memmove (pm s1) (unat mem) (unat pa) (unat pgsz)\<rparr>) pte (PA2PTE mem OR flg OR PTE_W);
          s3 \<leftarrow> kfree_s i pa s2;
          Some (s3, 0)
        }
      })"

definition pagefault ::
  "(kmem \<Rightarrow> kmem option) \<Rightarrow> nat \<Rightarrow> (nat \<Rightarrow> u64 \<Rightarrow> u64 \<Rightarrow> vmsys \<Rightarrow> vmsys option) \<Rightarrow> vmsys \<Rightarrow> mm_struct \<Rightarrow> u64 \<Rightarrow> u64 \<Rightarrow> u64 \<Rightarrow>
    (vmsys \<times> int) option" where
  "pagefault af i fread s mm cause pt stval =
     (if MAXVA \<le> PGROUNDDOWN stval then Some (s, - 1)
      else case find_vma_for_va s mm stval of
        None \<Rightarrow> Some (s, - 1)
      | Some j \<Rightarrow> let v = vmas s j in
          if \<not> CHECK_PERM cause v then Some (s, - 1)
          else do {
            (m1, pte, level) \<leftarrow> walk af i (mc s) pt stval False 0;
            e \<leftarrow> (if pte = 0 then Some 0 else load m1 pte);
            if e = 0 then do {
              (m2, _) \<leftarrow> uvmalloc af i pt m1 (PGROUNDDOWN stval) (PGROUNDUP (stval + 1)) (ucast (perm_vma2pte (perm v)));
              if vtype v = VMA_FILE then do {
                pa \<leftarrow> walkaddr af i m2 pt stval;
                f \<leftarrow> vm_file v;
                s1 \<leftarrow> fread f pa (offset v + PGROUNDDOWN stval - startva v) (s\<lparr>mc := m2\<rparr>);
                Some (s1, 0)
              }
              else Some (s\<lparr>mc := m2\<rparr>, 0)
            }
            else do {
              ASSERT (testb (PTE_FLAGS e) PTE_V);
              if is_a_cow_page (PTE_FLAGS e) then do {
                (m2, r) \<leftarrow> cow af i m1 pte level (PTE2PA e) (PTE_FLAGS e);
                Some (s\<lparr>mc := m2\<rparr>, r)
              }
              else Some (s\<lparr>mc := m1\<rparr>, - 1)
            }
          })"

text \<open>One round of the loop of \<^verbatim>\<open>copyout\<close>: make the page present and writable, and find its
  frame.  A frame of 0 stands for \<^verbatim>\<open>return -1\<close>.\<close>

definition copyout_page ::
  "(kmem \<Rightarrow> kmem option) \<Rightarrow> nat \<Rightarrow> (nat \<Rightarrow> u64 \<Rightarrow> u64 \<Rightarrow> vmsys \<Rightarrow> vmsys option) \<Rightarrow> mm_struct \<Rightarrow> u64 \<Rightarrow> vmsys \<Rightarrow> u64 \<Rightarrow>
    (vmsys \<times> u64) option" where
  "copyout_page af i fread mm pt s dstva =
     (let va0 = PGROUNDDOWN dstva in
      if MAXVA \<le> va0 then Some (s, 0)
      else do {
        (m1, pte, _) \<leftarrow> walk af i (mc s) pt va0 False 0;
        e \<leftarrow> (if pte = 0 then Some 0 else load m1 pte);
        (s1, r1) \<leftarrow> (if e = 0 then pagefault af i fread (s\<lparr>mc := m1\<rparr>) mm STORE_PAGEFAULT pt dstva
          else Some (s\<lparr>mc := m1\<rparr>, 0));
        if r1 < 0 then Some (s1, 0)
        else do {
          e2 \<leftarrow> load (mc s1) pte;
          (s2, r2) \<leftarrow> (if \<not> testb (PTE_FLAGS e2) PTE_W \<and> is_a_cow_page (PTE_FLAGS e2)
            then pagefault af i fread s1 mm STORE_PAGEFAULT pt dstva else Some (s1, 0));
          if r2 < 0 then Some (s2, 0)
          else do {
            pa0 \<leftarrow> walkaddr af i (mc s2) pt va0;
            Some (s2, pa0)
          }
        }
      })"

function copyout ::
  "(kmem \<Rightarrow> kmem option) \<Rightarrow> nat \<Rightarrow> (nat \<Rightarrow> u64 \<Rightarrow> u64 \<Rightarrow> vmsys \<Rightarrow> vmsys option) \<Rightarrow> mm_struct \<Rightarrow> u64 \<Rightarrow> vmsys \<Rightarrow> u64 \<Rightarrow> u64 \<Rightarrow> u64 \<Rightarrow>
    (vmsys \<times> int) option" where
  "copyout af i fread mm pt s dstva src len =
     (if len = 0 then Some (s, 0)
      else case copyout_page af i fread mm pt s dstva of
        None \<Rightarrow> None
      | Some (s1, pa0) \<Rightarrow>
          if pa0 = 0 then Some (s1, - 1)
          else let va0 = PGROUNDDOWN dstva; n = min (PGSIZE - (dstva - va0)) len in
            copyout af i fread mm pt
              (s1\<lparr>mc := (mc s1)\<lparr>pm := memmove (pm (mc s1)) (unat (pa0 + (dstva - va0))) (unat src) (unat n)\<rparr>\<rparr>)
              (va0 + PGSIZE) (src + n) (len - n))"
  by pat_completeness auto
termination
  by (relation "measure (\<lambda>(af, i, fread, mm, pt, s, dstva, src, len). unat len)") (simp_all add: chunk_decreases)

declare copyout.simps [simp del]

section \<open>Copying an address space\<close>

definition share_page_s :: "u64 \<Rightarrow> mach \<Rightarrow> mach option" where
  "share_page_s pa s = do { k \<leftarrow> share_page pa (km s); Some (s\<lparr>km := k\<rparr>) }"

text \<open>The stack's loop; \<open>Inl\<close> is \<^verbatim>\<open>return -1\<close>.\<close>

primrec copy_stack ::
  "(kmem \<Rightarrow> kmem option) \<Rightarrow> nat \<Rightarrow> u64 \<Rightarrow> u64 \<Rightarrow> u64 \<Rightarrow> u64 \<Rightarrow> nat \<Rightarrow> mach \<Rightarrow> u64 \<Rightarrow> (mach + mach) option" where
  "copy_stack af i src dst start sz 0 s off = (if off < sz then None else Some (Inr s))"
| "copy_stack af i src dst start sz (Suc n) s off =
     (if \<not> off < sz then Some (Inr s)
      else do {
        (s1, pte, level) \<leftarrow> walk af i s src (start + off) False 0;
        ASSERT (level \<le> 1 \<and> 0 \<le> level);
        e \<leftarrow> load s1 pte;
        (s2, new) \<leftarrow> kzalloc_s af i PGSIZE s1;
        if new = 0 then Some (Inl s2)
        else do {
          let s3 = s2\<lparr>pm := memmove (pm s2) (unat new) (unat (PTE2PA e)) (unat PGSIZE)\<rparr>;
          (s4, r) \<leftarrow> mappages af i s3 dst (start + off) PGSIZE new (PTE_W OR PTE_R OR PTE_U) COMMONPAGE;
          ASSERT (r = 0);
          copy_stack af i src dst start sz n s4 (off + PGSIZE)
        }
      })"

text \<open>What \<^verbatim>\<open>uvmcopy\<close> makes of an entry that is to be shared copy-on-write.\<close>

definition cow_share :: "u64 \<Rightarrow> u64" where
  "cow_share e =
     (let e1 = (if \<not> testb e PTE_W \<and> \<not> testb e PTE_SHARE then e OR PTE_READONLY else e);
          e2 = (if \<not> testb e1 PTE_W \<and> testb e1 PTE_READONLY then e1 OR PTE_READONLY else e1)
      in (e2 OR PTE_SHARE) AND NOT PTE_W)"

primrec copy_range ::
  "(kmem \<Rightarrow> kmem option) \<Rightarrow> nat \<Rightarrow> u64 \<Rightarrow> u64 \<Rightarrow> bool \<Rightarrow> u64 \<Rightarrow> nat \<Rightarrow> mach \<Rightarrow> u64 \<Rightarrow> mach option" where
  "copy_range af i src dst private endva 0 s a = (if a < endva then None else Some s)"
| "copy_range af i src dst private endva (Suc n) s a =
     (if \<not> a < endva then Some s
      else do {
        (s1, pte, level) \<leftarrow> walk af i s src a False 0;
        e \<leftarrow> (if pte = 0 then Some 0 else load s1 pte);
        if e = 0 then copy_range af i src dst private endva n s1 (a + PGSIZE)
        else do {
          ASSERT (level \<le> 1 \<and> 0 \<le> level);
          let e1 = (if private then cow_share e else e);
          s2 \<leftarrow> (if private then store s1 pte e1 else Some s1);
          if level = int SUPERPAGE then do {
            ASSERT (a = SUPERPG_DOWN a);
            (s3, r) \<leftarrow> mappages af i s2 dst a SUPERPGSIZE (PTE2PA e1) (PTE_FLAGS e1) SUPERPAGE;
            ASSERT (r = 0);
            s4 \<leftarrow> share_page_s (PTE2PA e1) s3;
            copy_range af i src dst private endva n s4 (a + (SUPERPGSIZE - PGSIZE) + PGSIZE)
          }
          else do {
            (s3, r) \<leftarrow> mappages af i s2 dst a PGSIZE (PTE2PA e1) (PTE_FLAGS e1) COMMONPAGE;
            ASSERT (r = 0);
            s4 \<leftarrow> share_page_s (PTE2PA e1) s3;
            copy_range af i src dst private endva n s4 (a + PGSIZE)
          }
        }
      })"

primrec copy_areas ::
  "(kmem \<Rightarrow> kmem option) \<Rightarrow> nat \<Rightarrow> u64 \<Rightarrow> u64 \<Rightarrow> vma list \<Rightarrow> mach \<Rightarrow> (mach \<times> int) option" where
  "copy_areas af i src dst [] s = Some (s, 0)"
| "copy_areas af i src dst (pos # ps) s =
     (if vtype pos = VMA_STACK then do {
        r \<leftarrow> copy_stack af i src dst (startva pos) (vsize pos) (rounds 0 (vsize pos) PGSIZE) s 0;
        case r of Inl s1 \<Rightarrow> Some (s1, - 1) | Inr s1 \<Rightarrow> copy_areas af i src dst ps s1
      }
      else do {
        let fin = startva pos + vsize pos;
        ASSERT (startva pos mod PGSIZE = 0 \<and> fin mod PGSIZE = 0);
        s1 \<leftarrow> copy_range af i src dst (vtype pos \<noteq> VMA_FILE \<or> perm pos AND PERM_SHARED = 0) fin
          (rounds (startva pos) fin PGSIZE) s (startva pos);
        copy_areas af i src dst ps s1
      })"

definition uvmcopy ::
  "(kmem \<Rightarrow> kmem option) \<Rightarrow> nat \<Rightarrow> vmsys \<Rightarrow> mm_struct \<Rightarrow> mm_struct \<Rightarrow> (vmsys \<times> int) option" where
  "uvmcopy af i s srcmm dstmm = do {
     (m, r) \<leftarrow> copy_areas af i (pagetable srcmm) (pagetable dstmm) (map (vmas s) (head_vma srcmm)) (mc s);
     Some (s\<lparr>mc := m\<rparr>, r)
   }"

end
