(* ===== verification/Copyout.thy ===== *)
theory Copyout
  imports Vm_Copy Pagefault
begin

text \<open>\<open>copyout\<close> to pages that are present.\<close>

definition settled :: "(u64 \<Rightarrow> (u64 \<times> nat) option) \<Rightarrow> u64 \<Rightarrow> bool" where
  "settled f va \<longleftrightarrow> present f va \<and> (\<exists>e l. f (PGROUNDDOWN va) = Some (e, l) \<and> (testb e PTE_W \<or> \<not> is_a_cow_page (PTE_FLAGS e)))"

lemma testb_flags: "flags_ok b \<Longrightarrow> testb (PTE_FLAGS e) b = testb e b"
proof -
  assume b: "flags_ok b"
  have "PTE_FLAGS e = take_bit 10 e" by (simp add: PTE_FLAGS_def take_bit_eq_mask mask_eq_exp_minus_1)
  then have "PTE_FLAGS e AND b = e AND b" using b by (auto simp: bit_eq_iff bit_simps dest: flags_bit)
  then show ?thesis by simp
qed

lemma copyout_page_ok:
  assumes ok: "vm_ok (mc s) t" and st: "settled (xl 2 (pm (mc s)) t) dstva"
  shows "copyout_page af i fread mm t s dstva = Some (s, frame (xl 2 (pm (mc s)) t) (PGROUNDDOWN dstva))"
proof -
  let ?f = "xl 2 (pm (mc s)) t" let ?va = "PGROUNDDOWN dstva"
  obtain e l where e: "?f ?va = Some (e, l)" "testb e PTE_W \<or> \<not> is_a_cow_page (PTE_FLAGS e)" "present ?f dstva"
    using st by (auto simp: settled_def)
  have va: "?va < MAXVA" using e(3) by (auto simp: present_def frame_def split: if_splits)
  obtain a l' where a: "stop 2 0 (pm (mc s)) t ?va = Some (a, l')" "leaf_view (ld64 (pm (mc s)) a) l' = Some (e, l)"
    using e(1) xl_stop2 [OF ok, of ?va] by (auto split: option.splits)
  then have v: "ld64 (pm (mc s)) a = e" "testb e PTE_V" by (auto simp: leaf_view_def split: if_splits)
  have "e \<noteq> 0" using v(2) by auto
  moreover have "load (mc s) a = Some e" using v(1) stop_level(1) [OF ok a(1)] by (simp add: load_def)
  ultimately show ?thesis
    using va e(2) walk_lookup [OF ok va, of af i] a(1) stop_level(1) [OF ok a(1)] walkaddr_eq [OF ok, of af i ?va]
    by (auto simp: copyout_page_def Let_def testb_flags)
qed

lemma copyout_ok:
  assumes "vm_ok (mc s) t" "unat len + unat dstva < 2 ^ 64" "unat src + unat len < 2 ^ 64"
    and "user_range (xl 2 (pm (mc s)) t) dstva (unat len) \<inter> (tree_bytes 2 (pm (mc s)) t \<union> {unat src..<unat src + unat len}) = {}"
    and "inj_on (\<lambda>k. upa (xl 2 (pm (mc s)) t) (dstva + of_nat k)) {..<unat len}"
    and "\<And>k. k < unat len \<Longrightarrow> settled (xl 2 (pm (mc s)) t) (dstva + of_nat k)"
  shows "\<exists>m. copyout af i fread mm t s dstva src len = Some (s\<lparr>mc := (mc s)\<lparr>pm := m\<rparr>\<rparr>, 0) \<and>
    (\<forall>k<unat len. m (upa (xl 2 (pm (mc s)) t) (dstva + of_nat k)) = pm (mc s) (unat src + k)) \<and>
    (\<forall>x. x \<notin> user_range (xl 2 (pm (mc s)) t) dstva (unat len) \<longrightarrow> m x = pm (mc s) x)"
  using assms
proof (induction af i fread mm t s dstva src len rule: copyout.induct)
  case (1 af i fread mm t s dstva src len)
  let ?f = "xl 2 (pm (mc s)) t"
  show ?case
  proof (cases "len = 0")
    case True
    then show ?thesis by (intro exI [of _ "pm (mc s)"]) (subst copyout.simps, simp)
  next
    case False
    define va0 where "va0 = PGROUNDDOWN dstva"
    define n where "n = min (PGSIZE - (dstva - va0)) len"
    define P where "P = unat (frame ?f va0 + (dstva - va0))"
    let ?D = "\<lambda>va l. user_range ?f va l"
    have s0: "settled ?f dstva" using 1(7) [of 0] False by (simp add: unat_gt_0)
    then have l2: "frame ?f va0 \<noteq> 0" by (simp add: settled_def present_def va0_def)
    have w: "copyout_page af i fread mm t s dstva = Some (s, frame ?f va0)"
      unfolding va0_def by (rule copyout_page_ok [OF 1(2) s0])
    note IH = 1(1) [OF False w refl l2 va0_def n_def]
    note N = next_round [OF 1(3) n_def [unfolded va0_def] False]
    define m1 where "m1 = memmove (pm (mc s)) P (unat src) (unat n)"
    define s1 where "s1 = s\<lparr>mc := (mc s)\<lparr>pm := m1\<rparr>\<rparr>"
    have m1: "m1 x = (if P \<le> x \<and> x < P + unat n then pm (mc s) (unat src + (x - P)) else pm (mc s) x)" for x
      by (simp add: m1_def memmove_eq)
    have ch: "upa ?f (dstva + of_nat k) = P + k" if "k < unat n" for k
      using that chunk_upa(1) [of k dstva ?f] N(3) by (auto simp: P_def va0_def)
    have hit: "x \<in> ?D dstva (unat n)" if "P \<le> x" "x < P + unat n" for x
      using that ch [of "x - P"] by (auto simp: user_range_def intro!: image_eqI [of _ _ "x - P"])
    have sub: "?D dstva (unat n) \<subseteq> ?D dstva (unat len)" using N(2) by (auto simp: user_range_def)
    have out: "m1 x = pm (mc s) x" if "x \<notin> ?D dstva (unat n)" for x using that hit m1 by auto
    have run: "copyout af i fread mm t s dstva src len = copyout af i fread mm t s1 (va0 + PGSIZE) (src + n) (len - n)"
      using False l2 w by (subst copyout.simps) (simp add: Let_def va0_def n_def s1_def m1_def P_def)
    have T: "vm_ok (mc s1) t" "xl 2 (pm (mc s1)) t = ?f" "tree_bytes 2 (pm (mc s1)) t = tree_bytes 2 (pm (mc s)) t"
      using vm_ok_other_mem [OF 1(2), of m1] out sub 1(5) unfolding s1_def by auto
    have here: "m1 (upa ?f (dstva + of_nat k)) = pm (mc s) (unat src + k)" if "k < unat n" for k
      using that ch m1 by simp
    show ?thesis
    proof (cases "n = len")
      case True
      then have "copyout af i fread mm t s dstva src len = Some (s1, 0)" unfolding run by (subst copyout.simps) simp
      then show ?thesis using here out True unfolding s1_def by auto
    next
      case ne: False
      have sh: "va0 + PGSIZE + of_nat k = dstva + of_nat (unat n + k)" for k unfolding va0_def by (rule N(4) [OF ne])
      have up: "unat (va0 + PGSIZE) = unat dstva + unat n" "unat (src + n) = unat src + unat n"
        using sh [of 0] 1(3,4) N(2) by (simp_all add: unat_add_lem [THEN iffD1])
      have ur: "?D (va0 + PGSIZE) (unat len - unat n) \<subseteq> ?D dstva (unat len)"
        unfolding user_range_def sh by (auto intro!: image_eqI [where x = "unat n + _"])
      have dis: "upa ?f (dstva + of_nat k) \<notin> ?D (va0 + PGSIZE) (unat len - unat n)" if "k < unat n" for k
      proof
        assume "upa ?f (dstva + of_nat k) \<in> ?D (va0 + PGSIZE) (unat len - unat n)"
        then obtain j where j: "j < unat len - unat n" "upa ?f (dstva + of_nat k) = upa ?f (dstva + of_nat (unat n + j))"
          unfolding user_range_def sh by auto
        have "k \<in> {..<unat len}" "unat n + j \<in> {..<unat len}" using j(1) that N(2) by auto
        then show False using inj_onD [OF 1(6) j(2)] that by simp
      qed
      have "{unat src + unat n..<unat src + unat n + (unat len - unat n)} \<subseteq> {unat src..<unat src + unat len}" using N(2) by auto
      then have "user_range (xl 2 (pm (mc s1)) t) (va0 + PGSIZE) (unat (len - n)) \<inter>
          (tree_bytes 2 (pm (mc s1)) t \<union> {unat (src + n)..<unat (src + n) + unat (len - n)}) = {}"
        unfolding T up N(1) using 1(5) ur by blast
      moreover have "unat (len - n) + unat (va0 + PGSIZE) < 2 ^ 64" "unat (src + n) + unat (len - n) < 2 ^ 64"
        using 1(3,4) up N(1,2) by linarith+
      moreover have "inj_on (\<lambda>k. upa (xl 2 (pm (mc s1)) t) (va0 + PGSIZE + of_nat k)) {..<unat (len - n)}"
        unfolding T sh N(1)
      proof (rule inj_onI)
        fix x y assume xy: "x \<in> {..<unat len - unat n}" "y \<in> {..<unat len - unat n}"
          "upa ?f (dstva + of_nat (unat n + x)) = upa ?f (dstva + of_nat (unat n + y))"
        then have "unat n + x \<in> {..<unat len}" "unat n + y \<in> {..<unat len}" by auto
        then show "x = y" using inj_onD [OF 1(6) xy(3)] by simp
      qed
      moreover have "settled (xl 2 (pm (mc s1)) t) (va0 + PGSIZE + of_nat k)" if "k < unat (len - n)" for k
        using 1(7) [of "unat n + k"] that unfolding T sh N(1) by simp
      ultimately obtain m where m: "copyout af i fread mm t s1 (va0 + PGSIZE) (src + n) (len - n) = Some (s1\<lparr>mc := (mc s1)\<lparr>pm := m\<rparr>\<rparr>, 0)"
        "\<forall>k<unat (len - n). m (upa ?f (va0 + PGSIZE + of_nat k)) = m1 (unat (src + n) + k)"
        "\<forall>x. x \<notin> ?D (va0 + PGSIZE) (unat (len - n)) \<longrightarrow> m x = m1 x"
        using IH [folded P_def, folded m1_def, folded s1_def] T(1) unfolding T(2) by (auto simp: s1_def)
      have "m (upa ?f (dstva + of_nat k)) = pm (mc s) (unat src + k)" if "k < unat len" for k
      proof (cases "k < unat n")
        case True
        then show ?thesis using here dis m(3) unfolding N(1) by auto
      next
        case False
        then have "m (upa ?f (dstva + of_nat k)) = m1 (unat src + k)"
          using m(2) [rule_format, of "k - unat n"] that unfolding sh N(1) up by (simp del: of_nat_add of_nat_diff)
        moreover have "unat src + k \<notin> ?D dstva (unat n)" using that sub 1(5) by auto
        ultimately show ?thesis using out by simp
      qed
      moreover have "m x = pm (mc s) x" if "x \<notin> ?D dstva (unat len)" for x
      proof -
        have "x \<notin> ?D (va0 + PGSIZE) (unat (len - n))" "x \<notin> ?D dstva (unat n)" using that ur sub unfolding N(1) by auto
        then show ?thesis using m(3) out by simp
      qed
      moreover have "copyout af i fread mm t s dstva src len = Some (s\<lparr>mc := (mc s)\<lparr>pm := m\<rparr>\<rparr>, 0)"
        using run m(1) by (simp add: s1_def)
      ultimately show ?thesis by blast
    qed
  qed
qed

end
