(* ===== verification/Pcb_Mm.thy ===== *)
theory Pcb_Mm
  imports Pagefault
begin

text \<open>
  The address spaces of the kernel and of processes (\<^verbatim>\<open>src/src/proc/pcb_mm.c\<close>,
  \<^verbatim>\<open>src/src/mm/mm.c\<close>, \<^verbatim>\<open>kvmmake\<close> of \<^verbatim>\<open>src/src/mm/vm.c\<close> for the QEMU platform).  The
  addresses that the linker fixes (\<^verbatim>\<open>etext\<close>, \<^verbatim>\<open>trampoline\<close>,
  \<^verbatim>\<open>__user_rt_sigreturn\<close>) are arguments.
\<close>

definition CLINT_MTIME :: u64 where "CLINT_MTIME = 0x2000000 + 0xBFF8"
definition UART0 :: u64 where "UART0 = 0x10000000"
definition VIRTIO0 :: u64 where "VIRTIO0 = 0x10001000"
definition PLIC :: u64 where "PLIC = 0x0c000000"
definition KERNBASE :: u64 where "KERNBASE = 0x80200000"
definition KSTACK_PAGE :: u64 where "KSTACK_PAGE = 4"
definition KSTACK :: "nat \<Rightarrow> u64" where
  "KSTACK p = TRAMPOLINE - (of_nat p + 1) * (KSTACK_PAGE + 1) * PGSIZE"
definition USTACK_GURAD_PAGE :: u64 where "USTACK_GURAD_PAGE = USTACK - PGSIZE"

section \<open>The kernel's page table\<close>

fun map_stacks :: "(kmem \<Rightarrow> kmem option) \<Rightarrow> nat \<Rightarrow> u64 \<Rightarrow> nat list \<Rightarrow> mach \<Rightarrow> mach option" where
  "map_stacks af i kpgtbl [] s = Some s"
| "map_stacks af i kpgtbl (t # ts) s = do {
     (s1, pa) \<leftarrow> kmalloc_s af i (KSTACK_PAGE * PGSIZE) s;
     ASSERT (pa \<noteq> 0);
     s2 \<leftarrow> kvmmap af i s1 kpgtbl (KSTACK t) pa (KSTACK_PAGE * PGSIZE) (PTE_R OR PTE_W) COMMONPAGE;
     map_stacks af i kpgtbl ts s2
   }"

definition tcb_mapstacks :: "(kmem \<Rightarrow> kmem option) \<Rightarrow> nat \<Rightarrow> u64 \<Rightarrow> nat \<Rightarrow> mach \<Rightarrow> mach option" where
  "tcb_mapstacks af i kpgtbl ntcb s = map_stacks af i kpgtbl [0..<ntcb] s"

definition kvmmake ::
  "(kmem \<Rightarrow> kmem option) \<Rightarrow> nat \<Rightarrow> u64 \<Rightarrow> u64 \<Rightarrow> nat \<Rightarrow> mach \<Rightarrow> (mach \<times> u64) option" where
  "kvmmake af i etext trampoline ntcb s = do {
     (s, kpgtbl) \<leftarrow> kzalloc_s af i PGSIZE s;
     s \<leftarrow> kvmmap af i s kpgtbl CLINT_MTIME CLINT_MTIME PGSIZE PTE_R COMMONPAGE;
     s \<leftarrow> kvmmap af i s kpgtbl UART0 UART0 PGSIZE (PTE_R OR PTE_W) COMMONPAGE;
     s \<leftarrow> kvmmap af i s kpgtbl VIRTIO0 VIRTIO0 PGSIZE (PTE_R OR PTE_W) COMMONPAGE;
     s \<leftarrow> kvmmap af i s kpgtbl PLIC PLIC 0x400000 (PTE_R OR PTE_W) SUPERPAGE;
     let sz1 = SUPERPG_DOWN (etext - KERNBASE);
     s \<leftarrow> (if sz1 \<noteq> 0 then kvmmap af i s kpgtbl KERNBASE KERNBASE sz1 (PTE_R OR PTE_X) SUPERPAGE else Some s);
     s \<leftarrow> kvmmap af i s kpgtbl (KERNBASE + sz1) (KERNBASE + sz1) (etext - KERNBASE - sz1) (PTE_R OR PTE_X) COMMONPAGE;
     let sz2 = SUPERPG_DOWN (PHYSTOP - etext);
     s \<leftarrow> kvmmap af i s kpgtbl etext etext (PHYSTOP - etext - sz2) (PTE_R OR PTE_W) COMMONPAGE;
     s \<leftarrow> kvmmap af i s kpgtbl (SUPERPG_ROUNDUP etext) (SUPERPG_ROUNDUP etext) sz2 (PTE_R OR PTE_W) SUPERPAGE;
     s \<leftarrow> kvmmap af i s kpgtbl TRAMPOLINE trampoline PGSIZE (PTE_R OR PTE_X) COMMONPAGE;
     s \<leftarrow> tcb_mapstacks af i kpgtbl ntcb s;
     s \<leftarrow> kvmmap af i s kpgtbl 0 START_MEM (PGSIZE * 1000) (PTE_R OR PTE_W) 0;
     Some (s, kpgtbl)
   }"

section \<open>A process's page table\<close>

definition proc_pagetable :: "(kmem \<Rightarrow> kmem option) \<Rightarrow> nat \<Rightarrow> u64 \<Rightarrow> u64 \<Rightarrow> mach \<Rightarrow> (mach \<times> u64) option" where
  "proc_pagetable af i trampoline sigreturn s = do {
     (s1, pt) \<leftarrow> uvmcreate af i s;
     if pt = 0 then Some (s1, 0)
     else do {
       (s2, r) \<leftarrow> mappages af i s1 pt TRAMPOLINE PGSIZE trampoline (PTE_R OR PTE_X) 0;
       if r < 0 then do {
         s3 \<leftarrow> freewalk 3 i s2 pt;
         Some (s3, 0)
       }
       else do {
         (s3, r2) \<leftarrow> mappages af i s2 pt SIGRETURN PGSIZE sigreturn (PTE_R OR PTE_X OR PTE_U) 0;
         if r2 < 0 then do {
           s4 \<leftarrow> uvmunmap af i pt s3 TRAMPOLINE 1 False False;
           s5 \<leftarrow> freewalk 3 i s4 pt;
           Some (s5, 0)
         }
         else Some (s3, pt)
       }
     }
   }"

fun unmap_trapframes :: "(kmem \<Rightarrow> kmem option) \<Rightarrow> nat \<Rightarrow> u64 \<Rightarrow> nat list \<Rightarrow> mach \<Rightarrow> mach option" where
  "unmap_trapframes af i pt [] s = Some s"
| "unmap_trapframes af i pt (off # offs) s = do {
     s1 \<leftarrow> uvmunmap af i pt s (TRAPFRAME - of_nat off * PGSIZE) 1 False True;
     unmap_trapframes af i pt offs s1
   }"

definition proc_freepagetable ::
  "(kmem \<Rightarrow> kmem option) \<Rightarrow> nat \<Rightarrow> (nat \<Rightarrow> u64 \<Rightarrow> u64 \<Rightarrow> vmsys \<Rightarrow> vmsys option) \<Rightarrow> vmsys \<Rightarrow> mm_struct \<Rightarrow> nat \<Rightarrow>
    (vmsys \<times> mm_struct) option" where
  "proc_freepagetable af i fwrite s mm thread_cnt = do {
     m1 \<leftarrow> uvmunmap af i (pagetable mm) (mc s) TRAMPOLINE 1 False False;
     m2 \<leftarrow> uvmunmap af i (pagetable mm) m1 SIGRETURN 1 False False;
     m3 \<leftarrow> uvmunmap af i (pagetable mm) m2 USTACK_GURAD_PAGE 1 False True;
     m4 \<leftarrow> unmap_trapframes af i (pagetable mm) [0..<thread_cnt] m3;
     uvmfree af i fwrite (s\<lparr>mc := m4\<rparr>) mm
   }"

text \<open>\<^verbatim>\<open>alloc_mm\<close> and \<^verbatim>\<open>free_mm\<close>; \<open>sizeof_mm\<close> is \<^verbatim>\<open>sizeof(struct mm_struct)\<close>, and the
  structure's own page is returned beside it.\<close>

definition alloc_mm ::
  "(kmem \<Rightarrow> kmem option) \<Rightarrow> nat \<Rightarrow> u64 \<Rightarrow> u64 \<Rightarrow> u64 \<Rightarrow> mach \<Rightarrow> (mach \<times> (u64 \<times> mm_struct) option) option" where
  "alloc_mm af i sizeof_mm trampoline sigreturn s = do {
     (s1, p) \<leftarrow> kzalloc_s af i sizeof_mm s;
     if p = 0 then Some (s1, None)
     else do {
       (s2, pt) \<leftarrow> proc_pagetable af i trampoline sigreturn s1;
       if pt = 0 then do {
         s3 \<leftarrow> kfree_s i p s2;
         Some (s3, None)
       }
       else Some (s2, Some (p, \<lparr>head_vma = [], pagetable = pt, start_brk = 0, brk = 0, heapvma = None\<rparr>))
     }
   }"

definition free_mm ::
  "(kmem \<Rightarrow> kmem option) \<Rightarrow> nat \<Rightarrow> (nat \<Rightarrow> u64 \<Rightarrow> u64 \<Rightarrow> vmsys \<Rightarrow> vmsys option) \<Rightarrow> vmsys \<Rightarrow> (u64 \<times> mm_struct) option \<Rightarrow> nat \<Rightarrow>
    vmsys option" where
  "free_mm af i fwrite s r thread_cnt = (case r of
     None \<Rightarrow> Some s
   | Some (p, mm) \<Rightarrow> do {
       (s1, mm1) \<leftarrow> (if pagetable mm \<noteq> 0 then proc_freepagetable af i fwrite s mm thread_cnt else Some (s, mm));
       m \<leftarrow> kfree_s i p (mc s1);
       Some (s1\<lparr>mc := m\<rparr>)
     })"

section \<open>The heap\<close>

text \<open>\<open>None\<close> inside the result is \<^verbatim>\<open>do_exit\<close>: the thread does not come back.\<close>

definition set_brk :: "vmsys \<Rightarrow> mm_struct \<Rightarrow> u64 \<Rightarrow> (vmsys \<times> mm_struct \<times> int) option option" where
  "set_brk s mm sz = do {
     (s1, mm1) \<leftarrow> (if heapvma mm = None then do {
         (s1, mm1, r) \<leftarrow> vma_map s mm (start_brk mm) (sz - start_brk mm) (ucast (PERM_READ OR PERM_WRITE)) VMA_HEAP;
         ASSERT (\<not> r < 0);
         Some (s1, mm1)
       } else Some (s, mm));
     h \<leftarrow> heapvma mm1;
     Some (Some (upd_vma h (\<lambda>v. v\<lparr>vsize := PGROUNDUP sz - start_brk mm1\<rparr>) s1, mm1\<lparr>brk := sz\<rparr>, 0))
   }"

definition growheap ::
  "(kmem \<Rightarrow> kmem option) \<Rightarrow> nat \<Rightarrow> vmsys \<Rightarrow> mm_struct \<Rightarrow> u32 \<Rightarrow> (vmsys \<times> mm_struct \<times> int) option option" where
  "growheap af i s mm n =
     (let oldsz = brk mm; newsz = brk mm + scast n in
      if newsz < start_brk mm then Some None
      else if 0 <s n then do {
        (m1, pte, level) \<leftarrow> walk af i (mc s) (pagetable mm) oldsz False 0;
        ASSERT (\<not> (pte = 0 \<and> level \<noteq> - 1));
        ASSERT (level \<le> 1);
        if level = int COMMONPAGE \<and> newsz \<le> PGROUNDUP oldsz \<or> level = int SUPERPAGE \<and> newsz \<le> SUPERPG_ROUNDUP oldsz
        then Some (Some (s\<lparr>mc := m1\<rparr>, mm\<lparr>brk := newsz\<rparr>, 0))
        else do {
          ASSERT (level = int COMMONPAGE \<or> level = int SUPERPAGE \<or> level = - 1);
          (m2, sz) \<leftarrow> uvmalloc af i (pagetable mm) m1 oldsz newsz (PTE_W OR PTE_R);
          if sz = 0 then Some (Some (s\<lparr>mc := m2\<rparr>, mm, - 1)) else set_brk (s\<lparr>mc := m2\<rparr>) mm sz
        }
      }
      else if n <s 0 then do {
        (m1, sz) \<leftarrow> uvmdealloc af i (pagetable mm) (mc s) oldsz newsz;
        set_brk (s\<lparr>mc := m1\<rparr>) mm sz
      }
      else set_brk s mm (brk mm))"

section \<open>Copies to and from either space\<close>

definition either_copyout ::
  "(kmem \<Rightarrow> kmem option) \<Rightarrow> nat \<Rightarrow> (nat \<Rightarrow> u64 \<Rightarrow> u64 \<Rightarrow> vmsys \<Rightarrow> vmsys option) \<Rightarrow> mm_struct \<Rightarrow> vmsys \<Rightarrow> bool \<Rightarrow> u64 \<Rightarrow> u64 \<Rightarrow> u64 \<Rightarrow>
    (vmsys \<times> int) option" where
  "either_copyout af i fread mm s user_dst dst src len =
     (if user_dst then copyout af i fread mm (pagetable mm) s dst src len
      else Some (s\<lparr>mc := (mc s)\<lparr>pm := memmove (pm (mc s)) (unat dst) (unat src) (unat (ucast len :: u32))\<rparr>\<rparr>, 0))"

definition either_copyin ::
  "(kmem \<Rightarrow> kmem option) \<Rightarrow> nat \<Rightarrow> mm_struct \<Rightarrow> mach \<Rightarrow> u64 \<Rightarrow> bool \<Rightarrow> u64 \<Rightarrow> u64 \<Rightarrow> (mach \<times> int) option" where
  "either_copyin af i mm s dst user_src src len =
     (if user_src then copyin af i (pagetable mm) s dst src len
      else Some (s\<lparr>pm := memmove (pm s) (unat dst) (unat src) (unat (ucast len :: u32))\<rparr>, 0))"

end
