(* ===== verification/Vm_Props.thy ===== *)
theory Vm_Props
  imports Copyout Pcb_Mm
begin

text \<open>
  What the page tables and the copies to and from user memory guarantee, stated over the functions
  of \<^verbatim>\<open>src/src/mm/vm.c\<close>.  A page table denotes the translation \<open>xl 2\<close>; \<open>vm_ok\<close> says that it
  is a tree of pages that the allocator has handed out.  The concrete states of the witnesses come
  from the kernel right after \<^verbatim>\<open>mm_init\<close>.
\<close>

lemma mapped_page: "mapped f (PGROUNDDOWN va) pa prm j u = mapped f va pa prm j u"
  by (simp add: mapped_def unat_PGROUNDDOWN)

lemma page_count:
  assumes "unat va \<le> unat w"
  shows "unat ((PGROUNDDOWN w - PGROUNDDOWN va) div PGSIZE) = vpn w - vpn va"
proof -
  have "unat (PGROUNDDOWN va) \<le> unat (PGROUNDDOWN w)" using assms by (simp add: unat_PGROUNDDOWN div_le_mono)
  then have "unat (PGROUNDDOWN w - PGROUNDDOWN va) = vpn w * 4096 - vpn va * 4096"
    by (simp add: unat_sub word_le_nat_alt unat_PGROUNDDOWN)
  then show ?thesis by (simp add: unat_div PGSIZE_def flip: diff_mult_distrib)
qed

lemma mappages_ok:
  assumes "vm_ok s t" "i < NCPU" "reclaims {} af" "sz \<noteq> 0" "unat va + unat sz \<le> unat MAXVA"
    and "\<forall>u<MAXVA. vpn va \<le> vpn u \<and> vpn u \<le> vpn (va + sz - 1) \<longrightarrow> xl 2 (pm s) t u = None"
    and "N = vpn (va + sz - 1) - vpn va + 1"
  shows "\<exists>s' r j. mappages af i s t va sz pa prm 0 = Some (s', r) \<and> vm_ok s' t \<and> keeps (km s) (km s') \<and>
    (if r = 0 then j = N else r = - 1 \<and> j < N \<and> kfree_set (km s') = {}) \<and>
    (\<forall>u<MAXVA. xl 2 (pm s') t u = mapped (xl 2 (pm s) t) va pa prm j u) \<and>
    tabs 2 (pm s') t \<subseteq> tabs 2 (pm s) t \<union> (held (km s') - held (km s)) \<and>
    (\<forall>x. x \<notin> tree_bytes 2 (pm s') t \<longrightarrow> pm s' x = pm s x) \<and>
    (af = Some \<and> 2 * N < card (kfree_set (km s)) \<longrightarrow> r = 0) \<and>
    (af = Some \<longrightarrow> took_pages (2 * N) (km s) (km s'))"
proof -
  let ?w = "va + sz - 1" let ?n = "vpn (va + sz - 1) - vpn va"
  have sz: "0 < unat sz" using assms(4) by (simp add: unat_gt_0)
  have mx: "unat MAXVA = 2 ^ 38" by (simp add: MAXVA_def)
  have "unat (va + sz) = unat va + unat sz" using assms(5) mx by (simp add: unat_add_lem [THEN iffD1])
  then have w: "unat ?w = unat va + unat sz - 1" using sz by (subst unat_minus_one) auto
  then have le: "unat va \<le> unat ?w" "unat ?w < 2 ^ 38" using sz assms(5) mx by linarith+
  have n: "vpn va + ?n = vpn ?w" using div_le_mono [OF le(1), of 4096] by simp
  have "unat (PGROUNDDOWN va) + ?n * 4096 = vpn ?w * 4096"
    unfolding unat_PGROUNDDOWN using n by (metis add_mult_distrib)
  moreover have "vpn ?w * 4096 \<le> unat ?w" by simp
  ultimately have room: "unat (PGROUNDDOWN va) + ?n * 4096 < 2 ^ 38" using le(2) by linarith
  have free: "xl 2 (pm s) t u = None" if "u < MAXVA" "vpn (PGROUNDDOWN va) \<le> vpn u" "vpn u \<le> vpn (PGROUNDDOWN va) + ?n" for u
    using assms(6) that n by (simp add: unat_PGROUNDDOWN)
  have run: "mappages af i s t va sz pa prm 0 = map_loop af i t 0 prm PGSIZE ?n s (PGROUNDDOWN va) pa"
    using assms(4) page_count [OF le(1)] by (simp add: mappages_def Let_def)
  obtain s' r j where L: "map_loop af i t 0 prm PGSIZE ?n s (PGROUNDDOWN va) pa = Some (s', r)" "vm_step t s s'"
    "if r = 0 then j = ?n + 1 else r = - 1 \<and> j \<le> ?n \<and> kfree_set (km s') = {}"
    "\<forall>u<MAXVA. xl 2 (pm s') t u = mapped (xl 2 (pm s) t) (PGROUNDDOWN va) pa prm j u"
    "af = Some \<longrightarrow> took_pages (2 * (?n + 1)) (km s) (km s')"
    using map_loop_ok [OF assms(2,3,1) room free] by blast
  have "r = 0" if "af = Some \<and> 2 * N < card (kfree_set (km s))"
    using that L(3,5) assms(7) took_pages_all [of "2 * (?n + 1)" "km s" "km s'"] by (cases "r = 0") auto
  then show ?thesis using L run assms(7) unfolding mapped_page
    by (intro exI [of _ s'] exI [of _ r] exI [of _ j]) (auto simp: vm_step_def sub_upd_def)
qed

text \<open>C5.  \<open>mappages\<close> of a range of unmapped user pages returns 0 with exactly those pages mapped,
  in order, to the frames from \<open>pa\<close> on with the permissions asked for, and every other translation
  as it was.  It returns -1 only when no free page is left for a table, and then a prefix of the
  range is mapped.  The page table stays a well-formed tree; it grows only by pages that were free,
  no page already handed out changes hands, and no byte outside its tables changes.\<close>

theorem mappages_correct:
  assumes "vm_ok s t" "i < NCPU" "reclaims {} af" "sz \<noteq> 0" "unat va + unat sz \<le> unat MAXVA"
    and "\<forall>u<MAXVA. vpn va \<le> vpn u \<and> vpn u \<le> vpn (va + sz - 1) \<longrightarrow> xl 2 (pm s) t u = None"
    and "N = vpn (va + sz - 1) - vpn va + 1"
  shows "\<exists>s' r j. mappages af i s t va sz pa prm 0 = Some (s', r) \<and> vm_ok s' t \<and> keeps (km s) (km s') \<and>
    (if r = 0 then j = N else r = - 1 \<and> j < N \<and> kfree_set (km s') = {}) \<and>
    (\<forall>u<MAXVA. xl 2 (pm s') t u = mapped (xl 2 (pm s) t) va pa prm j u) \<and>
    tabs 2 (pm s') t \<subseteq> tabs 2 (pm s) t \<union> (held (km s') - held (km s)) \<and>
    (\<forall>x. x \<notin> tree_bytes 2 (pm s') t \<longrightarrow> pm s' x = pm s x) \<and>
    (af = Some \<and> 2 * N < card (kfree_set (km s)) \<longrightarrow> r = 0)"
  using mappages_ok [OF assms, of pa prm] by blast

section \<open>Address spaces for the examples\<close>

text \<open>A new, empty page table on a freshly booted machine.\<close>

definition empty_space :: "mach \<Rightarrow> u64 \<Rightarrow> bool" where
  "empty_space s t \<longleftrightarrow> (\<exists>k. booted k \<and> uvmcreate Some 0 \<lparr>km = k, pm = (\<lambda>_. 0)\<rparr> = Some (s, t) \<and> t \<noteq> 0)"

lemma empty_space_ex: "\<exists>s t. empty_space s t"
proof -
  obtain k where k: "booted k" using booted_ok(1) by blast
  note K = booted_ok(2,3) [OF k]
  let ?s = "\<lparr>km = k, pm = (\<lambda>_. 0)\<rparr> :: mach"
  have "kmem_ok (km ?s)" "0 < NCPU" using K(1) by (simp_all add: config)
  then obtain s p where z: "kzalloc_s Some 0 PGSIZE ?s = Some (s, p)"
    "if p = 0 then pm s = pm ?s \<and> kfree_set (km ?s) = {} \<and> kfree_set (km s) = {} else fresh_page ?s s p"
    using kzalloc_page [OF _ _ no_reclaim] by blast
  have "p \<noteq> 0" using z(2) K(2) by (auto simp: config lessThan_empty_iff split: if_splits)
  then show ?thesis using k z(1) unfolding empty_space_def uvmcreate_def by blast
qed

lemma empty_space_ok:
  assumes "empty_space s t"
  shows "vm_ok s t" "xl 2 (pm s) t u = None" "20000 < card (kfree_set (km s))" "stop 2 0 (pm s) t u = None"
    "j < 512 \<Longrightarrow> ent (pm s) t j = 0"
proof -
  obtain k where k: "booted k" "kzalloc_s Some 0 PGSIZE \<lparr>km = k, pm = (\<lambda>_. 0)\<rparr> = Some (s, t)" "t \<noteq> 0"
    using assms by (auto simp: empty_space_def uvmcreate_def)
  note K = booted_ok(2,3) [OF k(1)]
  let ?s = "\<lparr>km = k, pm = (\<lambda>_. 0)\<rparr> :: mach"
  have "kmem_ok (km ?s)" "0 < NCPU" using K(1) by (simp_all add: config)
  then have z: "kmem_ok (km s)" "fresh_page ?s s t" "took_pages 1 k (km s)"
    using kzalloc_page [OF _ _ no_reclaim, of ?s 0] k(2,3) by auto
  then have f: "page_al t" "t \<in> held (km s)" "\<And>x. x \<in> page_bytes t \<Longrightarrow> pm s x = 0" by (auto simp: fresh_page_def)
  show "j < 512 \<Longrightarrow> ent (pm s) t j = 0" by (rule ent_zero [OF f(1) _ f(3)])
  have Z: "tabs 2 (pm s) t = {t}" "pt_wf 2 (pm s) t" "xl 2 (pm s) t u = None" "stop (Suc 1) 0 (pm s) t u = None"
    by (rule zero_tree [OF f(1,3)]; assumption)+
  show "stop 2 0 (pm s) t u = None" using Z(4) by (simp only: numeral_2_eq_2 One_nat_def)
  show "vm_ok s t" using z(1) f(2) Z(1,2) by (simp add: vm_ok_def)
  show "xl 2 (pm s) t u = None" by (rule Z(3))
  obtain Q where Q: "finite Q" "card Q \<le> 1" "kfree_set k \<subseteq> kfree_set (km s) \<union> Q" using z(3) by (auto simp: took_pages_def)
  have fin: "finite (kfree_set (km s))" using z(1) by (simp add: kmem_ok_def)
  have "22528 = card (kfree_set k)" using K(2) by (simp add: config)
  also have "\<dots> \<le> card (kfree_set (km s) \<union> Q)" using Q fin by (intro card_mono) auto
  also have "\<dots> \<le> card (kfree_set (km s)) + card Q" by (rule card_Un_le)
  finally show "20000 < card (kfree_set (km s))" using Q(2) by linarith
qed

theorem mappages_correct_witness:
  "\<exists>s t s'. empty_space s t \<and> mappages Some 0 s t 0x1FFC 8 0x80000000 (PTE_R OR PTE_U) 0 = Some (s', 0) \<and>
    xl 2 (pm s') t 0x1000 = Some (PA2PTE 0x80000000 OR (PTE_R OR PTE_U) OR PTE_V, 0) \<and>
    xl 2 (pm s') t 0x2000 = Some (PA2PTE 0x80001000 OR (PTE_R OR PTE_U) OR PTE_V, 0) \<and>
    xl 2 (pm s') t 0x3000 = None"
proof -
  obtain s t where e: "empty_space s t" using empty_space_ex by blast
  note E = empty_space_ok [OF e]
  have p: "0 < NCPU" "(8::u64) \<noteq> 0" "unat (0x1FFC::u64) + unat (8::u64) \<le> unat MAXVA"
    "\<forall>u<MAXVA. vpn 0x1FFC \<le> vpn u \<and> vpn u \<le> vpn (0x1FFC + 8 - 1) \<longrightarrow> xl 2 (pm s) t u = None"
    "2 = vpn (0x1FFC + 8 - 1) - vpn 0x1FFC + 1" using E(2) by (simp_all add: config MAXVA_def)
  obtain s' r j where m: "mappages Some 0 s t 0x1FFC 8 0x80000000 (PTE_R OR PTE_U) 0 = Some (s', r)"
    "if r = 0 then j = 2 else r = - 1 \<and> j < 2 \<and> kfree_set (km s') = {}"
    "\<forall>u<MAXVA. xl 2 (pm s') t u = mapped (xl 2 (pm s) t) 0x1FFC 0x80000000 (PTE_R OR PTE_U) j u"
    "Some = Some \<and> 2 * 2 < card (kfree_set (km s)) \<longrightarrow> r = 0"
    using mappages_correct [OF E(1) p(1) no_reclaim p(2-5), of "0x80000000" "PTE_R OR PTE_U"] by blast
  have r: "r = 0" "j = 2" using m(2,4) E(3) by auto
  have "(0x1000::u64) < MAXVA" "(0x2000::u64) < MAXVA" "(0x3000::u64) < MAXVA" by (simp_all add: MAXVA_def)
  then show ?thesis using e m(1,3) r E(2) by (intro exI [of _ s] exI [of _ t] exI [of _ s']) (simp add: mapped_def PGSIZE_def)
qed

text \<open>With two pages mapped for user reads and writes, at frames outside the allocator's memory.\<close>

definition demo_perm :: u64 where "demo_perm = PTE_R OR PTE_W OR PTE_U"

definition demo_space :: "mach \<Rightarrow> u64 \<Rightarrow> bool" where
  "demo_space s t \<longleftrightarrow> (\<exists>s0. empty_space s0 t \<and> mappages Some 0 s0 t 0x1000 0x2000 0x80000000 demo_perm 0 = Some (s, 0))"

lemma demo_step:
  assumes e: "empty_space s0 t"
  shows "\<exists>s. mappages Some 0 s0 t 0x1000 0x2000 0x80000000 demo_perm 0 = Some (s, 0) \<and> vm_ok s t \<and>
    (\<forall>u<MAXVA. xl 2 (pm s) t u = mapped (\<lambda>_. None) 0x1000 0x80000000 demo_perm 2 u)"
proof -
  note E = empty_space_ok [OF e]
  have p: "0 < NCPU" "(0x2000::u64) \<noteq> 0" "unat (0x1000::u64) + unat (0x2000::u64) \<le> unat MAXVA"
    "\<forall>u<MAXVA. vpn 0x1000 \<le> vpn u \<and> vpn u \<le> vpn (0x1000 + 0x2000 - 1) \<longrightarrow> xl 2 (pm s0) t u = None"
    "2 = vpn (0x1000 + 0x2000 - 1) - vpn 0x1000 + 1" using E(2) by (simp_all add: config MAXVA_def)
  have em: "xl 2 (pm s0) t = (\<lambda>_. None)" using E(2) by auto
  obtain s r j where m: "mappages Some 0 s0 t 0x1000 0x2000 0x80000000 demo_perm 0 = Some (s, r)" "vm_ok s t"
    "if r = 0 then j = 2 else r = - 1 \<and> j < 2 \<and> kfree_set (km s) = {}"
    "\<forall>u<MAXVA. xl 2 (pm s) t u = mapped (xl 2 (pm s0) t) 0x1000 0x80000000 demo_perm j u"
    "Some = Some \<and> 2 * 2 < card (kfree_set (km s0)) \<longrightarrow> r = 0"
    using mappages_ok [OF E(1) p(1) no_reclaim p(2-5), of "0x80000000" demo_perm] by blast
  have "r = 0" "j = 2" using m(3,5) E(3) by auto
  then show ?thesis using m unfolding em by auto
qed

lemma demo_ex: "\<exists>s t. demo_space s t"
  using empty_space_ex demo_step unfolding demo_space_def by blast

lemma tree_above: "vm_ok s t \<Longrightarrow> x \<in> tree_bytes 2 (pm s) t \<Longrightarrow> 0x82800000 \<le> x"
proof -
  assume ok: "vm_ok s t" and x: "x \<in> tree_bytes 2 (pm s) t"
  then obtain p where p: "p \<in> held (km s)" "unat p \<le> x" by (auto simp: vm_ok_def tree_bytes_def page_bytes_def)
  then obtain q where q: "q < 22528" "p = page_to_pa q" by (auto simp: held_def config)
  then have "unat p = q * 4096 + 0x82800000"
    by (simp add: page_to_pa_def PGSIZE_def START_MEM_def unat_add_lem [THEN iffD1] unat_mult_lem [THEN iffD1] unat_of_nat)
  then show ?thesis using p(2) by simp
qed

lemma demo_ok:
  assumes "demo_space s t"
  shows "vm_ok s t"
    "0x1000 \<le> unat va \<Longrightarrow> unat va < 0x3000 \<Longrightarrow> settled (xl 2 (pm s) t) va"
    "0x1000 \<le> unat va \<Longrightarrow> unat va < 0x3000 \<Longrightarrow> upa (xl 2 (pm s) t) va = unat va - 0x1000 + 0x80000000"
    "x \<in> tree_bytes 2 (pm s) t \<Longrightarrow> 0x82800000 \<le> x"
proof -
  obtain s0 where "empty_space s0 t" "mappages Some 0 s0 t 0x1000 0x2000 0x80000000 demo_perm 0 = Some (s, 0)"
    using assms by (auto simp: demo_space_def)
  then have ok: "vm_ok s t" and x: "\<And>u. u < MAXVA \<Longrightarrow> xl 2 (pm s) t u = mapped (\<lambda>_. None) 0x1000 0x80000000 demo_perm 2 u"
    using demo_step [of s0 t] by auto
  show "vm_ok s t" by (rule ok)
  show "x \<in> tree_bytes 2 (pm s) t \<Longrightarrow> 0x82800000 \<le> x" by (rule tree_above [OF ok])
  assume va: "0x1000 \<le> unat va" "unat va < 0x3000"
  let ?u = "PGROUNDDOWN va" let ?p = "0x80000000 + of_nat (vpn va - 1) * PGSIZE :: u64"
  have v: "vpn va = 1 \<or> vpn va = 2" using va by linarith
  have um: "?u < MAXVA" using va by (simp add: word_less_nat_alt unat_PGROUNDDOWN MAXVA_def)
  have vu: "vpn ?u = vpn va" by (simp add: unat_PGROUNDDOWN)
  have e: "xl 2 (pm s) t ?u = Some (PA2PTE ?p OR demo_perm OR PTE_V, 0)" using x [OF um] v vu by (auto simp: mapped_def)
  have al: "take_bit 12 ?p = 0" "?p \<noteq> 0" "unat ?p = 0x80000000 + (vpn va - 1) * 4096"
    using v by (auto simp: PGSIZE_def take_bit_eq_mod)
  have fl: "flags_ok (demo_perm OR PTE_V)" by (simp add: demo_perm_def)
  have U: "testb (demo_perm OR PTE_V) PTE_U" "testb (demo_perm OR PTE_V) PTE_W"
    by (simp_all add: demo_perm_def testb_or PTE_U_def PTE_W_def PTE_R_def PTE_V_def)
  have fr: "frame (xl 2 (pm s) t) ?u = ?p"
    using um e U PTE2PA_inverse [OF al(1) fl] by (simp add: frame_def)
  have "testb (PA2PTE ?p OR demo_perm OR PTE_V) PTE_W" unfolding testb_PA2PTE [OF flags_ok_bits(3)] by (rule U(2))
  then show "settled (xl 2 (pm s) t) va" using e al(2) fr unfolding settled_def present_def by metis
  have "unat va = 4096 * vpn va + unat va mod 4096" by simp
  then have "(vpn va - 1) * 4096 + unat va mod 4096 = unat va - 4096" using v by (elim disjE) linarith+
  then show "upa (xl 2 (pm s) t) va = unat va - 0x1000 + 0x80000000"
    unfolding upa_def fr al(3) by simp
qed

lemma demo_range:
  assumes d: "demo_space s t" and r: "0x1000 \<le> unat va" "unat va + n \<le> 0x3000"
  shows "k < n \<Longrightarrow> upa (xl 2 (pm s) t) (va + of_nat k) = unat va - 0x1000 + 0x80000000 + k"
    "k < n \<Longrightarrow> settled (xl 2 (pm s) t) (va + of_nat k)"
    "user_range (xl 2 (pm s) t) va n = {unat va - 0x1000 + 0x80000000..<unat va - 0x1000 + 0x80000000 + n}"
proof -
  have u: "unat (va + of_nat k) = unat va + k" if "k < n" for k
    using that r by (simp add: unat_add_lem [THEN iffD1] unat_of_nat)
  then show up: "upa (xl 2 (pm s) t) (va + of_nat k) = unat va - 0x1000 + 0x80000000 + k" if "k < n" for k
    using demo_ok(3) [OF d, of "va + of_nat k"] that r by simp
  show "k < n \<Longrightarrow> settled (xl 2 (pm s) t) (va + of_nat k)"
    using demo_ok(2) [OF d, of "va + of_nat k"] u r by simp
  have "user_range (xl 2 (pm s) t) va n = (\<lambda>k. unat va - 0x1000 + 0x80000000 + k) ` {..<n}"
    unfolding user_range_def by (rule image_cong) (simp_all add: up)
  also have "\<dots> = {unat va - 0x1000 + 0x80000000..<unat va - 0x1000 + 0x80000000 + n}"
    by (simp add: lessThan_atLeast0 add.commute)
  finally show "user_range (xl 2 (pm s) t) va n = {unat va - 0x1000 + 0x80000000..<unat va - 0x1000 + 0x80000000 + n}" .
qed

section \<open>Copies\<close>

text \<open>C15.  \<open>copyin\<close> into a kernel buffer that overlaps neither the page table nor the user bytes
  read returns 0 exactly when every byte of the user range lies on a present user page, and then the
  buffer holds those bytes, page boundaries included, and nothing else changed.  Otherwise it
  returns -1 and only the buffer may have changed.\<close>

theorem copyin_correct:
  assumes "vm_ok s t" "unat len + unat srcva < 2 ^ 64" "unat dst + unat len < 2 ^ 64"
    and "{unat dst..<unat dst + unat len} \<inter> (tree_bytes 2 (pm s) t \<union> user_range (xl 2 (pm s) t) srcva (unat len)) = {}"
  shows "\<exists>s' r. copyin af i t s dst srcva len = Some (s', r) \<and> km s' = km s \<and>
    (if \<forall>k<unat len. present (xl 2 (pm s) t) (srcva + of_nat k)
     then r = 0 \<and> pm s' = (\<lambda>x. if unat dst \<le> x \<and> x < unat dst + unat len
       then pm s (upa (xl 2 (pm s) t) (srcva + of_nat (x - unat dst))) else pm s x)
     else r = - 1 \<and> (\<forall>x. x \<notin> {unat dst..<unat dst + unat len} \<longrightarrow> pm s' x = pm s x))"
  by (rule copyin_ok [OF assms])

theorem copyin_correct_witness:
  "\<exists>s t s'. demo_space s t \<and> copyin Some 0 t s 0x80010000 0x1FFC 8 = Some (s', 0) \<and> pm s' 0x80010007 = pm s 0x80001003"
proof -
  obtain s t where d: "demo_space s t" using demo_ex by blast
  note R = demo_range [OF d, of "0x1FFC" 8, simplified]
  have "{unat (0x80010000::u64)..<unat (0x80010000::u64) + unat (8::u64)} \<inter>
      (tree_bytes 2 (pm s) t \<union> user_range (xl 2 (pm s) t) 0x1FFC (unat (8::u64))) = {}"
    using R(3) demo_ok(4) [OF d] by fastforce
  then obtain s' r where c: "copyin Some 0 t s 0x80010000 0x1FFC 8 = Some (s', r)"
    "if \<forall>k<unat (8::u64). present (xl 2 (pm s) t) (0x1FFC + of_nat k)
     then r = 0 \<and> pm s' = (\<lambda>x. if unat (0x80010000::u64) \<le> x \<and> x < unat (0x80010000::u64) + unat (8::u64)
       then pm s (upa (xl 2 (pm s) t) (0x1FFC + of_nat (x - unat (0x80010000::u64)))) else pm s x)
     else r = - 1 \<and> (\<forall>x. x \<notin> {unat (0x80010000::u64)..<unat (0x80010000::u64) + unat (8::u64)} \<longrightarrow> pm s' x = pm s x)"
    using copyin_correct [OF demo_ok(1) [OF d], of 8 "0x1FFC" "0x80010000" Some 0] by auto
  have "\<forall>k<unat (8::u64). present (xl 2 (pm s) t) (0x1FFC + of_nat k)" using R(2) by (simp add: settled_def)
  then have "r = 0" "pm s' 0x80010007 = pm s (upa (xl 2 (pm s) t) (0x1FFC + of_nat 7))" using c(2) by simp_all
  then show ?thesis using d c(1) R(1) [of 7] by auto
qed

text \<open>C8.  What \<open>copyout\<close> writes, \<open>copyin\<close> reads back: when the pages of the user range are
  present, not waiting for a copy on write, and no byte of the range is a page-table byte, a byte
  of the source or reached by two of its addresses, \<open>copyout\<close> returns 0, changes only those user
  bytes, and a \<open>copyin\<close> from the same user address puts the source bytes into the buffer.\<close>

theorem copyout_copyin_roundtrip:
  assumes "vm_ok (mc s) t" "unat len + unat va < 2 ^ 64" "unat src + unat len < 2 ^ 64" "unat dst + unat len < 2 ^ 64"
    and "f = xl 2 (pm (mc s)) t" "U = user_range f va (unat len)"
    and "U \<inter> (tree_bytes 2 (pm (mc s)) t \<union> {unat src..<unat src + unat len}) = {}"
    and "{unat dst..<unat dst + unat len} \<inter> (tree_bytes 2 (pm (mc s)) t \<union> U) = {}"
    and "inj_on (\<lambda>k. upa f (va + of_nat k)) {..<unat len}" "\<forall>k<unat len. settled f (va + of_nat k)"
  shows "\<exists>s1 m2. copyout af i fread mm t s va src len = Some (s1, 0) \<and>
    (\<forall>x. x \<notin> U \<longrightarrow> pm (mc s1) x = pm (mc s) x) \<and>
    copyin af i t (mc s1) dst va len = Some (m2, 0) \<and>
    (\<forall>k<unat len. pm m2 (unat dst + k) = pm (mc s) (unat src + k))"
proof -
  obtain m where c: "copyout af i fread mm t s va src len = Some (s\<lparr>mc := (mc s)\<lparr>pm := m\<rparr>\<rparr>, 0)"
    "\<forall>k<unat len. m (upa f (va + of_nat k)) = pm (mc s) (unat src + k)" "\<forall>x. x \<notin> U \<longrightarrow> m x = pm (mc s) x"
    using copyout_ok [OF assms(1-3), of af i fread mm] assms(5-7,9,10) by auto
  let ?s1 = "s\<lparr>mc := (mc s)\<lparr>pm := m\<rparr>\<rparr>"
  have "m x = pm (mc s) x" if "x \<in> tree_bytes 2 (pm (mc s)) t" for x using c(3) assms(7) that by blast
  note V = vm_ok_other_mem [OF assms(1) this]
  have d: "{unat dst..<unat dst + unat len} \<inter> (tree_bytes 2 (pm (mc ?s1)) t \<union> user_range (xl 2 (pm (mc ?s1)) t) va (unat len)) = {}"
    using V(2,3) assms(5,6,8) by simp
  have pr: "\<forall>k<unat len. present (xl 2 (pm (mc ?s1)) t) (va + of_nat k)" using V(2) assms(5,10) by (simp add: settled_def)
  have ok: "vm_ok (mc ?s1) t" using V(1) by simp
  from copyin_ok [OF ok assms(2,4) d, of af i] obtain m2 where m2: "copyin af i t (mc ?s1) dst va len = Some (m2, 0)"
    "pm m2 = (\<lambda>x. if unat dst \<le> x \<and> x < unat dst + unat len
       then pm (mc ?s1) (upa (xl 2 (pm (mc ?s1)) t) (va + of_nat (x - unat dst))) else pm (mc ?s1) x)"
    unfolding if_P [OF pr] by blast
  have "pm m2 (unat dst + k) = pm (mc s) (unat src + k)" if "k < unat len" for k
    using that m2(2) c(2) V(2) assms(5) by simp
  then show ?thesis using c(1,3) m2(1) by (intro exI [of _ ?s1] exI [of _ m2]) simp
qed

text \<open>The areas play no part when no page has to be faulted in.\<close>

definition no_areas :: mm_struct where
  "no_areas = \<lparr>head_vma = [], pagetable = 0, start_brk = 0, brk = 0, heapvma = None\<rparr>"

definition demo_sys :: "mach \<Rightarrow> vmsys" where
  "demo_sys s = \<lparr>mc = s, vmas = (\<lambda>_. \<lparr>vtype = VMA_ANON, startva = 0, vsize = 0, perm = 0, used = 0, offset = 0, vm_file = None\<rparr>),
     files = (\<lambda>_. \<lparr>f_count = 0, f_flags = 0\<rparr>)\<rparr>"

theorem copyout_copyin_roundtrip_witness:
  "\<exists>s t s1 m2. demo_space s t \<and> copyout Some 0 (\<lambda>_ _ _. Some) no_areas t (demo_sys s) 0x1FFC 0x80010000 8 = Some (s1, 0) \<and>
    copyin Some 0 t (mc s1) 0x80020000 0x1FFC 8 = Some (m2, 0) \<and> pm m2 0x80020007 = pm s 0x80010007"
proof -
  obtain s t where d: "demo_space s t" using demo_ex by blast
  note R = demo_range [OF d, of "0x1FFC" 8, simplified]
  note T = demo_ok(1,4) [OF d]
  let ?f = "xl 2 (pm s) t"
  have U: "user_range ?f 0x1FFC 8 = {0x80000FFC..<0x80001004}" using R(3) by simp
  have tr: "x \<notin> tree_bytes 2 (pm s) t" if "x < 0x82800000" for x using T(2) [of x] that by linarith
  have dis: "user_range ?f 0x1FFC 8 \<inter> (tree_bytes 2 (pm s) t \<union> {0x80010000..<0x80010008}) = {}"
    "{0x80020000..<0x80020008} \<inter> (tree_bytes 2 (pm s) t \<union> user_range ?f 0x1FFC 8) = {}"
    unfolding U using tr by (auto simp: disjoint_iff)
  have inj: "inj_on (\<lambda>k. upa ?f (0x1FFC + of_nat k)) {..<8}" by (rule inj_onI) (simp add: R(1))
  have "\<exists>s1 m2. copyout Some 0 (\<lambda>_ _ _. Some) no_areas t (demo_sys s) 0x1FFC 0x80010000 8 = Some (s1, 0) \<and>
    (\<forall>x. x \<notin> user_range ?f 0x1FFC 8 \<longrightarrow> pm (mc s1) x = pm (mc (demo_sys s)) x) \<and>
    copyin Some 0 t (mc s1) 0x80020000 0x1FFC 8 = Some (m2, 0) \<and>
    (\<forall>k<unat (8::u64). pm m2 (unat (0x80020000::u64) + k) = pm (mc (demo_sys s)) (unat (0x80010000::u64) + k))"
    using T(1) dis inj R(2) by (intro copyout_copyin_roundtrip [where f = ?f]) (simp_all add: demo_sys_def)
  then obtain s1 m2 where "copyout Some 0 (\<lambda>_ _ _. Some) no_areas t (demo_sys s) 0x1FFC 0x80010000 8 = Some (s1, 0)"
    "copyin Some 0 t (mc s1) 0x80020000 0x1FFC 8 = Some (m2, 0)"
    "\<forall>k<unat (8::u64). pm m2 (unat (0x80020000::u64) + k) = pm (mc (demo_sys s)) (unat (0x80010000::u64) + k)" by blast
  moreover from this(3) [rule_format, of 7] have "pm m2 0x80020007 = pm s 0x80010007" by (simp add: demo_sys_def)
  ultimately show ?thesis using d by blast
qed

end
