(* ===== verification/Vm_Unmap.thy ===== *)
theory Vm_Unmap
  imports Vm_Map
begin

text \<open>
  \<open>uvmunmap\<close> of a range of ordinary pages: the entries go, and each frame loses one reference.
\<close>

text \<open>A reference to page \<open>q\<close> is gone; the last one frees it.\<close>

definition dropped :: "kmem \<Rightarrow> kmem \<Rightarrow> nat \<Rightarrow> bool" where
  "dropped k k' q \<longleftrightarrow> (if refcnt (kpages k q) = 1 then \<not> allocated (kpages k' q)
     else allocated (kpages k' q) \<and> refcnt (kpages k' q) = refcnt (kpages k q) - 1)"

lemma kfree_drops:
  assumes ok: "kmem_ok k" and q: "q < NPAGES" "allocated (kpages k q)"
  shows "\<exists>k'. kfree i (page_to_pa q) k = Some k' \<and> kmem_ok k' \<and> dropped k k' q \<and>
    (\<forall>p. p \<noteq> q \<longrightarrow> allocated (kpages k' p) = allocated (kpages k p)) \<and>
    (\<forall>p. p \<noteq> q \<longrightarrow> allocated (kpages k p) \<longrightarrow> kpages k' p = kpages k p)"
proof -
  have r: "1 \<le> refcnt (kpages k q)" using ok q by (auto simp: kmem_ok_def counts_ok_def split: if_splits)
  show ?thesis
  proof (cases "refcnt (kpages k q) = 1")
    case True
    then show ?thesis using kfree_last [OF ok q(1) True, of i] by (auto simp: dropped_def)
  next
    case False
    then show ?thesis using kfree_shared [OF ok q(1), of i] r by (auto simp: dropped_def)
  qed
qed

text \<open>The page that is mapped at a page number, by a small page of the tree.\<close>

definition leaf_of :: "(u64 \<Rightarrow> (u64 \<times> nat) option) \<Rightarrow> nat \<Rightarrow> nat \<Rightarrow> bool" where
  "leaf_of f v q \<longleftrightarrow> (\<exists>u e l. u < MAXVA \<and> vpn u = v \<and> f u = Some (e, l) \<and> PTE2PA e = page_to_pa q)"

text \<open>What the range must be like: small pages with permissions, on frames of the allocator that are
  not tables, no frame twice.\<close>

definition unmappable :: "mach \<Rightarrow> u64 \<Rightarrow> nat \<Rightarrow> nat \<Rightarrow> bool" where
  "unmappable s t v n \<longleftrightarrow>
     (\<forall>u e l. u < MAXVA \<and> v \<le> vpn u \<and> vpn u < v + n \<and> xl 2 (pm s) t u = Some (e, l) \<longrightarrow>
        l = 0 \<and> PTE_FLAGS e \<noteq> PTE_V \<and>
        (\<exists>q<NPAGES. PTE2PA e = page_to_pa q \<and> allocated (kpages (km s) q) \<and> page_to_pa q \<notin> tabs 2 (pm s) t)) \<and>
     (\<forall>u u' e e' l l'. u < MAXVA \<and> v \<le> vpn u \<and> vpn u < v + n \<and> xl 2 (pm s) t u = Some (e, l) \<and>
        u' < MAXVA \<and> v \<le> vpn u' \<and> vpn u' < v + n \<and> xl 2 (pm s) t u' = Some (e', l') \<and> PTE2PA e = PTE2PA e' \<longrightarrow> vpn u = vpn u')"

definition unmapped :: "(u64 \<Rightarrow> (u64 \<times> nat) option) \<Rightarrow> nat \<Rightarrow> nat \<Rightarrow> u64 \<Rightarrow> (u64 \<times> nat) option" where
  "unmapped f v n u = (if v \<le> vpn u \<and> vpn u < v + n then None else f u)"

text \<open>The outcome for the pages: those mapped in the range lose a reference, the others stay.\<close>

definition released :: "(u64 \<Rightarrow> (u64 \<times> nat) option) \<Rightarrow> nat \<Rightarrow> nat \<Rightarrow> bool \<Rightarrow> kmem \<Rightarrow> kmem \<Rightarrow> bool" where
  "released f v n do_free k k' \<longleftrightarrow> (\<forall>q<NPAGES. allocated (kpages k q) \<longrightarrow>
     (if do_free \<and> (\<exists>w. v \<le> w \<and> w < v + n \<and> leaf_of f w q) then dropped k k' q else kpages k' q = kpages k q)) \<and>
   (\<forall>q<NPAGES. \<not> allocated (kpages k q) \<longrightarrow> \<not> allocated (kpages k' q))"

lemma entry_of:
  assumes ok: "vm_ok s t" and x: "xl 2 (pm s) t a = Some (e, 0)"
  shows "\<exists>pte. stop 2 0 (pm s) t a = Some (pte, 0) \<and> pte \<noteq> 0 \<and> ld64 (pm s) pte = e \<and> testb e PTE_V"
proof -
  obtain pte l where p: "stop 2 0 (pm s) t a = Some (pte, l)" "leaf_view (ld64 (pm s) pte) l = Some (e, 0)"
    using x xl_stop2 [OF ok, of a] by (auto split: option.splits)
  then show ?thesis using stop_level(1) [OF ok p(1)] by (auto simp: leaf_view_def split: if_splits)
qed

text \<open>One round at a mapped page.\<close>

lemma unmap_entry:
  assumes ok: "vm_ok s t" and a: "a < MAXVA" and x: "xl 2 (pm s) t a = Some (e, 0)"
    and q: "q < NPAGES" "PTE2PA e = page_to_pa q" "allocated (kpages (km s) q)" "page_to_pa q \<notin> tabs 2 (pm s) t"
  shows "\<exists>pte s2 s3. stop 2 0 (pm s) t a = Some (pte, 0) \<and> load s pte = Some e \<and> testb e PTE_V \<and> pte \<noteq> 0 \<and>
    (if do_free then kfree_s i (PTE2PA e) s else Some s) = Some s2 \<and> store s2 pte 0 = Some s3 \<and> vm_ok s3 t \<and>
    tabs 2 (pm s3) t = tabs 2 (pm s) t \<and> (\<forall>y. y \<notin> tree_bytes 2 (pm s) t \<longrightarrow> pm s3 y = pm s y) \<and>
    (\<forall>u<MAXVA. xl 2 (pm s3) t u = unmapped (xl 2 (pm s) t) (vpn a) 1 u) \<and>
    (if do_free then dropped (km s) (km s3) q else km s3 = km s) \<and>
    (\<forall>p. p \<noteq> q \<longrightarrow> allocated (kpages (km s3) p) = allocated (kpages (km s) p)) \<and>
    (\<forall>p. p \<noteq> q \<longrightarrow> allocated (kpages (km s) p) \<longrightarrow> kpages (km s3) p = kpages (km s) p)"
proof -
  obtain pte where p: "stop 2 0 (pm s) t a = Some (pte, 0)" "pte \<noteq> 0" "ld64 (pm s) pte = e" "testb e PTE_V"
    using entry_of [OF ok x] by blast
  have k: "kmem_ok (km s)" using ok by (simp add: vm_ok_def)
  obtain k' where k': "kfree i (page_to_pa q) (km s) = Some k'" "kmem_ok k'" "dropped (km s) k' q"
    "\<forall>p. p \<noteq> q \<longrightarrow> allocated (kpages (km s) p) \<longrightarrow> kpages k' p = kpages (km s) p"
    "\<forall>p. p \<noteq> q \<longrightarrow> allocated (kpages k' p) = allocated (kpages (km s) p)" using kfree_drops [OF k q(1,3)] by blast
  define s2 where "s2 = (if do_free then s\<lparr>km := k'\<rparr> else s)"
  have s2: "(if do_free then kfree_s i (PTE2PA e) s else Some s) = Some s2" "pm s2 = pm s"
    using k'(1) q(2) by (simp_all add: s2_def kfree_s_def)
  have "held (km s) - {page_to_pa q} \<subseteq> held (km s2)"
  proof
    fix y assume "y \<in> held (km s) - {page_to_pa q}"
    then obtain p where "p < NPAGES" "allocated (kpages (km s) p)" "y = page_to_pa p" "p \<noteq> q" by (auto simp: held_def)
    then show "y \<in> held (km s2)" using k'(4) by (auto simp: held_def s2_def)
  qed
  then have ok2: "vm_ok s2 t" using ok q(4) k'(2) s2(2) by (auto simp: vm_ok_def s2_def)
  have st: "stop 2 0 (pm s2) t a = Some (pte, 0)" using p(1) s2(2) by simp
  let ?s3 = "s2\<lparr>pm := st64 (pm s2) pte 0\<rparr>"
  note X = xl_store(1) [OF ok2 st a, of 0] and X2 = xl_store(2) [OF ok2 st a, where v = 0]
  have ok3: "vm_ok ?s3 t" using X by (simp add: vm_step_def)
  have tb: "tabs 2 (pm ?s3) t = tabs 2 (pm s) t" "\<forall>y. y \<notin> tree_bytes 2 (pm ?s3) t \<longrightarrow> pm ?s3 y = pm s y"
    using X s2(2) by (auto simp: vm_step_def sub_upd_def)
  have "xl 2 (pm ?s3) t u = unmapped (xl 2 (pm s) t) (vpn a) 1 u" if "u < MAXVA" for u
    using X2 [OF that] s2(2) by (auto simp: unmapped_def leaf_view_def)
  moreover have "load s pte = Some e" using p(2,3) by (simp add: load_def)
  moreover have "store s2 pte 0 = Some ?s3" using p(2) by (simp add: store_def)
  moreover have "if do_free then dropped (km s) (km ?s3) q else km ?s3 = km s" using k'(3) by (simp add: s2_def)
  moreover have "\<forall>p. p \<noteq> q \<longrightarrow> allocated (kpages (km s) p) \<longrightarrow> kpages (km ?s3) p = kpages (km s) p"
    using k'(4) by (simp add: s2_def)
  moreover have "\<forall>p. p \<noteq> q \<longrightarrow> allocated (kpages (km ?s3) p) = allocated (kpages (km s) p)" using k'(5) by (simp add: s2_def)
  moreover have "\<forall>y. y \<notin> tree_bytes 2 (pm s) t \<longrightarrow> pm ?s3 y = pm s y" using tb by (simp add: tree_bytes_def)
  ultimately show ?thesis using p(1,2,4) s2(1) ok3 tb(1) by blast
qed

text \<open>The translation is the same for all addresses of a page.\<close>

lemma xl_agree: "agree 0 l u a \<Longrightarrow> xl l m t u = xl l m t a"
  by (induction l arbitrary: t) (auto simp: agree_Suc agree_def Let_def)

lemma xl_page: "u < MAXVA \<Longrightarrow> a < MAXVA \<Longrightarrow> vpn u = vpn a \<Longrightarrow> xl 2 m t u = xl 2 m t a"
  using agree_vpn xl_agree by blast

lemma leaf_of_page:
  assumes "a < MAXVA"
  shows "leaf_of (xl 2 m t) (vpn a) q \<longleftrightarrow> (\<exists>e l. xl 2 m t a = Some (e, l) \<and> PTE2PA e = page_to_pa q)"
  using assms xl_page [OF _ assms] unfolding leaf_of_def by metis

definition unmap_post :: "mach \<Rightarrow> u64 \<Rightarrow> nat \<Rightarrow> nat \<Rightarrow> bool \<Rightarrow> mach \<Rightarrow> bool" where
  "unmap_post s t v n do_free s' \<longleftrightarrow> vm_ok s' t \<and> tabs 2 (pm s') t = tabs 2 (pm s) t \<and>
     (\<forall>y. y \<notin> tree_bytes 2 (pm s) t \<longrightarrow> pm s' y = pm s y) \<and>
     (\<forall>u<MAXVA. xl 2 (pm s') t u = unmapped (xl 2 (pm s) t) v n u) \<and>
     released (xl 2 (pm s) t) v n do_free (km s) (km s')"

lemma first_or_rest:
  "(\<exists>w. v \<le> w \<and> w < v + Suc n \<and> P w) \<longleftrightarrow> P v \<or> (\<exists>w. v + 1 \<le> w \<and> w < v + 1 + n \<and> P (w :: nat))" (is "?L \<longleftrightarrow> ?R")
proof
  assume ?L
  then obtain w where w: "v \<le> w" "w < v + Suc n" "P w" by blast
  show ?R
  proof (cases "w = v")
    case False
    then have "v + 1 \<le> w" "w < v + 1 + n" using w by auto
    then show ?R using w(3) by blast
  next
    case True
    then show ?R using w(3) by simp
  qed
next
  assume ?R
  then show ?L
  proof
    assume "P v"
    then show ?L by (intro exI [of _ v]) simp
  next
    assume "\<exists>w. v + 1 \<le> w \<and> w < v + 1 + n \<and> P w"
    then obtain w where "v + 1 \<le> w" "w < v + 1 + n" "P w" by blast
    then show ?L by (intro exI [of _ w]) simp
  qed
qed

text \<open>A round at an unmapped page, and one at a mapped page, in front of the rest.\<close>

lemma unmap_post_skip:
  assumes a: "a < MAXVA" "xl 2 (pm s) t a = None" and r: "unmap_post s t (vpn a + 1) n do_free s'"
  shows "unmap_post s t (vpn a) (Suc n) do_free s'"
proof -
  let ?f = "xl 2 (pm s) t"
  have "unmapped ?f (vpn a) (Suc n) u = unmapped ?f (vpn a + 1) n u" if "u < MAXVA" for u
    using xl_page [OF that a(1)] a(2) by (auto simp: unmapped_def)
  moreover have "(\<exists>w. vpn a \<le> w \<and> w < vpn a + Suc n \<and> leaf_of ?f w q) \<longleftrightarrow> (\<exists>w. vpn a + 1 \<le> w \<and> w < vpn a + 1 + n \<and> leaf_of ?f w q)" for q
  proof -
    have "\<not> leaf_of ?f (vpn a) q" using leaf_of_page [OF a(1)] a(2) by simp
    then show ?thesis unfolding first_or_rest by blast
  qed
  ultimately show ?thesis using r unfolding unmap_post_def released_def by simp
qed

lemma unmap_post_entry:
  assumes a: "a < MAXVA" "xl 2 (pm s) t a = Some (e, 0)" and U: "unmappable s t (vpn a) (Suc n)"
    and q: "q < NPAGES" "PTE2PA e = page_to_pa q" "allocated (kpages (km s) q)"
    and s3: "vm_ok s3 t" "tabs 2 (pm s3) t = tabs 2 (pm s) t" "\<forall>y. y \<notin> tree_bytes 2 (pm s) t \<longrightarrow> pm s3 y = pm s y"
      "\<forall>u<MAXVA. xl 2 (pm s3) t u = unmapped (xl 2 (pm s) t) (vpn a) 1 u"
      "if do_free then dropped (km s) (km s3) q else km s3 = km s"
      "\<forall>p. p \<noteq> q \<longrightarrow> allocated (kpages (km s3) p) = allocated (kpages (km s) p)"
      "\<forall>p. p \<noteq> q \<longrightarrow> allocated (kpages (km s) p) \<longrightarrow> kpages (km s3) p = kpages (km s) p"
    and r: "unmap_post s3 t (vpn a + 1) n do_free s'"
  shows "unmap_post s t (vpn a) (Suc n) do_free s'"
proof -
  let ?f = "xl 2 (pm s) t" let ?f3 = "xl 2 (pm s3) t"
  have R: "\<And>y. y \<notin> tree_bytes 2 (pm s3) t \<Longrightarrow> pm s' y = pm s3 y" "\<And>u. u < MAXVA \<Longrightarrow> xl 2 (pm s') t u = unmapped ?f3 (vpn a + 1) n u"
    "\<And>q. q < NPAGES \<Longrightarrow> allocated (kpages (km s3) q) \<Longrightarrow>
       (if do_free \<and> (\<exists>w. vpn a + 1 \<le> w \<and> w < vpn a + 1 + n \<and> leaf_of ?f3 w q) then dropped (km s3) (km s') q else kpages (km s') q = kpages (km s3) q)"
    "\<And>q. q < NPAGES \<Longrightarrow> \<not> allocated (kpages (km s3) q) \<Longrightarrow> \<not> allocated (kpages (km s') q)"
    using r unfolding unmap_post_def released_def by blast+
  have tb: "tree_bytes 2 (pm s3) t = tree_bytes 2 (pm s) t" using s3(2) by (simp add: tree_bytes_def)
  have leaf3: "leaf_of ?f3 w p = leaf_of ?f w p" if "vpn a + 1 \<le> w" for w p
    unfolding leaf_of_def using s3(4) that by (intro ex_cong1) (auto simp: unmapped_def)
  have here: "leaf_of ?f (vpn a) p \<longleftrightarrow> p = q" if "p < NPAGES" for p
    using leaf_of_page [OF a(1), of "pm s" t p] a(2) q(1,2) page_to_pa_inject [OF q(1) that] by auto
  have one: "\<not> leaf_of ?f w q" if w: "vpn a + 1 \<le> w" "w < vpn a + 1 + n" for w
  proof
    assume "leaf_of ?f w q"
    then obtain u e' l where "u < MAXVA" "vpn u = w" "?f u = Some (e', l)" "PTE2PA e' = PTE2PA e" using q(2) by (auto simp: leaf_of_def)
    moreover have "vpn a \<le> vpn u" "vpn u < vpn a + Suc n" using calculation(2) w by linarith+
    ultimately have "vpn u = vpn a" using U a unfolding unmappable_def by fastforce
    then show False using \<open>vpn u = w\<close> w by simp
  qed
  have spl: "(\<exists>w. vpn a \<le> w \<and> w < vpn a + Suc n \<and> leaf_of ?f w p) \<longleftrightarrow>
      leaf_of ?f (vpn a) p \<or> (\<exists>w. vpn a + 1 \<le> w \<and> w < vpn a + 1 + n \<and> leaf_of ?f w p)" for p
    by (rule first_or_rest)
  have "released ?f (vpn a) (Suc n) do_free (km s) (km s')"
    unfolding released_def spl
  proof (intro conjI allI impI)
    fix p assume p: "p < NPAGES" "allocated (kpages (km s) p)"
    show "if do_free \<and> (leaf_of ?f (vpn a) p \<or> (\<exists>w. vpn a + 1 \<le> w \<and> w < vpn a + 1 + n \<and> leaf_of ?f w p))
      then dropped (km s) (km s') p else kpages (km s') p = kpages (km s) p"
    proof (cases "p = q")
      case True
      have nl: "\<not> (\<exists>w. vpn a + 1 \<le> w \<and> w < vpn a + 1 + n \<and> leaf_of ?f3 w q)" using one leaf3 by blast
      show ?thesis
      proof (cases "do_free")
        case do_free: True
        have "dropped (km s) (km s') q"
        proof (cases "allocated (kpages (km s3) q)")
          case True
          then have "kpages (km s') q = kpages (km s3) q" using R(3) [OF q(1) True] nl by auto
          then show ?thesis using s3(5) do_free by (simp add: dropped_def)
        next
          case False
          then show ?thesis using R(4) [OF q(1) False] s3(5) do_free by (auto simp: dropped_def split: if_splits)
        qed
        then show ?thesis using True here [OF q(1)] do_free by simp
      next
        case False
        then show ?thesis using True R(3) [OF q(1)] s3(5) q(3) by simp
      qed
    next
      case False
      then have k3: "allocated (kpages (km s3) p)" "kpages (km s3) p = kpages (km s) p" using s3(6,7) p(2) by auto
      have d: "dropped (km s3) (km s') p = dropped (km s) (km s') p" using k3(2) by (simp add: dropped_def)
      have l: "(\<exists>w. vpn a + 1 \<le> w \<and> w < vpn a + 1 + n \<and> leaf_of ?f3 w p) = (\<exists>w. vpn a + 1 \<le> w \<and> w < vpn a + 1 + n \<and> leaf_of ?f w p)"
        using leaf3 by blast
      have nh: "leaf_of ?f (vpn a) p = False" using here [OF p(1)] False by simp
      show ?thesis using R(3) [OF p(1) k3(1)] unfolding d l k3(2) nh simp_thms .
    qed
  next
    fix p assume "p < NPAGES" "\<not> allocated (kpages (km s) p)"
    moreover from this have "p \<noteq> q" using q(3) by auto
    ultimately show "\<not> allocated (kpages (km s') p)" using R(4) [of p] s3(6) by simp
  qed
  moreover have "xl 2 (pm s') t u = unmapped ?f (vpn a) (Suc n) u" if "u < MAXVA" for u
    using R(2) [OF that] s3(4) that by (auto simp: unmapped_def)
  moreover have "tabs 2 (pm s') t = tabs 2 (pm s) t" "vm_ok s' t" using r s3(2) by (auto simp: unmap_post_def)
  moreover have "pm s' y = pm s y" if "y \<notin> tree_bytes 2 (pm s) t" for y using R(1) [of y] s3(3) tb that by simp
  ultimately show ?thesis unfolding unmap_post_def by blast
qed

lemma unmappable_rest: "unmappable s t v (Suc n) \<Longrightarrow> unmappable s t (v + 1) n"
proof -
  assume u: "unmappable s t v (Suc n)"
  have "v \<le> w \<and> w < v + Suc n" if "v + 1 \<le> w" "w < v + 1 + n" for w using that by simp
  then show ?thesis using u unfolding unmappable_def by (meson)
qed

lemma unmappable_after:
  assumes U: "unmappable s t (vpn a) (Suc n)" and a: "a < MAXVA" "xl 2 (pm s) t a = Some (e, 0)" and q: "PTE2PA e = page_to_pa q"
    and s3: "tabs 2 (pm s3) t = tabs 2 (pm s) t" "\<forall>u<MAXVA. xl 2 (pm s3) t u = unmapped (xl 2 (pm s) t) (vpn a) 1 u"
      "\<forall>p. p \<noteq> q \<longrightarrow> allocated (kpages (km s3) p) = allocated (kpages (km s) p)"
  shows "unmappable s3 t (vpn a + 1) n"
proof -
  let ?f = "xl 2 (pm s) t"
  have f3: "xl 2 (pm s3) t u = ?f u" if "u < MAXVA" "vpn a + 1 \<le> vpn u" for u using s3(2) that by (auto simp: unmapped_def)
  have in1: "vpn a \<le> vpn u \<and> vpn u < vpn a + Suc n \<and> vpn u \<noteq> vpn a" if "vpn a + 1 \<le> vpn u" "vpn u < vpn a + 1 + n" for u using that by auto
  have ina: "vpn a \<le> vpn a \<and> vpn a < vpn a + Suc n" by simp
  note U1 = conjunct1 [OF U [unfolded unmappable_def], rule_format] and U2 = conjunct2 [OF U [unfolded unmappable_def], rule_format]
  show ?thesis unfolding unmappable_def
  proof (intro conjI allI impI, goal_cases)
    case (1 u e' l)
    then show ?case using f3 in1 U1 [of u e' l] by auto
  next
    case (2 u e' l)
    then show ?case using f3 in1 U1 [of u e' l] by auto
  next
    case (3 u e' l)
    then have u: "u < MAXVA" "vpn a \<le> vpn u" "vpn u < vpn a + Suc n" "vpn u \<noteq> vpn a" "?f u = Some (e', l)" using f3 in1 by auto
    then obtain p where p: "p < NPAGES" "PTE2PA e' = page_to_pa p" "allocated (kpages (km s) p)" "page_to_pa p \<notin> tabs 2 (pm s) t"
      using U1 [of u e' l] by auto
    have "p \<noteq> q" using U2 [of u e' l a e 0] u a ina p(2) q by auto
    then show ?case using p s3(1,3) by auto
  next
    case (4 u u' e' e'' l l')
    then have u: "u < MAXVA" "vpn a \<le> vpn u" "vpn u < vpn a + Suc n" "?f u = Some (e', l)"
      "u' < MAXVA" "vpn a \<le> vpn u'" "vpn u' < vpn a + Suc n" "?f u' = Some (e'', l')" "PTE2PA e' = PTE2PA e''" using f3 in1 by auto
    then show ?case using U2 [of u e' l u' e'' l'] by auto
  qed
qed

lemma unmappable_entry:
  assumes "unmappable s t (vpn a) (Suc n)" "a < MAXVA" "xl 2 (pm s) t a = Some (e, l)"
  shows "l = 0" "PTE_FLAGS e \<noteq> PTE_V"
    "\<exists>q<NPAGES. PTE2PA e = page_to_pa q \<and> allocated (kpages (km s) q) \<and> page_to_pa q \<notin> tabs 2 (pm s) t"
  using conjunct1 [OF assms(1) [unfolded unmappable_def], rule_format, of a e l] assms(2,3) by simp_all

lemma unmap_loop_ok:
  assumes "vm_ok s t" "unat a + n * 4096 \<le> 2 ^ 38" "unat endva = unat a + n * 4096" "unmappable s t (vpn a) n"
  shows "\<exists>s'. unmap_loop af i ua t va endva do_free True n s a = Some s' \<and> unmap_post s t (vpn a) n do_free s'"
  using assms
proof (induction n arbitrary: s a)
  case 0
  then have "\<not> a < endva" by (simp add: word_less_nat_alt)
  moreover have "unmap_post s t (vpn a) 0 do_free s"
    using 0(1) by (auto simp: unmap_post_def unmapped_def released_def)
  ultimately show ?case by simp
next
  case (Suc n)
  have a: "a < MAXVA" "a < endva" using Suc(3,4) by (simp_all add: MAXVA_def word_less_nat_alt)
  have room: "unat a + 4096 < 2 ^ 64" using Suc(3) by simp
  have nx: "unat (a + PGSIZE) + n * 4096 \<le> 2 ^ 38" "unat endva = unat (a + PGSIZE) + n * 4096" "vpn (a + PGSIZE) = vpn a + 1"
    using Suc(3,4) vpn_next [OF room] by simp_all
  have rest: "\<exists>s'. unmap_loop af i ua t va endva do_free True n s1 (a + PGSIZE) = Some s' \<and> unmap_post s1 t (vpn a + 1) n do_free s'"
    if "vm_ok s1 t" "unmappable s1 t (vpn a + 1) n" for s1
    using Suc(1) [OF that(1) nx(1,2)] that(2) nx(3) by simp
  have w: "walk af i s t a False 0 = Some (case stop 2 0 (pm s) t a of None \<Rightarrow> (s, 0, - 1) | Some (p, l) \<Rightarrow> (s, p, int l))"
    by (rule walk_lookup [OF Suc(2) a(1)])
  show ?case
  proof (cases "xl 2 (pm s) t a")
    case None
    have "unmap_loop af i ua t va endva do_free True (Suc n) s a = unmap_loop af i ua t va endva do_free True n s (a + PGSIZE)"
    proof (cases "stop 2 0 (pm s) t a")
      case st: None
      then show ?thesis using w a(2) by simp
    next
      case (Some pl)
      obtain p l where p: "stop 2 0 (pm s) t a = Some (p, l)" using Some by (cases pl) auto
      have "\<not> testb (ld64 (pm s) p) PTE_V" using None xl_stop2 [OF Suc(2), of a] p by (simp add: leaf_view_def split: if_splits)
      then show ?thesis using w a(2) p stop_level(1) [OF Suc(2) p] by (simp add: load_def)
    qed
    then show ?thesis using rest [OF Suc(2) unmappable_rest [OF Suc(5)]] unmap_post_skip [OF a(1) None] by auto
  next
    case (Some el)
    obtain e l where el: "xl 2 (pm s) t a = Some (e, l)" using Some by (cases el) auto
    note M = unmappable_entry [OF Suc(5) a(1) el]
    have e: "xl 2 (pm s) t a = Some (e, 0)" "PTE_FLAGS e \<noteq> PTE_V" using el M(1,2) by simp_all
    obtain q where q: "q < NPAGES" "PTE2PA e = page_to_pa q" "allocated (kpages (km s) q)" "page_to_pa q \<notin> tabs 2 (pm s) t"
      using M(3) by blast
    obtain pte s2 s3 where E: "stop 2 0 (pm s) t a = Some (pte, 0)" "load s pte = Some e" "testb e PTE_V" "pte \<noteq> 0"
      "(if do_free then kfree_s i (PTE2PA e) s else Some s) = Some s2" "store s2 pte 0 = Some s3"
      and s3: "vm_ok s3 t" "tabs 2 (pm s3) t = tabs 2 (pm s) t" "\<forall>y. y \<notin> tree_bytes 2 (pm s) t \<longrightarrow> pm s3 y = pm s y"
      "\<forall>u<MAXVA. xl 2 (pm s3) t u = unmapped (xl 2 (pm s) t) (vpn a) 1 u"
      "if do_free then dropped (km s) (km s3) q else km s3 = km s"
      "\<forall>p. p \<noteq> q \<longrightarrow> allocated (kpages (km s3) p) = allocated (kpages (km s) p)"
      "\<forall>p. p \<noteq> q \<longrightarrow> allocated (kpages (km s) p) \<longrightarrow> kpages (km s3) p = kpages (km s) p"
      using unmap_entry [OF Suc(2) a(1) e(1) q, of do_free i] by blast
    have "unmap_loop af i ua t va endva do_free True (Suc n) s a = unmap_loop af i ua t va endva do_free True n s3 (a + PGSIZE)"
      using w a(2) E e(2) by (simp add: SUPERPAGE_def split del: if_split)
    then show ?thesis
      using rest [OF s3(1) unmappable_after [OF Suc(5) a(1) e(1) q(2) s3(2,4,6)]]
        unmap_post_entry [OF a(1) e(1) Suc(5) q(1-3) s3] by auto
  qed
qed

section \<open>The depth of nested calls\<close>

text \<open>An unmap that starts at a superpage boundary allocates nothing, and the unmap inside an
  unmap starts at one; so one level of nesting is all there is.\<close>

lemma unmap_loop_cong:
  assumes "\<And>s a flg. ua s (SUPERPG_DOWN a) a flg = ub s (SUPERPG_DOWN a) a flg"
  shows "unmap_loop af i ua t va endva do_free dm n s a = unmap_loop af i ub t va endva do_free dm n s a"
proof (induction n arbitrary: s a)
  case (Suc n)
  then show ?case unfolding unmap_loop.simps by (simp add: assms cong: if_cong)
qed simp

lemma unmap_loop_aligned:
  assumes "SUPERPG_DOWN va = va"
  shows "unmap_loop af i ua t va endva do_free dm n s a = unmap_loop af i ub t va endva do_free dm n s a"
proof (induction n arbitrary: s a)
  case (Suc n)
  have c: "(a \<noteq> SUPERPG_DOWN a \<and> a = va) = False" using assms by auto
  show ?case unfolding unmap_loop.simps c if_False by (simp add: Suc cong: if_cong)
qed simp

lemma alloc_loop_cong:
  assumes "\<And>s a. da s a startva = db s a startva"
  shows "alloc_loop af i da t startva lim prm level n s a = alloc_loop af i db t startva lim prm level n s a"
proof (induction n arbitrary: s a)
  case (Suc n)
  then show ?case unfolding alloc_loop.simps by (simp add: assms Let_def cong: if_cong)
qed simp

lemma alloc_body_cong:
  assumes "\<And>s a. da s a startva = db s a startva"
  shows "alloc_body af i da t s startva endva prm = alloc_body af i db t s startva endva prm"
  unfolding alloc_body_def Let_def alloc_loop_cong [of da startva db, OF assms] by (rule refl)

lemma ROUND_UP_aligned: "PGROUNDUP (SUPERPG_DOWN a) = SUPERPG_DOWN a" "SUPERPG_DOWN (SUPERPG_DOWN a) = SUPERPG_DOWN a"
proof -
  let ?d = "SUPERPG_DOWN a"
  have d: "unat ?d = unat a div 2 ^ 21 * 2 ^ 21"
    using unat_ROUND_DOWN [of SUPERPGSIZE 21 a] by (simp add: SUPERPG_DOWN_def SUPERPGSIZE_def)
  have "unat ?d div 2 ^ 21 * 2 ^ 21 = unat ?d" unfolding d by simp
  then show "SUPERPG_DOWN ?d = ?d"
    using unat_ROUND_DOWN [of SUPERPGSIZE 21 ?d] by (simp add: SUPERPG_DOWN_def SUPERPGSIZE_def word_unat_eq_iff)
  have "unat a < 2 ^ 64" using unsigned_less [of a] by simp
  then have q: "unat a div 2 ^ 21 < 2 ^ 43" by (simp add: div_less_iff_less_mult)
  then have "unat ?d + 4095 < 2 ^ 64" unfolding d by simp
  then have "unat (?d + (PGSIZE - 1)) = unat ?d + 4095" by (simp add: PGSIZE_def unat_add_lem [THEN iffD1])
  moreover have "(unat ?d + 4095) div 2 ^ 12 * 2 ^ 12 = unat ?d" unfolding d by simp
  ultimately show "PGROUNDUP ?d = ?d"
    using unat_ROUND_DOWN [of PGSIZE 12 "?d + (PGSIZE - 1)"] unfolding PGROUNDUP_def ROUND_UP_eq
    by (simp add: PGSIZE_def word_unat_eq_iff)
qed

lemma unmap_depth_enough: "unmap_depth (Suc d) af i t s va npages do_free dm = uvmunmap af i t s va npages do_free dm"
proof -
  have inner: "unmap_depth d af i t s (SUPERPG_DOWN a) m f g = unmap_depth 0 af i t s (SUPERPG_DOWN a) m f g" for s a m f g
    using unmap_loop_aligned [OF ROUND_UP_aligned(2)] by (cases d) (simp_all add: unmap_body_def)
  have "alloc_body af i (dealloc_body (unmap_depth d af i t)) t s (SUPERPG_DOWN a) a flg =
      alloc_body af i (dealloc_body (unmap_depth 0 af i t)) t s (SUPERPG_DOWN a) a flg" for s a flg
  proof (rule alloc_body_cong)
    show "dealloc_body (unmap_depth d af i t) s b (SUPERPG_DOWN a) = dealloc_body (unmap_depth 0 af i t) s b (SUPERPG_DOWN a)" for s b
      unfolding dealloc_body_def ROUND_UP_aligned(1) using inner by simp
  qed
  then show ?thesis unfolding uvmunmap_def One_nat_def unmap_depth.simps(2) unmap_body_def
    using unmap_loop_cong by (metis (no_types, lifting))
qed

end
