(* ===== verification/Vm_Free.thy ===== *)
theory Vm_Free
  imports Vm_Props Vm_Unmap
begin

text \<open>
  \<open>freewalk\<close> gives back exactly the pages of a page table that has no leaf left.
\<close>

text \<open>One reference of each page of \<open>T\<close> is gone, and nothing else has changed hands.\<close>

definition gone :: "u64 set \<Rightarrow> kmem \<Rightarrow> kmem \<Rightarrow> bool" where
  "gone T k k' \<longleftrightarrow> (\<forall>q<NPAGES. allocated (kpages k q) \<longrightarrow>
       (if page_to_pa q \<in> T then dropped k k' q else kpages k' q = kpages k q)) \<and>
     (\<forall>q<NPAGES. \<not> allocated (kpages k q) \<longrightarrow> \<not> allocated (kpages k' q))"

lemma gone_refl: "gone {} k k" by (simp add: gone_def)

lemma gone_trans:
  assumes ab: "gone A k k1" and bc: "gone B k1 k2" and dis: "A \<inter> B = {}"
  shows "gone (A \<union> B) k k2"
proof -
  have "if page_to_pa q \<in> A \<union> B then dropped k k2 q else kpages k2 q = kpages k q" if q: "q < NPAGES" "allocated (kpages k q)" for q
  proof (cases "page_to_pa q \<in> A")
    case True
    then have d: "dropped k k1 q" "page_to_pa q \<notin> B" using ab q dis by (auto simp: gone_def)
    then have "allocated (kpages k2 q) = allocated (kpages k1 q)" "allocated (kpages k1 q) \<Longrightarrow> kpages k2 q = kpages k1 q"
      using bc q(1) by (auto simp: gone_def)
    then show ?thesis using d(1) True by (auto simp: dropped_def)
  next
    case False
    then have "kpages k1 q = kpages k q" using ab q by (simp add: gone_def)
    then show ?thesis using bc q False by (auto simp: gone_def dropped_def)
  qed
  then show ?thesis using ab bc by (auto simp: gone_def)
qed

lemma gone_held: "gone A k k' \<Longrightarrow> held k - A \<subseteq> held k'"
  by (auto simp: gone_def held_def)

lemma gone_kfree:
  assumes ok: "kmem_ok k" and t: "t \<in> held k"
  shows "\<exists>k'. kfree i t k = Some k' \<and> kmem_ok k' \<and> gone {t} k k'"
proof -
  obtain q where q: "q < NPAGES" "allocated (kpages k q)" "t = page_to_pa q" using t by (auto simp: held_def)
  obtain k' where k': "kfree i (page_to_pa q) k = Some k'" "kmem_ok k'" "dropped k k' q"
    "\<forall>p. p \<noteq> q \<longrightarrow> allocated (kpages k' p) = allocated (kpages k p)"
    "\<forall>p. p \<noteq> q \<longrightarrow> allocated (kpages k p) \<longrightarrow> kpages k' p = kpages k p" using kfree_drops [OF ok q(1,2)] by blast
  have "page_to_pa p = t \<longleftrightarrow> p = q" if "p < NPAGES" for p using page_to_pa_inject [OF that q(1)] q(3) by blast
  then have "gone {t} k k'" unfolding gone_def using k'(3-5) q(2) by (metis singleton_iff)
  then show ?thesis using k' q(3) by blast
qed

text \<open>Every entry is empty or points to a table below.\<close>

primrec no_leaf :: "nat \<Rightarrow> mem \<Rightarrow> u64 \<Rightarrow> bool" where
  "no_leaf 0 m t = (\<forall>j<512. \<not> testb (ent m t j) PTE_V)"
| "no_leaf (Suc l) m t = (\<forall>j<512. testb (ent m t j) PTE_V \<longrightarrow>
     \<not> testb (ent m t j) (PTE_R OR PTE_W OR PTE_X) \<and> no_leaf l m (PTE2PA (ent m t j)))"

lemma testb_table: "\<not> testb v (PTE_R OR PTE_W OR PTE_X) \<Longrightarrow> \<not> testb v PTE_R \<and> \<not> testb v PTE_X"
  by (auto simp: bit_eq_iff bit_simps)

lemma no_leaf_same:
  assumes "pt_wf l m t" "\<And>x. x \<in> tree_bytes l m t \<Longrightarrow> m' x = m x"
  shows "no_leaf l m' t = no_leaf l m t"
  using assms
proof (induction l arbitrary: t)
  case 0
  then show ?case using ent_cong [of t _ m' m] by (simp add: tree_bytes_def)
next
  case (Suc l)
  have e: "ent m' t j = ent m t j" if "j < 512" for j
    using that pt_wf_al [OF Suc.prems(1)] Suc.prems(2) page_in_tree [of t "Suc l" m t] by (intro ent_cong) auto
  have "no_leaf l m' (PTE2PA (ent m t j)) = no_leaf l m (PTE2PA (ent m t j))" if "j < 512" "ptr (ent m t j)" for j
    using Suc.IH [OF pt_wfD(3) [OF Suc.prems(1) that]] Suc.prems(2) tree_bytes_mono [OF pt_wfD(5) [OF Suc.prems(1) that]] by blast
  then show ?case using e testb_table by (auto simp: ptr_def)
qed

definition freed :: "nat \<Rightarrow> mem \<Rightarrow> u64 \<Rightarrow> mach \<Rightarrow> mach \<Rightarrow> bool" where
  "freed l m t s s' \<longleftrightarrow> kmem_ok (km s') \<and> gone (tabs l m t) (km s) (km s') \<and> (\<forall>x. x \<notin> tree_bytes l m t \<longrightarrow> pm s' x = pm s x)"

lemma free_entries_ok:
  assumes wf: "pt_wf (Suc l) m t" and nl: "no_leaf (Suc l) m t"
    and rec: "\<And>s c. kmem_ok (km s) \<Longrightarrow> pt_wf l (pm s) c \<Longrightarrow> no_leaf l (pm s) c \<Longrightarrow> tabs l (pm s) c \<subseteq> held (km s) \<Longrightarrow>
      \<exists>s'. rec s c = Some s' \<and> freed l (pm s) c s s'"
    and js: "distinct js" "\<And>j. j \<in> set js \<Longrightarrow> j < 512"
    and km: "kmem_ok (km s)"
    and inv: "\<And>j. j \<in> set js \<Longrightarrow> ent (pm s) t (of_nat j) = ent m t (of_nat j)"
      "\<And>j x. j \<in> set js \<Longrightarrow> ptr (ent m t (of_nat j)) \<Longrightarrow> x \<in> tree_bytes l m (PTE2PA (ent m t (of_nat j))) \<Longrightarrow> pm s x = m x"
      "\<And>j. j \<in> set js \<Longrightarrow> ptr (ent m t (of_nat j)) \<Longrightarrow> tabs l m (PTE2PA (ent m t (of_nat j))) \<subseteq> held (km s)"
  shows "\<exists>s'. free_entries rec t js s = Some s' \<and> kmem_ok (km s') \<and>
    gone (\<Union>j\<in>{j. j \<in> set js \<and> ptr (ent m t (of_nat j))}. tabs l m (PTE2PA (ent m t (of_nat j)))) (km s) (km s') \<and>
    (\<forall>x. x \<notin> tree_bytes (Suc l) m t \<longrightarrow> pm s' x = pm s x)"
  using js km inv
proof (induction js arbitrary: s)
  case Nil
  then show ?case by (simp add: gone_refl)
next
  case (Cons j js)
  let ?e = "ent m t (of_nat j)" let ?c = "PTE2PA ?e"
  have j0: "j < 512" using Cons.prems(2) by simp
  then have j: "j < 512" "(of_nat j :: u64) < 512" by (simp_all add: word_less_nat_alt unat_of_nat)
  have al: "page_al t" by (rule pt_wf_al [OF wf])
  have ld: "load s (t + 8 * of_nat j) = Some ?e"
    using slot_props(2) [OF al j(2)] Cons.prems(4) [of j] by (simp add: load_def ent_def)
  have tl: "distinct js" "\<And>k. k \<in> set js \<Longrightarrow> k < 512" using Cons.prems(1,2) by auto
  have e0: "ent (pm s) t (of_nat k) = ent m t (of_nat k)" if "k \<in> set js" for k using Cons.prems(4) that by simp
  have b0: "pm s x = m x" if "k \<in> set js" "ptr (ent m t (of_nat k))" "x \<in> tree_bytes l m (PTE2PA (ent m t (of_nat k)))" for k x
    using Cons.prems(5) [of k x] that by simp
  have h0: "tabs l m (PTE2PA (ent m t (of_nat k))) \<subseteq> held (km s)" if "k \<in> set js" "ptr (ent m t (of_nat k))" for k
    using Cons.prems(6) [of k] that by simp
  show ?case
  proof (cases "testb ?e PTE_V")
    case False
    then have np: "\<not> ptr ?e" by (simp add: ptr_def)
    have "{k. k \<in> set (j # js) \<and> ptr (ent m t (of_nat k))} = {k. k \<in> set js \<and> ptr (ent m t (of_nat k))}" using np by auto
    moreover have "free_entries rec t (j # js) s = free_entries rec t js s" using ld False by simp
    moreover have "\<exists>s'. free_entries rec t js s = Some s' \<and> kmem_ok (km s') \<and>
      gone (\<Union>j\<in>{j. j \<in> set js \<and> ptr (ent m t (of_nat j))}. tabs l m (PTE2PA (ent m t (of_nat j)))) (km s) (km s') \<and>
      (\<forall>x. x \<notin> tree_bytes (Suc l) m t \<longrightarrow> pm s' x = pm s x)"
      by (rule Cons.IH [OF tl Cons.prems(3)]) (assumption | rule e0 b0 h0)+
    ultimately show ?thesis by (simp only:)
  next
    case True
    have nr: "\<not> testb ?e (PTE_R OR PTE_W OR PTE_X)" "no_leaf l m ?c" using nl j(2) True by auto
    then have pe: "ptr ?e" using True testb_table by (simp add: ptr_def)
    note D = pt_wfD [OF wf j(2)]
    have same: "pm s x = m x" if "x \<in> tree_bytes l m ?c" for x using Cons.prems(5) [of j x] pe that by simp
    note T = tree_same [OF D(3) [OF pe], of "pm s", OF same]
    have tb: "tree_bytes l (pm s) ?c = tree_bytes l m ?c" using T by (simp add: tree_bytes_def)
    obtain s1 where s1: "rec s ?c = Some s1" "freed l (pm s) ?c s s1"
      using rec [of s ?c] Cons.prems(3) T no_leaf_same [OF D(3) [OF pe] same] nr(2) Cons.prems(6) [of j] pe by auto
    have f1: "kmem_ok (km s1)" "gone (tabs l m ?c) (km s) (km s1)" "\<And>x. x \<notin> tree_bytes l m ?c \<Longrightarrow> pm s1 x = pm s x"
      using s1(2) T tb by (auto simp: freed_def)
    let ?s2 = "s1\<lparr>pm := st64 (pm s1) (slot_at t (of_nat j)) 0\<rparr>"
    have st: "store s1 (t + 8 * of_nat j) 0 = Some ?s2" using slot_props(2) [OF al j(2)] by (simp add: store_def)
    have run: "free_entries rec t (j # js) s = free_entries rec t js ?s2" using ld True nr(1) s1(1) st by simp
    have tt: "page_bytes t \<inter> tree_bytes l m ?c = {}"
    proof -
      have "page_bytes t \<inter> page_bytes p = {}" if "p \<in> tabs l m ?c" for p
        using that D(4) [OF pe] tabs_al [OF D(3) [OF pe] that] al by (intro page_bytes_disjoint) auto
      then show ?thesis unfolding tree_bytes_def by blast
    qed
    have sub: "tree_bytes l m ?c \<subseteq> tree_bytes (Suc l) m t" "page_bytes t \<subseteq> tree_bytes (Suc l) m t"
      using tree_bytes_mono [OF D(5) [OF pe]] page_in_tree [of t "Suc l" m t] by auto
    have m2: "pm ?s2 x = pm s x" if "x \<notin> page_bytes t" "x \<notin> tree_bytes l m ?c" for x
      using st_outside [OF al j(2) that(1)] f1(3) [OF that(2)] by simp
    have rest: "k \<noteq> j" "(of_nat k :: u64) < 512" "(of_nat k :: u64) \<noteq> of_nat j" if "k \<in> set js" for k
    proof -
      have k: "k < 512" "k \<noteq> j" using that Cons.prems(1,2) by auto
      then show "k \<noteq> j" "(of_nat k :: u64) < 512" by (auto simp: word_less_nat_alt unat_of_nat)
      have "unat (of_nat k :: u64) = k" "unat (of_nat j :: u64) = j" using k j(1) by (simp_all add: unat_of_nat)
      then show "(of_nat k :: u64) \<noteq> of_nat j" using k(2) by metis
    qed
    have e2: "ent (pm ?s2) t (of_nat k) = ent m t (of_nat k)" if "k \<in> set js" for k
    proof -
      have "ent (pm ?s2) t (of_nat k) = ent (pm s1) t (of_nat k)" using ent_st [OF al j(2) al rest(2) [OF that]] rest(3) [OF that] by simp
      also have "\<dots> = ent (pm s) t (of_nat k)" using tt f1(3) by (intro ent_cong [OF al rest(2) [OF that]]) blast
      finally show ?thesis using e0 [OF that] by simp
    qed
    have dj: "tabs l m (PTE2PA (ent m t (of_nat k))) \<inter> tabs l m ?c = {}" if "k \<in> set js" "ptr (ent m t (of_nat k))" for k
      using pt_wfD(6) [OF wf rest(2) [OF that(1)] j(2) rest(3) [OF that(1)] that(2) pe] .
    have b2: "pm ?s2 x = m x" if k: "k \<in> set js" "ptr (ent m t (of_nat k))" "x \<in> tree_bytes l m (PTE2PA (ent m t (of_nat k)))" for k x
    proof -
      let ?d = "PTE2PA (ent m t (of_nat k))"
      note K = pt_wfD [OF wf rest(2) [OF k(1)]]
      obtain p where p: "p \<in> tabs l m ?d" "x \<in> page_bytes p" using k(3) by (auto simp: tree_bytes_def)
      have pa: "page_al p" by (rule tabs_al [OF K(3) [OF k(2)] p(1)])
      have "p \<noteq> t" using K(4) [OF k(2)] p(1) by auto
      then have "x \<notin> page_bytes t" using page_bytes_disjoint [OF pa al] p(2) by blast
      moreover have "x \<notin> page_bytes y" if "y \<in> tabs l m ?c" for y
      proof -
        have "p \<noteq> y" using dj [OF k(1,2)] p(1) that by blast
        then show ?thesis using page_bytes_disjoint [OF pa tabs_al [OF D(3) [OF pe] that]] p(2) by blast
      qed
      then have "x \<notin> tree_bytes l m ?c" by (auto simp: tree_bytes_def)
      ultimately show ?thesis using m2 b0 [OF k] by simp
    qed
    have h2: "tabs l m (PTE2PA (ent m t (of_nat k))) \<subseteq> held (km ?s2)" if "k \<in> set js" "ptr (ent m t (of_nat k))" for k
      using gone_held [OF f1(2)] h0 [OF that] dj [OF that] by auto
    have k2: "kmem_ok (km ?s2)" using f1(1) by simp
    let ?U = "\<Union>k\<in>{k. k \<in> set js \<and> ptr (ent m t (of_nat k))}. tabs l m (PTE2PA (ent m t (of_nat k)))"
    have "\<exists>s'. free_entries rec t js ?s2 = Some s' \<and> kmem_ok (km s') \<and> gone ?U (km ?s2) (km s') \<and>
      (\<forall>x. x \<notin> tree_bytes (Suc l) m t \<longrightarrow> pm s' x = pm ?s2 x)"
      by (rule Cons.IH [OF tl k2]) (assumption | rule e2 b2 h2)+
    then obtain s' where s': "free_entries rec t js ?s2 = Some s'" "kmem_ok (km s')" "gone ?U (km ?s2) (km s')"
      "\<forall>x. x \<notin> tree_bytes (Suc l) m t \<longrightarrow> pm s' x = pm ?s2 x" by blast
    have "tabs l m ?c \<inter> ?U = {}" using dj by blast
    then have "gone (tabs l m ?c \<union> ?U) (km s) (km s')" using gone_trans [OF f1(2), of ?U "km s'"] s'(3) by simp
    moreover have "(\<Union>k\<in>{k. k \<in> set (j # js) \<and> ptr (ent m t (of_nat k))}. tabs l m (PTE2PA (ent m t (of_nat k)))) = tabs l m ?c \<union> ?U"
      using pe by auto
    moreover have "\<forall>x. x \<notin> tree_bytes (Suc l) m t \<longrightarrow> pm s' x = pm s x" using s'(4) m2 sub by (metis subsetD)
    ultimately show ?thesis using run s'(1,2) by simp
  qed
qed

lemma freewalk_ok:
  assumes "kmem_ok (km s)" "pt_wf l (pm s) t" "no_leaf l (pm s) t" "tabs l (pm s) t \<subseteq> held (km s)"
  shows "\<exists>s'. freewalk (Suc l) i s t = Some s' \<and> freed l (pm s) t s s'"
  using assms
proof (induction l arbitrary: s t)
  case 0
  have al: "page_al t" using 0(2) by simp
  then have t: "t \<noteq> 0" by (simp add: page_al_def)
  have e: "free_entries (freewalk 0 i) t js s = Some s" if "\<forall>j\<in>set js. j < 512" for js
    using that
  proof (induction js)
    case (Cons j js)
    then have "j < 512" by simp
    then have j: "(of_nat j :: u64) < 512" by (simp add: word_less_nat_alt unat_of_nat)
    then have "\<not> testb (ent (pm s) t (of_nat j)) PTE_V" using 0(3) by simp
    moreover have "load s (t + 8 * of_nat j) = Some (ent (pm s) t (of_nat j))"
      using slot_props(2) [OF al j] by (simp add: load_def ent_def)
    ultimately show ?case using Cons by simp
  qed simp
  obtain k where "kfree i t (km s) = Some k" "kmem_ok k" "gone {t} (km s) k" using gone_kfree [OF 0(1)] 0(4) by auto
  then show ?case using e [of "[0..<512]"] t by (simp add: kfree_s_def freed_def)
next
  case (Suc l)
  let ?m = "pm s"
  have al: "page_al t" and t: "t \<noteq> 0" using pt_wf_al [OF Suc.prems(2)] by (auto simp: page_al_def)
  have w: "unat (of_nat j :: u64) = j" "(of_nat j :: u64) < 512" if "j < 512" for j
    using that by (simp_all add: word_less_nat_alt unat_of_nat)
  let ?U = "\<Union>j\<in>{j. j \<in> set [0..<512] \<and> ptr (ent ?m t (of_nat j))}. tabs l ?m (PTE2PA (ent ?m t (of_nat j)))"
  have sub: "tabs l ?m (PTE2PA (ent ?m t (of_nat j))) \<subseteq> tabs (Suc l) ?m t" if "j \<in> set [0..<512]" "ptr (ent ?m t (of_nat j))" for j
    using pt_wfD(5) [OF Suc.prems(2) w(2)] that by simp
  obtain s1 where s1: "free_entries (freewalk (Suc l) i) t [0..<512] s = Some s1" "kmem_ok (km s1)" "gone ?U (km s) (km s1)"
    "\<forall>x. x \<notin> tree_bytes (Suc l) ?m t \<longrightarrow> pm s1 x = pm s x"
  proof -
    have h: "tabs l ?m (PTE2PA (ent ?m t (of_nat j))) \<subseteq> held (km s)" if "j \<in> set [0..<512]" "ptr (ent ?m t (of_nat j))" for j
      using sub [OF that] Suc.prems(4) by (rule subset_trans)
    have "\<exists>s'. free_entries (freewalk (Suc l) i) t [0..<512] s = Some s' \<and> kmem_ok (km s') \<and> gone ?U (km s) (km s') \<and>
      (\<forall>x. x \<notin> tree_bytes (Suc l) ?m t \<longrightarrow> pm s' x = pm s x)"
      by (rule free_entries_ok [OF Suc.prems(2,3) Suc.IH _ _ Suc.prems(1)]) (simp_all add: h)
    then show ?thesis using that by blast
  qed
  have nt: "t \<notin> ?U" using pt_wfD(4) [OF Suc.prems(2) w(2)] by auto
  have "t \<in> held (km s1)" using Suc.prems(4) tabs_root gone_held [OF s1(3)] nt by blast
  then obtain k where k: "kfree i t (km s1) = Some k" "kmem_ok k" "gone {t} (km s1) k" using gone_kfree [OF s1(2)] by blast
  have "gone (?U \<union> {t}) (km s) k" using gone_trans [OF s1(3) k(3)] nt by blast
  moreover have "?U \<union> {t} = tabs (Suc l) ?m t"
  proof (rule set_eqI, rule iffI)
    fix p assume "p \<in> ?U \<union> {t}"
    then show "p \<in> tabs (Suc l) ?m t" using sub tabs_root by blast
  next
    fix p assume "p \<in> tabs (Suc l) ?m t"
    then consider "p = t" | j where "j < 512" "ptr (ent ?m t j)" "p \<in> tabs l ?m (PTE2PA (ent ?m t j))" unfolding tabs.simps(2) by blast
    then show "p \<in> ?U \<union> {t}"
    proof cases
      case (2 j)
      then have "unat j \<in> set [0..<512]" "of_nat (unat j) = j" by (simp_all add: word_less_nat_alt)
      then show ?thesis using 2(2,3) by (intro UnI1 UN_I [of "unat j"]) simp_all
    qed simp
  qed
  ultimately have "gone (tabs (Suc l) ?m t) (km s) k" by (simp only:)
  then show ?case using s1(1,4) t k(1,2) unfolding freewalk.simps(2) [of "Suc l"] by (simp add: kfree_s_def freed_def)
qed

section \<open>Releasing a page table\<close>

text \<open>C10.  \<open>freewalk\<close> on a well-formed page table with no leaf left always ends without a panic.  Each
  table page loses exactly one reference, the last one freeing it; no other page that was handed out
  changes, no free page is taken, and no byte outside the tables changes.\<close>

theorem freewalk_correct:
  assumes "vm_ok s t" "no_leaf 2 (pm s) t"
  shows "\<exists>s'. freewalk 3 i s t = Some s' \<and> kmem_ok (km s') \<and>
    (\<forall>q<NPAGES. allocated (kpages (km s) q) \<longrightarrow>
       (if page_to_pa q \<in> tabs 2 (pm s) t then dropped (km s) (km s') q else kpages (km s') q = kpages (km s) q)) \<and>
    (\<forall>q<NPAGES. \<not> allocated (kpages (km s) q) \<longrightarrow> \<not> allocated (kpages (km s') q)) \<and>
    (\<forall>x. x \<notin> tree_bytes 2 (pm s) t \<longrightarrow> pm s' x = pm s x)"
proof -
  have "kmem_ok (km s)" "pt_wf 2 (pm s) t" "tabs 2 (pm s) t \<subseteq> held (km s)" using assms(1) by (simp_all add: vm_ok_def)
  then obtain s' where "freewalk (Suc 2) i s t = Some s'" "freed 2 (pm s) t s s'" using freewalk_ok assms(2) by blast
  then show ?thesis unfolding freed_def gone_def by (intro exI [of _ s']) (simp add: numeral_3_eq_3 numeral_2_eq_2)
qed

theorem freewalk_correct_witness:
  "\<exists>s t s' q. empty_space s t \<and> freewalk 3 0 s t = Some s' \<and> t = page_to_pa q \<and> allocated (kpages (km s) q) \<and> dropped (km s) (km s') q"
proof -
  obtain s t where e: "empty_space s t" using empty_space_ex by blast
  note E = empty_space_ok [OF e]
  have "no_leaf (Suc 1) (pm s) t" using E(5) by simp
  then have n: "no_leaf 2 (pm s) t" by (simp only: numeral_2_eq_2 One_nat_def)
  have "t \<in> held (km s)" using E(1) by (auto simp: vm_ok_def)
  then obtain q where q: "q < NPAGES" "allocated (kpages (km s) q)" "t = page_to_pa q" by (auto simp: held_def)
  obtain s' where s': "freewalk 3 0 s t = Some s'" "\<forall>q<NPAGES. allocated (kpages (km s) q) \<longrightarrow>
       (if page_to_pa q \<in> tabs 2 (pm s) t then dropped (km s) (km s') q else kpages (km s') q = kpages (km s) q)"
    using freewalk_correct [OF E(1) n, of 0] by blast
  have "page_to_pa q \<in> tabs 2 (pm s) t" using q(3) tabs_root by simp
  then have "dropped (km s) (km s') q" using s'(2) q(1,2) by presburger
  then show ?thesis using e s'(1) q(2,3) by blast
qed

end
