(* ===== verification/Fault_Correct.thy ===== *)
theory Fault_Correct
  imports Vm_Props Vm_Unmap
begin

text \<open>
  The page-fault handler on a well-formed page table: a write to a shared page that is copied on
  write, and the first access to a page of an area.
\<close>

section \<open>Pages that come and go beside a page table\<close>

lemma vm_ok_keeps: "vm_ok s t \<Longrightarrow> kmem_ok k \<Longrightarrow> keeps (km s) k \<Longrightarrow> vm_ok (s\<lparr>km := k\<rparr>) t"
  using keeps_held by (auto simp: vm_ok_def)

lemma free_beside:
  assumes ok: "vm_ok s t" and q: "q < NPAGES" "allocated (kpages (km s) q)" "page_to_pa q \<notin> tabs 2 (pm s) t"
  shows "\<exists>k. kfree_s i (page_to_pa q) s = Some (s\<lparr>km := k\<rparr>) \<and> vm_ok (s\<lparr>km := k\<rparr>) t \<and> dropped (km s) k q \<and>
    (\<forall>p. p \<noteq> q \<longrightarrow> allocated (kpages k p) = allocated (kpages (km s) p)) \<and>
    (\<forall>p. p \<noteq> q \<longrightarrow> allocated (kpages (km s) p) \<longrightarrow> kpages k p = kpages (km s) p)"
proof -
  have km: "kmem_ok (km s)" using ok by (simp add: vm_ok_def)
  obtain k where k: "kfree i (page_to_pa q) (km s) = Some k" "kmem_ok k" "dropped (km s) k q"
    "\<forall>p. p \<noteq> q \<longrightarrow> allocated (kpages k p) = allocated (kpages (km s) p)"
    "\<forall>p. p \<noteq> q \<longrightarrow> allocated (kpages (km s) p) \<longrightarrow> kpages k p = kpages (km s) p" using kfree_drops [OF km q(1,2)] by blast
  have "held (km s) - {page_to_pa q} \<subseteq> held k" using k(4) by (force simp: held_def)
  then have "vm_ok (s\<lparr>km := k\<rparr>) t" using ok q(3) k(2) by (auto simp: vm_ok_def)
  then show ?thesis using k by (intro exI [of _ k]) (simp add: kfree_s_def)
qed

lemma tree_beside:
  assumes "vm_ok s t" "page_al p" "p \<notin> held (km s)"
  shows "page_bytes p \<inter> tree_bytes 2 (pm s) t = {}"
proof -
  have "page_bytes x \<inter> page_bytes p = {}" if "x \<in> tabs 2 (pm s) t" for x
    using that assms tabs_al [of 2 "pm s" t x] by (intro page_bytes_disjoint) (auto simp: vm_ok_def)
  then show ?thesis unfolding tree_bytes_def by blast
qed

lemma stop_same:
  assumes "pt_wf n m t" "\<And>x. x \<in> tree_bytes n m t \<Longrightarrow> m' x = m x"
  shows "stop n 0 m' t u = stop n 0 m t u"
  using assms
proof (induction n arbitrary: t)
  case (Suc n)
  let ?v = "ent m t (PN (Suc n) u)"
  have e: "ent m' t (PN (Suc n) u) = ?v"
    using pt_wf_al [OF Suc.prems(1)] Suc.prems(2) page_in_tree [of t "Suc n" m t] by (intro ent_cong) auto
  show ?case
  proof (cases "ptr ?v")
    case True
    have "tree_bytes n m (PTE2PA ?v) \<subseteq> tree_bytes (Suc n) m t"
      using pt_wfD(5) [OF Suc.prems(1) PN_less True] by (rule tree_bytes_mono)
    then have "stop n 0 m' (PTE2PA ?v) u = stop n 0 m (PTE2PA ?v) u"
      using Suc.IH pt_wfD(3) [OF Suc.prems(1) PN_less True] Suc.prems(2) by blast
    then show ?thesis using e by (simp add: Let_def)
  qed (simp add: e Let_def)
qed simp

section \<open>Copy on write\<close>

text \<open>A private copy \<open>q'\<close> of the page \<open>q\<close> at \<open>va\<close>: new, with the same bytes, mapped writable in its
  place; the old page has one reference less, and nothing else changed.\<close>

definition cow_copy :: "mach \<Rightarrow> u64 \<Rightarrow> u64 \<Rightarrow> u64 \<Rightarrow> nat \<Rightarrow> nat \<Rightarrow> mach \<Rightarrow> bool" where
  "cow_copy s t va e q q' s' \<longleftrightarrow> q' < NPAGES \<and> \<not> allocated (kpages (km s) q') \<and> refcnt (kpages (km s') q') = 1 \<and>
     vm_ok s' t \<and> tabs 2 (pm s') t = tabs 2 (pm s) t \<and> dropped (km s) (km s') q \<and>
     (\<forall>p<NPAGES. p \<noteq> q \<longrightarrow> allocated (kpages (km s) p) \<longrightarrow> kpages (km s') p = kpages (km s) p) \<and>
     (\<forall>u<MAXVA. xl 2 (pm s') t u =
        (if vpn u = vpn va then Some (PA2PTE (page_to_pa q') OR PTE_FLAGS e OR PTE_W, 0) else xl 2 (pm s) t u)) \<and>
     (\<forall>k<4096. pm s' (unat (page_to_pa q') + k) = pm s (unat (page_to_pa q) + k)) \<and>
     (\<forall>x. x \<notin> page_bytes (page_to_pa q') \<longrightarrow> x \<notin> tree_bytes 2 (pm s) t \<longrightarrow> pm s' x = pm s x)"

lemma cow_ok:
  assumes ok: "vm_ok s t" and i: "i < NCPU" "reclaims {} af" and va: "va < MAXVA"
    and st: "stop 2 0 (pm s) t va = Some (pte, 0)" and v: "testb e PTE_V"
    and q: "q < NPAGES" "allocated (kpages (km s) q)" "page_to_pa q \<notin> tabs 2 (pm s) t"
  shows "\<exists>s' r. cow af i s pte 0 (page_to_pa q) (PTE_FLAGS e) = Some (s', r) \<and>
    (if r = 0 then \<exists>q'. cow_copy s t va e q q' s'
     else r = - 1 \<and> kfree_set (km s) = {} \<and> pm s' = pm s \<and> vm_ok s' t \<and> keeps (km s) (km s'))"
proof -
  have "kmem_ok (km s)" using ok by (simp add: vm_ok_def)
  then obtain k1 r where k: "kmalloc af i PGSIZE (km s) = Some (k1, r)" "kmem_ok k1" "keeps (km s) k1"
    "case r of None \<Rightarrow> kfree_set (km s) = {} \<and> kfree_set k1 = {}
     | Some p \<Rightarrow> p \<notin> held (km s) \<and> (\<exists>q<NPAGES. p = page_to_pa q \<and> allocated (kpages k1 q) \<and> refcnt (kpages k1 q) = 1 \<and>
         (af = Some \<longrightarrow> kfree_set k1 = kfree_set (km s) - {q}))"
    using kmalloc_page i by blast
  have sz: "unat PGSIZE = 4096" by (simp add: PGSIZE_def)
  show ?thesis
  proof (cases r)
    case None
    then show ?thesis using k ok vm_ok_keeps
      by (simp add: cow_def kmalloc_s_def null_or_def SUPERPAGE_def COMMONPAGE_def)
  next
    case (Some p)
    then obtain q' where q': "p \<notin> held (km s)" "q' < NPAGES" "p = page_to_pa q'" "allocated (kpages k1 q')" "refcnt (kpages k1 q') = 1"
      using k(4) by auto
    have al: "page_al p" "p \<noteq> 0" using page_to_pa_al [OF q'(2)] q'(3) by (auto simp: page_al_def)
    have new: "\<not> allocated (kpages (km s) q')" using q'(1,2,3) by (auto simp: held_def)
    have dis: "page_bytes p \<inter> tree_bytes 2 (pm s) t = {}" by (rule tree_beside [OF ok al(1) q'(1)])
    let ?s1 = "s\<lparr>km := k1\<rparr>" let ?m = "memmove (pm s) (unat p) (unat (page_to_pa q)) 4096"
    have m: "?m x = (if x \<in> page_bytes p then pm s (unat (page_to_pa q) + (x - unat p)) else pm s x)" for x
      by (simp add: memmove_eq page_bytes_def)
    have ok1: "vm_ok ?s1 t" by (rule vm_ok_keeps [OF ok k(2,3)])
    have same: "?m x = pm ?s1 x" if "x \<in> tree_bytes 2 (pm ?s1) t" for x using that dis m by auto
    note V = vm_ok_other_mem [OF ok1 same, simplified]
    let ?s2 = "s\<lparr>km := k1, pm := ?m\<rparr>" let ?e = "PA2PTE p OR PTE_FLAGS e OR PTE_W"
    let ?s3 = "?s2\<lparr>pm := st64 ?m pte ?e\<rparr>"
    have wf: "pt_wf 2 (pm s) t" using ok by (simp add: vm_ok_def)
    have st2: "stop 2 0 (pm ?s2) t va = Some (pte, 0)" using stop_same [OF wf, of ?m va] same st by simp
    have ok2: "vm_ok ?s2 t" using V(1) by simp
    note X = xl_store(1) [OF ok2 st2 va, of ?e, simplified] and X2 = xl_store(2) [OF ok2 st2 va, where v = ?e, simplified]
    have ok3: "vm_ok ?s3 t" using X by (simp add: vm_step_def)
    have tb: "tabs 2 (pm ?s3) t = tabs 2 (pm s) t" "\<forall>y. y \<notin> tree_bytes 2 (pm s) t \<longrightarrow> pm ?s3 y = ?m y"
      using X V(3) tree_same [OF wf, of ?m] same by (auto simp: vm_step_def sub_upd_def tree_bytes_def)
    have qk: "allocated (kpages (km ?s3) q)" "kpages (km ?s3) q = kpages (km s) q" using q(1,2) k(3) by (auto simp: keeps_def)
    have qt: "page_to_pa q \<notin> tabs 2 (pm ?s3) t" using q(3) tb(1) by simp
    obtain k4 where k4: "kfree_s i (page_to_pa q) ?s3 = Some (?s3\<lparr>km := k4\<rparr>)" "vm_ok (?s3\<lparr>km := k4\<rparr>) t" "dropped k1 k4 q"
      "\<forall>p. p \<noteq> q \<longrightarrow> allocated (kpages k1 p) \<longrightarrow> kpages k4 p = kpages k1 p"
      using free_beside [OF ok3 q(1) qk(1) qt, of i] by auto
    let ?s4 = "?s3\<lparr>km := k4\<rparr>"
    have "pte \<noteq> 0" using stop_level(1) [OF ok st] .
    then have run: "cow af i s pte 0 (page_to_pa q) (PTE_FLAGS e) = Some (?s4, 0)"
      using k(1) Some al(2) k4(1)
      by (simp add: cow_def kmalloc_s_def null_or_def SUPERPAGE_def COMMONPAGE_def store_def sz)
    have qq: "q' \<noteq> q" using new q(2) by auto
    have vE: "testb ?e PTE_V" using v by (simp add: testb_or testb_flags)
    have A: "\<forall>u<MAXVA. xl 2 (pm ?s4) t u = (if vpn u = vpn va then Some (?e, 0) else xl 2 (pm s) t u)"
      using X2 V(2) vE by (simp add: leaf_view_def)
    have B: "pm ?s4 (unat p + j) = pm s (unat (page_to_pa q) + j)" if "j < 4096" for j
    proof -
      have "unat p + j \<in> page_bytes p" using that by (simp add: page_bytes_def)
      then show ?thesis using tb(2) dis m [of "unat p + j"] by auto
    qed
    have D: "dropped (km s) k4 q" using k4(3) qk(2) by (simp add: dropped_def)
    have E: "refcnt (kpages k4 q') = 1" using k4(4) q'(4,5) qq by simp
    have F: "kpages k4 p = kpages (km s) p" if "p < NPAGES" "p \<noteq> q" "allocated (kpages (km s) p)" for p
      using that k(3) k4(4) by (auto simp: keeps_def)
    have "cow_copy s t va e q q' ?s4"
      unfolding cow_copy_def q'(3) [symmetric] using A B D E F q'(2) new k4(2) tb m by simp
    then show ?thesis using run by auto
  qed
qed

section \<open>One page of memory\<close>

lemma took_pages_card:
  assumes "took_pages n k k'" "finite (kfree_set k')"
  shows "card (kfree_set k) \<le> card (kfree_set k') + n"
proof -
  obtain Q where Q: "finite Q" "card Q \<le> n" "kfree_set k \<subseteq> kfree_set k' \<union> Q" using assms(1) unfolding took_pages_def by blast
  then have "card (kfree_set k) \<le> card (kfree_set k' \<union> Q)" using assms(2) by (intro card_mono) auto
  also have "\<dots> \<le> card (kfree_set k') + card Q" by (rule card_Un_le)
  finally show ?thesis using Q(2) by linarith
qed

text \<open>A zeroed page \<open>q\<close> of the allocator is mapped at \<open>a\<close>; nothing that was handed out changed.\<close>

definition zero_mapped :: "mach \<Rightarrow> u64 \<Rightarrow> u64 \<Rightarrow> u64 \<Rightarrow> nat \<Rightarrow> mach \<Rightarrow> bool" where
  "zero_mapped s t a prm q s' \<longleftrightarrow> q < NPAGES \<and> \<not> allocated (kpages (km s) q) \<and> allocated (kpages (km s') q) \<and>
     refcnt (kpages (km s') q) = 1 \<and> page_to_pa q \<notin> tabs 2 (pm s') t \<and>
     (\<forall>u<MAXVA. xl 2 (pm s') t u = (if vpn u = vpn a then Some (PA2PTE (page_to_pa q) OR prm OR PTE_V, 0) else xl 2 (pm s) t u)) \<and>
     (\<forall>k<4096. pm s' (unat (page_to_pa q) + k) = 0)"

definition page_try :: "mach \<Rightarrow> u64 \<Rightarrow> u64 \<Rightarrow> u64 \<Rightarrow> bool \<Rightarrow> mach \<Rightarrow> bool" where
  "page_try s t a prm done s' \<longleftrightarrow> vm_ok s' t \<and>
     (\<forall>p<NPAGES. allocated (kpages (km s) p) \<longrightarrow> kpages (km s') p = kpages (km s) p) \<and>
     (\<forall>x p. x \<in> page_bytes p \<longrightarrow> p \<in> held (km s) \<longrightarrow> p \<notin> tabs 2 (pm s) t \<longrightarrow> pm s' x = pm s x) \<and>
     (if done then \<exists>q. zero_mapped s t a prm q s' else \<forall>u<MAXVA. xl 2 (pm s') t u = xl 2 (pm s) t u)"

lemma one_page:
  assumes ok: "vm_ok s t" and i: "i < NCPU" "reclaims {} af" and a: "unat a mod 4096 = 0" "a < MAXVA"
    and x: "xl 2 (pm s) t a = None"
  shows "\<exists>s1 mem. kzalloc_s af i PGSIZE s = Some (s1, mem) \<and>
    (if mem = 0 then page_try s t a prm False s1 \<and> kfree_set (km s) = {}
     else \<exists>s2 r. mappages af i s1 t a PGSIZE mem prm 0 = Some (s2, r) \<and>
       (if r = 0 then page_try s t a prm True s2 \<and> (af = Some \<longrightarrow> took_pages 3 (km s) (km s2))
        else \<exists>s3. kfree_s i mem s2 = Some s3 \<and> page_try s t a prm False s3 \<and> (af = Some \<longrightarrow> card (kfree_set (km s)) \<le> 3)))"
proof -
  have kok: "kmem_ok (km s)" using ok by (simp add: vm_ok_def)
  obtain s1 mem where z: "kzalloc_s af i PGSIZE s = Some (s1, mem)" "kmem_ok (km s1)" "keeps (km s) (km s1)"
    "if mem = 0 then pm s1 = pm s \<and> kfree_set (km s) = {} \<and> kfree_set (km s1) = {} else fresh_page s s1 mem"
    "af = Some \<longrightarrow> took_pages 1 (km s) (km s1)"
    using kzalloc_page [OF kok i] by blast
  show ?thesis
  proof (cases "mem = 0")
    case True
    then have "pm s1 = pm s" "kfree_set (km s) = {}" using z(4) by auto
    moreover have "vm_ok s1 t" using vm_ok_keeps [OF ok z(2,3)] calculation(1) by (simp add: vm_ok_def)
    ultimately show ?thesis using z True by (intro exI [of _ s1] exI [of _ mem]) (simp add: page_try_def keeps_def)
  next
    case False
    then have f: "fresh_page s s1 mem" using z(4) by simp
    then obtain q where q: "q < NPAGES" "mem = page_to_pa q" "allocated (kpages (km s1) q)" "refcnt (kpages (km s1) q) = 1"
      "page_al mem" "mem \<notin> held (km s)" "\<And>x. x \<in> page_bytes mem \<Longrightarrow> pm s1 x = 0" "\<And>x. x \<notin> page_bytes mem \<Longrightarrow> pm s1 x = pm s x"
      by (auto simp: fresh_page_def)
    have new: "\<not> allocated (kpages (km s) q)" using q(1,2,6) by (auto simp: held_def)
    have dis: "page_bytes mem \<inter> tree_bytes 2 (pm s) t = {}" by (rule tree_beside [OF ok q(5,6)])
    have okk: "vm_ok (s\<lparr>km := km s1\<rparr>) t" by (rule vm_ok_keeps [OF ok z(2,3)])
    have same: "pm s1 x = pm (s\<lparr>km := km s1\<rparr>) x" if "x \<in> tree_bytes 2 (pm (s\<lparr>km := km s1\<rparr>)) t" for x
      using that dis q(8) by auto
    note V = vm_ok_other_mem [OF okk same, simplified]
    have ok1: "vm_ok s1 t" using V(1) by (simp add: vm_ok_def)
    have t1: "tabs 2 (pm s1) t = tabs 2 (pm s) t"
      using tree_same [of 2 "pm s" t "pm s1"] ok same by (simp add: vm_ok_def)
    obtain b where b: "unat a = 4096 * b" using a(1) by (auto simp: dvd_eq_mod_eq_0 [symmetric])
    have lt: "unat a < 2 ^ 38" using a(2) by (simp add: MAXVA_def word_less_nat_alt)
    then have un: "unat a + 4096 \<le> 2 ^ 38" unfolding b by simp
    then have s: "unat (a + PGSIZE) = unat a + 4096" by (simp add: PGSIZE_def unat_add_lem [THEN iffD1])
    then have "a + PGSIZE \<noteq> 0" by auto
    then have w: "unat (a + PGSIZE - 1) = unat a + 4095" using s by (simp add: unat_minus_one)
    have vw: "vpn (a + PGSIZE - 1) = vpn a" unfolding w b by simp
    have fr: "xl 2 (pm s1) t u = None" if "u < MAXVA" "vpn u = vpn a" for u
      using xl_page [OF that(1) a(2) that(2), of "pm s1" t] x V(2) by simp
    have p: "PGSIZE \<noteq> 0" "unat a + unat PGSIZE \<le> unat MAXVA"
      "\<forall>u<MAXVA. vpn a \<le> vpn u \<and> vpn u \<le> vpn (a + PGSIZE - 1) \<longrightarrow> xl 2 (pm s1) t u = None"
      "1 = vpn (a + PGSIZE - 1) - vpn a + 1"
      unfolding vw using un fr by (simp_all add: PGSIZE_def MAXVA_def)
    obtain s2 r j where m: "mappages af i s1 t a PGSIZE mem prm 0 = Some (s2, r)" "vm_ok s2 t" "keeps (km s1) (km s2)"
      "if r = 0 then j = 1 else r = - 1 \<and> j < 1 \<and> kfree_set (km s2) = {}"
      "\<forall>u<MAXVA. xl 2 (pm s2) t u = mapped (xl 2 (pm s1) t) a mem prm j u"
      "tabs 2 (pm s2) t \<subseteq> tabs 2 (pm s1) t \<union> (held (km s2) - held (km s1))"
      "\<forall>x. x \<notin> tree_bytes 2 (pm s2) t \<longrightarrow> pm s2 x = pm s1 x"
      "af = Some \<and> 2 * 1 < card (kfree_set (km s1)) \<longrightarrow> r = 0" "af = Some \<longrightarrow> took_pages (2 * 1) (km s1) (km s2)"
      using mappages_ok [OF ok1 i p, of mem prm] by blast
    note keep = keeps_trans [OF z(3) m(3)]
    have qk: "kpages (km s2) q = kpages (km s1) q" using m(3) q(1,3) by (simp add: keeps_def)
    have mh: "mem \<in> held (km s1)" using q(1-3) by (auto simp: held_def)
    have nt: "mem \<notin> tabs 2 (pm s2) t" using m(6) mh t1 q(6) ok by (auto simp: vm_ok_def)
    have tp: "x \<notin> tree_bytes 2 (pm s2) t" if "x \<in> page_bytes p" "p \<in> held (km s1)" "p \<notin> tabs 2 (pm s) t" for x p
    proof -
      have "p \<notin> tabs 2 (pm s2) t" using m(6) t1 that(2,3) by auto
      then have "page_bytes y \<inter> page_bytes p = {}" if "y \<in> tabs 2 (pm s2) t" for y
        using that m(2) held_al [OF \<open>p \<in> held (km s1)\<close>] tabs_al [of 2 "pm s2" t y]
        by (intro page_bytes_disjoint) (auto simp: vm_ok_def)
      then show ?thesis using that(1) unfolding tree_bytes_def by blast
    qed
    have by2: "pm s2 x = pm s x" if "x \<in> page_bytes p" "p \<in> held (km s)" "p \<notin> tabs 2 (pm s) t" for x p
    proof -
      have "p \<noteq> mem" "p \<in> held (km s1)" using that(2) q(6) keeps_held [OF z(3)] by auto
      moreover have "x \<notin> page_bytes mem"
        using page_bytes_disjoint [OF held_al [OF that(2)] q(5) calculation(1)] that(1) by blast
      ultimately show ?thesis using tp [OF that(1) _ that(3)] m(7) q(8) by simp
    qed
    have z2: "pm s2 (unat mem + k) = 0" if "k < 4096" for k
    proof -
      have "unat mem + k \<in> page_bytes mem" using that by (simp add: page_bytes_def)
      moreover have "mem \<notin> tabs 2 (pm s) t" using q(6) ok by (auto simp: vm_ok_def)
      ultimately show ?thesis using tp [OF _ mh] m(7) q(7) by simp
    qed
    show ?thesis
    proof (cases "r = 0")
      case True
      then have "xl 2 (pm s2) t u = (if vpn u = vpn a then Some (PA2PTE mem OR prm OR PTE_V, 0) else xl 2 (pm s) t u)" if "u < MAXVA" for u
        using m(4,5) V(2) that by (auto simp: mapped_def)
      then have "zero_mapped s t a prm q s2" using q(1-4) qk nt new z2 by (simp add: zero_mapped_def)
      then have "page_try s t a prm True s2" using m(2) keep by2 by (auto simp: page_try_def keeps_def)
      moreover have "af = Some \<longrightarrow> took_pages 3 (km s) (km s2)"
        using z(5) m(9) took_pages_trans [of 1 "km s" "km s1" 2 "km s2"] by (simp add: numeral_3_eq_3 numeral_2_eq_2)
      ultimately show ?thesis using z(1) m(1) True False by (intro exI [of _ s1] exI [of _ mem]) auto
    next
      case r: False
      have "allocated (kpages (km s2) q)" using qk q(3) by simp
      then obtain k3 where k3: "kfree_s i mem s2 = Some (s2\<lparr>km := k3\<rparr>)" "vm_ok (s2\<lparr>km := k3\<rparr>) t"
        "\<forall>p. p \<noteq> q \<longrightarrow> allocated (kpages (km s2) p) \<longrightarrow> kpages k3 p = kpages (km s2) p"
        using free_beside [OF m(2) q(1), of i] nt q(2) by auto
      have "kpages k3 p = kpages (km s) p" if "p < NPAGES" "allocated (kpages (km s) p)" for p
        using that k3(3) keep new by (auto simp: keeps_def)
      moreover have "xl 2 (pm s2) t u = xl 2 (pm s) t u" if "u < MAXVA" for u using m(4,5) r V(2) that by simp
      ultimately have "page_try s t a prm False (s2\<lparr>km := k3\<rparr>)" using k3(2) by2 by (auto simp: page_try_def)
      moreover have "card (kfree_set (km s)) \<le> 3" if "af = Some"
      proof -
        have c: "card (kfree_set (km s1)) \<le> 2" using m(8) r that by linarith
        have "took_pages 1 (km s) (km s1)" using z(5) that by simp
        moreover have "finite (kfree_set (km s1))" using z(2) by (simp add: kmem_ok_def)
        ultimately show ?thesis using c took_pages_card by fastforce
      qed
      ultimately show ?thesis using z(1) m(1) k3(1) r False by (intro exI [of _ s1] exI [of _ mem]) auto
    qed
  qed
qed
lemma page_round:
  assumes b: "unat a = 4096 * b" "unat a + 2 ^ 21 < 2 ^ 64"
  shows "unat (a + PGSIZE) = unat a + 4096" "PGROUNDUP a = a"
    "if SUPERPG_ROUNDUP a = a then SUPERPG_DOWN (a + PGSIZE) = a else a + PGSIZE \<le> SUPERPG_ROUNDUP a"
proof -
  define c d where "c = b div 512" and "d = b mod 512"
  have bd: "b = 512 * c + d" "d < 512" by (simp_all add: c_def d_def)
  show u: "unat (a + PGSIZE) = unat a + 4096" using b(2) by (simp add: PGSIZE_def unat_add_lem [THEN iffD1])
  have "unat (a + (PGSIZE - 1)) = unat a + 4095" using b(2) by (simp add: PGSIZE_def unat_add_lem [THEN iffD1])
  then have "unat (PGROUNDUP a) = unat a"
    using unat_ROUND_DOWN [of PGSIZE 12 "a + (PGSIZE - 1)"] b(1) unfolding PGROUNDUP_def ROUND_UP_eq by (simp add: PGSIZE_def)
  then show "PGROUNDUP a = a" by (simp add: word_unat_eq_iff)
  have "unat (a + (SUPERPGSIZE - 1)) = unat a + 2097151" using b(2) by (simp add: SUPERPGSIZE_def unat_add_lem [THEN iffD1])
  then have "unat (SUPERPG_ROUNDUP a) = (unat a + 2097151) div 2 ^ 21 * 2 ^ 21"
    using unat_ROUND_DOWN [of SUPERPGSIZE 21 "a + (SUPERPGSIZE - 1)"] unfolding SUPERPG_ROUNDUP_def ROUND_UP_eq by (simp add: SUPERPGSIZE_def)
  moreover have "unat a + 2097151 = 2 ^ 21 * c + (4096 * d + 2097151)" unfolding b(1) bd(1) by simp
  moreover have "(4096 * d + 2097151) div 2 ^ 21 = (if d = 0 then 0 else 1)"
    using bd(2) by (cases "d = 0") (simp_all add: div_nat_eqI)
  ultimately have U: "unat (SUPERPG_ROUNDUP a) = (if d = 0 then 2 ^ 21 * c else 2 ^ 21 * (c + 1))" by simp
  have D: "unat (SUPERPG_DOWN (a + PGSIZE)) = (unat a + 4096) div 2 ^ 21 * 2 ^ 21"
    using unat_ROUND_DOWN [of SUPERPGSIZE 21 "a + PGSIZE"] u by (simp add: SUPERPG_DOWN_def SUPERPGSIZE_def)
  have A: "unat a = 2 ^ 21 * c + 4096 * d" unfolding b(1) bd(1) by simp
  show "if SUPERPG_ROUNDUP a = a then SUPERPG_DOWN (a + PGSIZE) = a else a + PGSIZE \<le> SUPERPG_ROUNDUP a"
  proof (cases "d = 0")
    case True
    then have "SUPERPG_ROUNDUP a = a" "SUPERPG_DOWN (a + PGSIZE) = a" using U D A by (simp_all add: word_unat_eq_iff)
    then show ?thesis by simp
  next
    case False
    have "a + PGSIZE \<le> SUPERPG_ROUNDUP a" unfolding word_le_nat_alt u U A using False bd(2) by simp
    moreover have "SUPERPG_ROUNDUP a \<noteq> a" using U A False bd(2) by (simp add: word_unat_eq_iff)
    ultimately show ?thesis by simp
  qed
qed

text \<open>The outcome of one attempt, and that it succeeds when three pages are free and none needs reclaiming.\<close>

definition try_result :: "(kmem \<Rightarrow> kmem option) \<Rightarrow> mach \<Rightarrow> u64 \<Rightarrow> u64 \<Rightarrow> u64 \<Rightarrow> bool \<Rightarrow> mach \<Rightarrow> bool" where
  "try_result af s t a prm ok s' \<longleftrightarrow> page_try s t a prm ok s' \<and> (af = Some \<and> 3 < card (kfree_set (km s)) \<longrightarrow> ok) \<and>
     (af = Some \<and> ok \<longrightarrow> took_pages 3 (km s) (km s'))"

lemma alloc_loop_one:
  assumes "vm_ok s t" "i < NCPU" "reclaims {} af" "unat a = 4096 * b" "a < MAXVA" "xl 2 (pm s) t a = None"
  shows "\<exists>r. alloc_loop af i (uvmdealloc af i t) t a (a + PGSIZE) prm COMMONPAGE (rounds a (a + PGSIZE) PGSIZE) s a = Some r \<and>
    (case r of Inl s' \<Rightarrow> try_result af s t a (PTE_R OR PTE_U OR prm) False s'
     | Inr s' \<Rightarrow> try_result af s t a (PTE_R OR PTE_U OR prm) True s')"
proof -
  have lt: "unat a < 2 ^ 38" using assms(5) by (simp add: MAXVA_def word_less_nat_alt)
  then have u: "unat (a + PGSIZE) = unat a + 4096" using page_round(1) [OF assms(4)] by simp
  then have less: "a < a + PGSIZE" by (simp add: word_less_nat_alt)
  then have r: "rounds a (a + PGSIZE) PGSIZE = Suc (Suc 0)" by (simp add: rounds_def PGSIZE_def)
  have d: "uvmdealloc af i t x a a = Some (x, a)" for x by (simp add: uvmdealloc_def dealloc_body_def)
  have al: "unat a mod 4096 = 0" using assms(4) by simp
  obtain s1 mem where z: "kzalloc_s af i PGSIZE s = Some (s1, mem)"
    "if mem = 0 then page_try s t a (PTE_R OR PTE_U OR prm) False s1 \<and> kfree_set (km s) = {}
     else \<exists>s2 r. mappages af i s1 t a PGSIZE mem (PTE_R OR PTE_U OR prm) 0 = Some (s2, r) \<and>
       (if r = 0 then page_try s t a (PTE_R OR PTE_U OR prm) True s2 \<and> (af = Some \<longrightarrow> took_pages 3 (km s) (km s2))
        else \<exists>s3. kfree_s i mem s2 = Some s3 \<and> page_try s t a (PTE_R OR PTE_U OR prm) False s3 \<and>
          (af = Some \<longrightarrow> card (kfree_set (km s)) \<le> 3))"
    using one_page [OF assms(1-3) al assms(5,6), of "PTE_R OR PTE_U OR prm"] by blast
  show ?thesis
  proof (cases "mem = 0")
    case True
    then show ?thesis using z less d unfolding r by (simp add: COMMONPAGE_def SUPERPAGE_def Let_def try_result_def)
  next
    case False
    then obtain s2 r where m: "mappages af i s1 t a PGSIZE mem (PTE_R OR PTE_U OR prm) 0 = Some (s2, r)"
      "if r = 0 then page_try s t a (PTE_R OR PTE_U OR prm) True s2 \<and> (af = Some \<longrightarrow> took_pages 3 (km s) (km s2))
        else \<exists>s3. kfree_s i mem s2 = Some s3 \<and> page_try s t a (PTE_R OR PTE_U OR prm) False s3 \<and>
          (af = Some \<longrightarrow> card (kfree_set (km s)) \<le> 3)" using z(2) by auto
    then show ?thesis using z(1) less d False unfolding r
      by (cases "r = 0") (auto simp: COMMONPAGE_def SUPERPAGE_def Let_def try_result_def)
  qed
qed

lemma uvmalloc_one:
  assumes "vm_ok s t" "i < NCPU" "reclaims {} af" "unat a = 4096 * b" "a < MAXVA" "xl 2 (pm s) t a = None"
  shows "\<exists>s' r. uvmalloc af i t s a (a + PGSIZE) prm = Some (s', r) \<and> (r = 0 \<or> r = a + PGSIZE) \<and>
    try_result af s t a (PTE_R OR PTE_U OR prm) (r \<noteq> 0) s'"
proof -
  have lt: "unat a < 2 ^ 38" using assms(5) by (simp add: MAXVA_def word_less_nat_alt)
  then have "unat a + 2 ^ 21 < 2 ^ 64" by simp
  note R = page_round [OF assms(4) this]
  have ge: "\<not> a + PGSIZE < a" "a + PGSIZE \<noteq> 0" "\<not> a + PGSIZE \<le> a"
    using R(1) by (auto simp: word_less_nat_alt word_le_nat_alt simp flip: unat_eq_0)
  have none: "alloc_loop af i (uvmdealloc af i t) t a a prm l (rounds a a sz) x a = Some (Inr x)" for l sz x
    by (simp add: rounds_def)
  obtain r where r: "alloc_loop af i (uvmdealloc af i t) t a (a + PGSIZE) prm COMMONPAGE (rounds a (a + PGSIZE) PGSIZE) s a = Some r"
    "case r of Inl s' \<Rightarrow> try_result af s t a (PTE_R OR PTE_U OR prm) False s'
     | Inr s' \<Rightarrow> try_result af s t a (PTE_R OR PTE_U OR prm) True s'"
    using alloc_loop_one [OF assms] by blast
  show ?thesis
  proof (cases "SUPERPG_ROUNDUP a = a")
    case True
    then have "SUPERPG_DOWN (a + PGSIZE) = a" using R(3) by simp
    then show ?thesis using r ge none True R(2) by (cases r) (auto simp: uvmalloc_def alloc_body_def Let_def)
  next
    case False
    then have "a + PGSIZE \<le> SUPERPG_ROUNDUP a" using R(3) by simp
    then show ?thesis using r ge R(2) by (cases r) (auto simp: uvmalloc_def alloc_body_def Let_def)
  qed
qed
section \<open>The handler\<close>

text \<open>No entry for the page: the table is missing, or its slot is zero.\<close>

definition untouched :: "mach \<Rightarrow> u64 \<Rightarrow> u64 \<Rightarrow> bool" where
  "untouched s t va \<longleftrightarrow> (case stop 2 0 (pm s) t va of None \<Rightarrow> True | Some (pte, l) \<Rightarrow> ld64 (pm s) pte = 0)"

lemma fault_page:
  assumes "va < MAXVA"
  shows "PGROUNDDOWN va < MAXVA" "PGROUNDUP (va + 1) = PGROUNDDOWN va + PGSIZE" "unat (PGROUNDDOWN va) = 4096 * vpn va"
proof -
  have lt: "unat va < 2 ^ 38" using assms by (simp add: MAXVA_def word_less_nat_alt)
  have d: "unat (PGROUNDDOWN va) = 4096 * vpn va" by (simp add: unat_PGROUNDDOWN)
  then show "unat (PGROUNDDOWN va) = 4096 * vpn va" .
  have "4096 * vpn va \<le> unat va" by simp
  then show "PGROUNDDOWN va < MAXVA" using lt d by (simp add: MAXVA_def word_less_nat_alt)
  have "unat (PGROUNDDOWN va) + 2 ^ 21 < 2 ^ 64" using lt d by simp
  note R = page_round(1) [OF d this]
  have "unat (va + 1 + (PGSIZE - 1)) = unat va + 4096" using lt by (simp add: PGSIZE_def unat_add_lem [THEN iffD1])
  then have "unat (PGROUNDUP (va + 1)) = (unat va + 4096) div 4096 * 4096"
    using unat_ROUND_DOWN [of PGSIZE 12 "va + 1 + (PGSIZE - 1)"] unfolding PGROUNDUP_def ROUND_UP_eq by (simp add: PGSIZE_def)
  also have "(unat va + 4096) div 4096 = vpn va + 1" by (rule div_add_self2) simp
  also have "(vpn va + 1) * 4096 = unat (PGROUNDDOWN va + PGSIZE)" using R d by simp
  finally show "PGROUNDUP (va + 1) = PGROUNDDOWN va + PGSIZE" by (simp add: word_unat_eq_iff)
qed

lemma untouched_xl:
  assumes "vm_ok s t" "untouched s t va" "va < MAXVA"
  shows "xl 2 (pm s) t (PGROUNDDOWN va) = None"
proof -
  have "xl 2 (pm s) t va = None"
    using assms(2) xl_stop2 [OF assms(1), of va] by (auto simp: untouched_def leaf_view_def split: option.splits)
  then show ?thesis using xl_page [OF fault_page(1) [OF assms(3)] assms(3), of "pm s" t] fault_page(3) [OF assms(3)] by simp
qed

lemma stop_agree: "agree 0 l u a \<Longrightarrow> stop l 0 m t u = stop l 0 m t a"
  by (induction l arbitrary: t) (auto simp: agree_Suc agree_def Let_def)

lemma pagefault_zero:
  assumes ok: "vm_ok (mc s) t" and i: "i < NCPU" "reclaims {} af" and va: "va < MAXVA"
    and v: "find_vma_for_va s mm va = Some j" "CHECK_PERM cause (vmas s j)" "vtype (vmas s j) \<noteq> VMA_FILE"
    and u: "untouched (mc s) t va"
  shows "\<exists>m' got. pagefault af i fread s mm cause t va = Some (s\<lparr>mc := m'\<rparr>, 0) \<and>
    try_result af (mc s) t (PGROUNDDOWN va) (PTE_R OR PTE_U OR ucast (perm_vma2pte (perm (vmas s j)))) got m'"
proof -
  let ?p = "ucast (perm_vma2pte (perm (vmas s j))) :: u64"
  note P = fault_page [OF va]
  obtain m' r where m: "uvmalloc af i t (mc s) (PGROUNDDOWN va) (PGROUNDDOWN va + PGSIZE) ?p = Some (m', r)"
    "try_result af (mc s) t (PGROUNDDOWN va) (PTE_R OR PTE_U OR ?p) (r \<noteq> 0) m'"
    using uvmalloc_one [OF ok i P(3,1) untouched_xl [OF ok u va]] by blast
  have "pagefault af i fread s mm cause t va = Some (s\<lparr>mc := m'\<rparr>, 0)"
  proof (cases "stop 2 0 (pm (mc s)) t va")
    case None
    then show ?thesis using walk_lookup [OF ok va, of af i] P(1,2) v m(1)
      by (simp add: pagefault_def Let_def not_le [symmetric])
  next
    case (Some x)
    obtain pte l where x: "x = (pte, l)" by (cases x)
    have "pte \<noteq> 0" using stop_level(1) [OF ok] Some x by simp
    then show ?thesis using Some x walk_lookup [OF ok va, of af i] P(1,2) v m(1) u
      by (simp add: pagefault_def Let_def not_le [symmetric] untouched_def load_def)
  qed
  then show ?thesis using m(2) by blast
qed

lemma pagefault_cow_ok:
  assumes ok: "vm_ok (mc s) t" and i: "i < NCPU" "reclaims {} af" and va: "va < MAXVA"
    and v: "find_vma_for_va s mm va = Some j" "CHECK_PERM cause (vmas s j)"
    and x: "xl 2 (pm (mc s)) t va = Some (e, 0)" "is_a_cow_page (PTE_FLAGS e)"
    and q: "q < NPAGES" "PTE2PA e = page_to_pa q" "allocated (kpages (km (mc s)) q)" "page_to_pa q \<notin> tabs 2 (pm (mc s)) t"
  shows "\<exists>m' r. pagefault af i fread s mm cause t va = Some (s\<lparr>mc := m'\<rparr>, r) \<and>
    (if r = 0 then \<exists>q'. cow_copy (mc s) t va e q q' m'
     else r = - 1 \<and> kfree_set (km (mc s)) = {} \<and> pm m' = pm (mc s) \<and> vm_ok m' t \<and> keeps (km (mc s)) (km m'))"
proof -
  obtain pte where p: "stop 2 0 (pm (mc s)) t va = Some (pte, 0)" "pte \<noteq> 0" "ld64 (pm (mc s)) pte = e" "testb e PTE_V"
    using entry_of [OF ok x(1)] by blast
  obtain m' r where c: "cow af i (mc s) pte 0 (page_to_pa q) (PTE_FLAGS e) = Some (m', r)"
    "if r = 0 then \<exists>q'. cow_copy (mc s) t va e q q' m'
     else r = - 1 \<and> kfree_set (km (mc s)) = {} \<and> pm m' = pm (mc s) \<and> vm_ok m' t \<and> keeps (km (mc s)) (km m')"
    using cow_ok [OF ok i va p(1,4) q(1,3,4)] by blast
  have "e \<noteq> 0" using p(4) by auto
  then have "pagefault af i fread s mm cause t va = Some (s\<lparr>mc := m'\<rparr>, r)"
    using walk_lookup [OF ok va, of af i] p fault_page(1) [OF va] v x(2) c(1) q(2)
    by (simp add: pagefault_def Let_def not_le [symmetric] load_def testb_flags)
  then show ?thesis using c(2) by blast
qed

text \<open>After a fault that it could resolve, \<open>copyout\<close> still uses the pointer from before it.\<close>

lemma copyout_null:
  assumes ok: "vm_ok (mc s) t" and i: "i < NCPU" "reclaims {} af" and va: "va < MAXVA" "len \<noteq> 0"
    and v: "find_vma_for_va s mm va = Some j" "CHECK_PERM STORE_PAGEFAULT (vmas s j)" "vtype (vmas s j) \<noteq> VMA_FILE"
    and w: "stop 2 0 (pm (mc s)) t (PGROUNDDOWN va) = None"
  shows "copyout af i fread mm t s va src len = None"
proof -
  note P = fault_page [OF va(1)]
  have u: "untouched (mc s) t va"
    using w stop_agree [of 2 "PGROUNDDOWN va" va "pm (mc s)" t] agree_vpn [OF P(1) va(1)] P(3) by (simp add: untouched_def)
  obtain m' where "pagefault af i fread s mm STORE_PAGEFAULT t va = Some (s\<lparr>mc := m'\<rparr>, 0)"
    using pagefault_zero [OF ok i va(1) v u, of fread] by blast
  then have "copyout_page af i fread mm t s va = None"
    using walk_lookup [OF ok P(1), of af i] w P(1) by (simp add: copyout_page_def Let_def not_le [symmetric] load_def)
  then show ?thesis using va(2) by (simp add: copyout.simps)
qed
end
