(* ===== verification/Fault_Props.thy ===== *)
theory Fault_Props
  imports Fault_Correct
begin

text \<open>
  Unmapping, copy on write and demand paging: what \<^verbatim>\<open>uvmunmap\<close>, \<^verbatim>\<open>pagefault\<close> and
  \<^verbatim>\<open>copyout\<close> do to translations, frames and reference counts.
\<close>

section \<open>Unmapping\<close>

text \<open>C7.  \<open>uvmunmap\<close> on demand, of a range of ordinary pages on distinct frames of the allocator,
  always succeeds.  No page of the range stays mapped and every other translation is as it was; with
  \<open>do_free\<close> each frame that was mapped in the range loses exactly one reference, the last one freeing
  it, and no other page that was handed out changes; without, none does.  The tables stay, no free
  page is taken, and only bytes of the tables change.\<close>

theorem uvmunmap_correct:
  assumes "vm_ok s t" "va mod PGSIZE = 0" "unat va + unat npages * 4096 \<le> unat MAXVA"
    and "unmappable s t (vpn va) (unat npages)" and "f = xl 2 (pm s) t"
  shows "\<exists>s'. uvmunmap af i t s va npages do_free True = Some s' \<and> vm_ok s' t \<and> tabs 2 (pm s') t = tabs 2 (pm s) t \<and>
    (\<forall>u<MAXVA. xl 2 (pm s') t u = (if vpn va \<le> vpn u \<and> vpn u < vpn va + unat npages then None else f u)) \<and>
    (\<forall>q<NPAGES. allocated (kpages (km s) q) \<longrightarrow>
       (if do_free \<and> (\<exists>w. vpn va \<le> w \<and> w < vpn va + unat npages \<and> leaf_of f w q)
        then dropped (km s) (km s') q else kpages (km s') q = kpages (km s) q)) \<and>
    (\<forall>q<NPAGES. \<not> allocated (kpages (km s) q) \<longrightarrow> \<not> allocated (kpages (km s') q)) \<and>
    (\<forall>y. y \<notin> tree_bytes 2 (pm s) t \<longrightarrow> pm s' y = pm s y)"
proof -
  have r: "unat va + unat npages * 4096 \<le> 2 ^ 38" using assms(3) by (simp add: MAXVA_def)
  then have "unat (npages * PGSIZE) = unat npages * 4096" by (simp add: PGSIZE_def unat_mult_lem [THEN iffD1])
  then have e: "unat (va + npages * PGSIZE) = unat va + unat npages * 4096" using r by (simp add: unat_add_lem [THEN iffD1])
  have "uvmunmap af i t s va npages do_free True =
      unmap_loop af i (alloc_body af i (dealloc_body (unmap_depth 0 af i t)) t) t va (va + npages * PGSIZE) do_free True (unat npages) s va"
    unfolding uvmunmap_def One_nat_def unmap_depth.simps(2) unmap_body_def using assms(2) by simp
  then obtain s' where s': "uvmunmap af i t s va npages do_free True = Some s'" "unmap_post s t (vpn va) (unat npages) do_free s'"
    using unmap_loop_ok [OF assms(1) r e assms(4)] by metis
  show ?thesis using s' unfolding unmap_post_def released_def unmapped_def assms(5) by (intro exI [of _ s'] conjI) blast+
qed

section \<open>An address space with one page of its own\<close>

text \<open>What \<open>uvmalloc\<close> of one page makes of an empty address space.\<close>

definition owned_space :: "mach \<Rightarrow> u64 \<Rightarrow> u64 \<Rightarrow> nat \<Rightarrow> bool" where
  "owned_space s t prm q \<longleftrightarrow> (\<exists>s0. empty_space s0 t \<and> uvmalloc Some 0 t s0 0x1000 0x2000 prm = Some (s, 0x2000) \<and>
     zero_mapped s0 t 0x1000 (PTE_R OR PTE_U OR prm) q s)"

lemma owned_try:
  assumes e: "empty_space s0 t"
  shows "\<exists>s. uvmalloc Some 0 t s0 0x1000 0x2000 prm = Some (s, 0x2000) \<and> try_result Some s0 t 0x1000 (PTE_R OR PTE_U OR prm) True s"
proof -
  note E = empty_space_ok [OF e]
  have p: "0 < NCPU" "unat (0x1000 :: u64) = 4096 * 1" "(0x1000 :: u64) < MAXVA" by (simp_all add: config MAXVA_def)
  obtain s r where "uvmalloc Some 0 t s0 0x1000 (0x1000 + PGSIZE) prm = Some (s, r)" "r = 0 \<or> r = 0x1000 + PGSIZE"
    "try_result Some s0 t 0x1000 (PTE_R OR PTE_U OR prm) (r \<noteq> 0) s"
    using uvmalloc_one [OF E(1) p(1) no_reclaim p(2,3) E(2)] by blast
  moreover from this(3) have "r \<noteq> 0" using E(3) by (simp add: try_result_def)
  ultimately show ?thesis by (simp add: PGSIZE_def)
qed

lemma owned_ex: "\<exists>s t q. owned_space s t prm q"
proof -
  obtain s0 t where e: "empty_space s0 t" using empty_space_ex by blast
  then show ?thesis using owned_try [OF e, of prm] unfolding owned_space_def try_result_def page_try_def by auto
qed

lemma owned_ok:
  assumes o: "owned_space s t prm q" and fl: "flags_ok prm"
  defines "e \<equiv> PA2PTE (page_to_pa q) OR (PTE_R OR PTE_U OR prm) OR PTE_V"
  shows "vm_ok s t" "q < NPAGES" "allocated (kpages (km s) q)" "refcnt (kpages (km s) q) = 1" "page_to_pa q \<notin> tabs 2 (pm s) t"
    "kfree_set (km s) \<noteq> {}" "u < MAXVA \<Longrightarrow> xl 2 (pm s) t u = (if vpn u = 1 then Some (e, 0) else None)"
    "PTE2PA e = page_to_pa q" "flags_ok b \<Longrightarrow> testb (PTE_FLAGS e) b = testb (PTE_R OR PTE_U OR prm OR PTE_V) b"
proof -
  obtain s0 where s0: "empty_space s0 t" "uvmalloc Some 0 t s0 0x1000 0x2000 prm = Some (s, 0x2000)"
    "zero_mapped s0 t 0x1000 (PTE_R OR PTE_U OR prm) q s" using o by (auto simp: owned_space_def)
  note E = empty_space_ok [OF s0(1)]
  have tr: "try_result Some s0 t 0x1000 (PTE_R OR PTE_U OR prm) True s" using owned_try [OF s0(1), of prm] s0(2) by auto
  then show "vm_ok s t" by (simp add: try_result_def page_try_def)
  show qn: "q < NPAGES" and "allocated (kpages (km s) q)" "refcnt (kpages (km s) q) = 1" "page_to_pa q \<notin> tabs 2 (pm s) t"
    using s0(3) by (simp_all add: zero_mapped_def)
  show "u < MAXVA \<Longrightarrow> xl 2 (pm s) t u = (if vpn u = 1 then Some (e, 0) else None)"
    using s0(3) E(2) by (simp add: zero_mapped_def e_def)
  show "kfree_set (km s) \<noteq> {}" using tr E(3) took_pages_all [of 3 "km s0" "km s"] by (auto simp: try_result_def)
  have "take_bit 12 (page_to_pa q) = 0" using page_to_pa_al [OF qn] by (simp add: page_al_def)
  moreover have "flags_ok ((PTE_R OR PTE_U OR prm) OR PTE_V)" using fl by simp
  ultimately show "PTE2PA e = page_to_pa q" unfolding e_def by (rule PTE2PA_inverse)
  show "flags_ok b \<Longrightarrow> testb (PTE_FLAGS e) b = testb (PTE_R OR PTE_U OR prm OR PTE_V) b"
    unfolding e_def by (simp add: testb_flags or.assoc)
qed

text \<open>One writable anonymous area over the page.\<close>

definition one_area :: mm_struct where
  "one_area = \<lparr>head_vma = [0], pagetable = 0, start_brk = 0, brk = 0, heapvma = None\<rparr>"

definition area_sys :: "mach \<Rightarrow> vmsys" where
  "area_sys s = (demo_sys s)\<lparr>vmas := (\<lambda>_. \<lparr>vtype = VMA_ANON, startva = 0x1000, vsize = 0x1000, perm = PERM_READ OR PERM_WRITE,
     used = 1, offset = 0, vm_file = None\<rparr>)\<rparr>"

lemma area_sys_ok:
  "mc (area_sys s) = s" "find_vma_for_va (area_sys s) one_area 0x1234 = Some 0"
  "CHECK_PERM STORE_PAGEFAULT (vmas (area_sys s) 0)" "vtype (vmas (area_sys s) 0) \<noteq> VMA_FILE"
  by (simp_all add: area_sys_def demo_sys_def one_area_def find_vma_for_va_def vma_covers_def CHECK_PERM_def PERM_READ_def PERM_WRITE_def)

theorem uvmunmap_correct_witness:
  "\<exists>s t q s'. owned_space s t PTE_W q \<and> uvmunmap Some 0 t s 0x1000 1 True True = Some s' \<and> xl 2 (pm s) t 0x1000 \<noteq> None \<and>
    xl 2 (pm s') t 0x1000 = None \<and> allocated (kpages (km s) q) \<and> \<not> allocated (kpages (km s') q)"
proof -
  obtain s t q where o: "owned_space s t PTE_W q" using owned_ex by blast
  note O = owned_ok [OF o flags_ok_bits(3)]
  let ?e = "PA2PTE (page_to_pa q) OR (PTE_R OR PTE_U OR PTE_W) OR PTE_V"
  have "testb (PTE_FLAGS ?e) PTE_R" unfolding O(9) [OF flags_ok_bits(2)] by (simp add: testb_or PTE_R_def)
  then have fl: "PTE_FLAGS ?e \<noteq> PTE_V" by auto
  have um: "unmappable s t (vpn 0x1000) (unat (1 :: u64))"
    using O(2,3,5,7,8) fl unfolding unmappable_def by (auto split: if_splits)
  have r: "(0x1000 :: u64) mod PGSIZE = 0" "unat (0x1000 :: u64) + unat (1 :: u64) * 4096 \<le> unat MAXVA"
    by (simp_all add: PGSIZE_def MAXVA_def)
  obtain s' where s': "uvmunmap Some 0 t s 0x1000 1 True True = Some s'"
    "\<forall>u<MAXVA. xl 2 (pm s') t u = (if vpn 0x1000 \<le> vpn u \<and> vpn u < vpn 0x1000 + unat (1 :: u64) then None else xl 2 (pm s) t u)"
    "\<forall>p<NPAGES. allocated (kpages (km s) p) \<longrightarrow>
       (if True \<and> (\<exists>w. vpn 0x1000 \<le> w \<and> w < vpn 0x1000 + unat (1 :: u64) \<and> leaf_of (xl 2 (pm s) t) w p)
        then dropped (km s) (km s') p else kpages (km s') p = kpages (km s) p)"
    using uvmunmap_correct [OF O(1) r um refl, of Some 0 True] by blast
  have m: "(0x1000 :: u64) < MAXVA" by (simp add: MAXVA_def)
  have x: "xl 2 (pm s) t 0x1000 = Some (?e, 0)" using O(7) [OF m] by simp
  then have "leaf_of (xl 2 (pm s) t) (vpn 0x1000) q" using leaf_of_page [OF m] O(8) by blast
  then have "\<exists>w. vpn 0x1000 \<le> w \<and> w < vpn 0x1000 + unat (1 :: u64) \<and> leaf_of (xl 2 (pm s) t) w q"
    by (intro exI [of _ "vpn 0x1000"]) simp
  then have "dropped (km s) (km s') q" using s'(3) O(2,3) by presburger
  then have "\<not> allocated (kpages (km s') q)" using O(4) by (simp add: dropped_def)
  moreover have "xl 2 (pm s') t 0x1000 = None" using s'(2) m by simp
  ultimately show ?thesis using o s'(1) x O(3) by blast
qed

section \<open>Page faults\<close>

text \<open>C6.  A write fault on a page shared for copy on write, in an area that allows the access,
  either returns 0, and then the faulting process has a page of its own there: new, with one
  reference and the bytes of the old one, mapped writable with the old flags; the old page has one
  reference less, every other translation, page and byte outside the tables is as before.  Or it
  returns -1, no page was free, and neither memory nor any page that was handed out has changed.\<close>

theorem pagefault_cow:
  assumes "vm_ok (mc s) t" "i < NCPU" "reclaims {} af" "va < MAXVA"
    and "find_vma_for_va s mm va = Some j" "CHECK_PERM cause (vmas s j)"
    and "xl 2 (pm (mc s)) t va = Some (e, 0)" "is_a_cow_page (PTE_FLAGS e)"
    and "q < NPAGES" "PTE2PA e = page_to_pa q" "allocated (kpages (km (mc s)) q)" "page_to_pa q \<notin> tabs 2 (pm (mc s)) t"
  shows "\<exists>m' r. pagefault af i fread s mm cause t va = Some (s\<lparr>mc := m'\<rparr>, r) \<and>
    (if r = 0 then \<exists>q'. cow_copy (mc s) t va e q q' m'
     else r = - 1 \<and> kfree_set (km (mc s)) = {} \<and> pm m' = pm (mc s) \<and> vm_ok m' t \<and> keeps (km (mc s)) (km m'))"
  by (rule pagefault_cow_ok [OF assms])

theorem pagefault_cow_witness:
  "\<exists>s t q q' m' e. owned_space s t PTE_SHARE q \<and>
    pagefault Some 0 (\<lambda>_ _ _. Some) (area_sys s) one_area STORE_PAGEFAULT t 0x1234 = Some ((area_sys s)\<lparr>mc := m'\<rparr>, 0) \<and>
    cow_copy s t 0x1234 e q q' m'"
proof -
  obtain s t q where o: "owned_space s t PTE_SHARE q" using owned_ex by blast
  have sh: "flags_ok PTE_SHARE" by simp
  note O = owned_ok [OF o sh] and A = area_sys_ok [of s]
  let ?e = "PA2PTE (page_to_pa q) OR (PTE_R OR PTE_U OR PTE_SHARE) OR PTE_V"
  have m: "0 < NCPU" "(0x1234 :: u64) < MAXVA" by (simp_all add: MAXVA_def config)
  have x: "xl 2 (pm s) t 0x1234 = Some (?e, 0)" using O(7) [OF m(2)] by simp
  have c: "is_a_cow_page (PTE_FLAGS ?e)"
    unfolding is_a_cow_page_def O(9) [OF flags_ok_bits(6)] O(9) [OF flags_ok_bits(7)]
    by (simp add: testb_or PTE_R_def PTE_U_def PTE_V_def PTE_SHARE_def PTE_READONLY_def)
  obtain m' r where r: "pagefault Some 0 (\<lambda>_ _ _. Some) (area_sys s) one_area STORE_PAGEFAULT t 0x1234 = Some ((area_sys s)\<lparr>mc := m'\<rparr>, r)"
    "if r = 0 then \<exists>q'. cow_copy s t 0x1234 ?e q q' m'
     else r = - 1 \<and> kfree_set (km s) = {} \<and> pm m' = pm s \<and> vm_ok m' t \<and> keeps (km s) (km m')"
    using pagefault_cow [OF _ m(1) no_reclaim m(2) A(2,3) _ c O(2,8), of t "\<lambda>_ _ _. Some"] O(1,3,5) x unfolding A(1) by blast
  moreover have r0: "r = 0" using r(2) O(6) by (auto split: if_splits)
  moreover obtain q' where "cow_copy s t 0x1234 ?e q q' m'" using r(2) r0 by auto
  ultimately show ?thesis using o by blast
qed

text \<open>C14.  The first access to a page of an anonymous area, one the area allows, returns 0.  With
  enough free memory the page is then mapped to a new page of zeroes, readable and with the
  permissions of the area, for the user; every other translation, every page handed out and its
  bytes outside the tables are as before.  Out of memory, the handler returns 0 all the same, with
  every translation as before, the page still unmapped.\<close>

theorem pagefault_first_touch:
  assumes "vm_ok (mc s) t" "i < NCPU" "reclaims {} af" "va < MAXVA"
    and "find_vma_for_va s mm va = Some j" "CHECK_PERM cause (vmas s j)" "vtype (vmas s j) \<noteq> VMA_FILE"
    and "untouched (mc s) t va" "prm = PTE_R OR PTE_U OR ucast (perm_vma2pte (perm (vmas s j)))"
  shows "\<exists>m' got. pagefault af i fread s mm cause t va = Some (s\<lparr>mc := m'\<rparr>, 0) \<and> vm_ok m' t \<and> keeps (km (mc s)) (km m') \<and>
    (\<forall>x p. x \<in> page_bytes p \<longrightarrow> p \<in> held (km (mc s)) \<longrightarrow> p \<notin> tabs 2 (pm (mc s)) t \<longrightarrow> pm m' x = pm (mc s) x) \<and>
    (if got then \<exists>q. zero_mapped (mc s) t (PGROUNDDOWN va) prm q m' else \<forall>u<MAXVA. xl 2 (pm m') t u = xl 2 (pm (mc s)) t u) \<and>
    (af = Some \<and> 3 < card (kfree_set (km (mc s))) \<longrightarrow> got)"
proof -
  obtain m' got where m: "pagefault af i fread s mm cause t va = Some (s\<lparr>mc := m'\<rparr>, 0)"
    "try_result af (mc s) t (PGROUNDDOWN va) prm got m'" using pagefault_zero [OF assms(1-8), of fread] assms(9) by blast
  then show ?thesis unfolding try_result_def page_try_def keeps_def by (intro exI [of _ m'] exI [of _ got] conjI) blast+
qed

theorem pagefault_first_touch_witness:
  "\<exists>s t m' q. empty_space s t \<and>
    pagefault Some 0 (\<lambda>_ _ _. Some) (area_sys s) one_area STORE_PAGEFAULT t 0x1234 = Some ((area_sys s)\<lparr>mc := m'\<rparr>, 0) \<and>
    zero_mapped s t (PGROUNDDOWN 0x1234) (PTE_R OR PTE_U OR ucast (perm_vma2pte (PERM_READ OR PERM_WRITE))) q m'"
proof -
  obtain s t where e: "empty_space s t" using empty_space_ex by blast
  note E = empty_space_ok [OF e] and A = area_sys_ok [of s]
  have m: "0 < NCPU" "(0x1234 :: u64) < MAXVA" by (simp_all add: MAXVA_def config)
  have v: "vm_ok (mc (area_sys s)) t" "untouched (mc (area_sys s)) t 0x1234" using E(1,4) A(1) by (simp_all add: untouched_def)
  have p: "PTE_R OR PTE_U OR ucast (perm_vma2pte (PERM_READ OR PERM_WRITE)) =
    PTE_R OR PTE_U OR (ucast (perm_vma2pte (perm (vmas (area_sys s) 0))) :: u64)" by (simp add: area_sys_def)
  obtain m' got where r: "pagefault Some 0 (\<lambda>_ _ _. Some) (area_sys s) one_area STORE_PAGEFAULT t 0x1234 = Some ((area_sys s)\<lparr>mc := m'\<rparr>, 0)"
    "if got then \<exists>q. zero_mapped s t (PGROUNDDOWN 0x1234) (PTE_R OR PTE_U OR ucast (perm_vma2pte (PERM_READ OR PERM_WRITE))) q m'
     else \<forall>u<MAXVA. xl 2 (pm m') t u = xl 2 (pm s) t u" "Some = Some \<and> 3 < card (kfree_set (km s)) \<longrightarrow> got"
    using pagefault_first_touch [OF v(1) m(1) no_reclaim m(2) A(2-4) v(2) p, of "\<lambda>_ _ _. Some"] unfolding A(1) by blast
  have got using r(3) E(3) by simp
  then obtain q where "zero_mapped s t (PGROUNDDOWN 0x1234) (PTE_R OR PTE_U OR ucast (perm_vma2pte (PERM_READ OR PERM_WRITE))) q m'"
    using r(2) by auto
  then show ?thesis using e r(1) by blast
qed

text \<open>C39.  \<open>copyout\<close> to a page of an anonymous area that may be written has no result when the
  last-level table of the page does not exist yet: the fault it raises is resolved, but the entry
  pointer it goes on with is still the null pointer from before.\<close>

theorem copyout_missing_table:
  assumes "vm_ok (mc s) t" "i < NCPU" "reclaims {} af" "va < MAXVA" "len \<noteq> 0"
    and "find_vma_for_va s mm va = Some j" "CHECK_PERM STORE_PAGEFAULT (vmas s j)" "vtype (vmas s j) \<noteq> VMA_FILE"
    and "stop 2 0 (pm (mc s)) t (PGROUNDDOWN va) = None"
  shows "copyout af i fread mm t s va src len = None"
  by (rule copyout_null [OF assms])

theorem copyout_missing_table_witness:
  "\<exists>s t. empty_space s t \<and> copyout Some 0 (\<lambda>_ _ _. Some) one_area t (area_sys s) 0x1234 0x80010000 8 = None"
proof -
  obtain s t where e: "empty_space s t" using empty_space_ex by blast
  note E = empty_space_ok [OF e] and A = area_sys_ok [of s]
  have m: "0 < NCPU" "(0x1234 :: u64) < MAXVA" "(8 :: u64) \<noteq> 0" by (simp_all add: MAXVA_def config)
  have v: "vm_ok (mc (area_sys s)) t" "stop 2 0 (pm (mc (area_sys s))) t (PGROUNDDOWN 0x1234) = None" using E(1,4) A(1) by simp_all
  show ?thesis using e copyout_missing_table [OF v(1) m(1) no_reclaim m(2,3) A(2-4) v(2)] by blast
qed

end
