(* ===== verification/Vma_Correct.thy ===== *)
theory Vma_Correct
  imports Vma
begin

text \<open>
  Memory areas as a partition of addresses: splitting an area changes nothing that a lookup can
  see, and a change of permissions changes exactly the range asked for.
\<close>

text \<open>Two areas of the list share no address, and none wraps around.\<close>

definition areas_ok :: "vmsys \<Rightarrow> mm_struct \<Rightarrow> bool" where
  "areas_ok s mm \<longleftrightarrow> distinct (head_vma mm) \<and>
     (\<forall>v\<in>set (head_vma mm). v < NVMA \<and> used (vmas s v) \<noteq> 0 \<and> unat (startva (vmas s v)) + unat (vsize (vmas s v)) < 2 ^ 64) \<and>
     (\<forall>v\<in>set (head_vma mm). \<forall>w\<in>set (head_vma mm). \<forall>a. vma_covers (vmas s v) a \<longrightarrow> vma_covers (vmas s w) a \<longrightarrow> v = w)"

text \<open>The files of the areas are open, with room for \<open>n\<close> more references in the 16-bit count.\<close>

definition files_ok :: "nat \<Rightarrow> vmsys \<Rightarrow> mm_struct \<Rightarrow> bool" where
  "files_ok n s mm \<longleftrightarrow> (\<forall>v\<in>set (head_vma mm). \<forall>f. vm_file (vmas s v) = Some f \<longrightarrow>
     0 < unat (f_count (files s f)) \<and> unat (f_count (files s f)) + n < 2 ^ 16)"

text \<open>What a lookup of an address finds: the kind of area, the permissions, and the place in the file.\<close>

definition area_view :: "vmsys \<Rightarrow> mm_struct \<Rightarrow> u64 \<Rightarrow> (vmatype \<times> u32 \<times> nat option \<times> u64) option" where
  "area_view s mm a = (case find_vma_for_va s mm a of None \<Rightarrow> None
     | Some v \<Rightarrow> Some (vtype (vmas s v), perm (vmas s v), vm_file (vmas s v), offset (vmas s v) + (a - startva (vmas s v))))"

lemma find_vma_iff:
  assumes "areas_ok s mm"
  shows "find_vma_for_va s mm a = Some v \<longleftrightarrow> v \<in> set (head_vma mm) \<and> vma_covers (vmas s v) a"
proof
  assume "find_vma_for_va s mm a = Some v"
  then show "v \<in> set (head_vma mm) \<and> vma_covers (vmas s v) a" unfolding find_vma_for_va_def by (auto simp: find_Some_iff)
next
  assume v: "v \<in> set (head_vma mm) \<and> vma_covers (vmas s v) a"
  then obtain w where w: "find_vma_for_va s mm a = Some w"
    unfolding find_vma_for_va_def by (cases "find (\<lambda>pos. vma_covers (vmas s pos) a) (head_vma mm)") (auto simp: find_None_iff)
  then have "w \<in> set (head_vma mm)" "vma_covers (vmas s w) a" unfolding find_vma_for_va_def by (auto simp: find_Some_iff)
  then show "find_vma_for_va s mm a = Some v" using w v assms unfolding areas_ok_def by metis
qed

lemma area_view_eqI:
  assumes "areas_ok s mm" "areas_ok s' mm'"
    and "\<And>v. v \<in> set (head_vma mm) \<Longrightarrow> vma_covers (vmas s v) a \<Longrightarrow> \<exists>w\<in>set (head_vma mm'). vma_covers (vmas s' w) a \<and>
      vtype (vmas s' w) = vtype (vmas s v) \<and> perm (vmas s' w) = g (perm (vmas s v)) \<and> vm_file (vmas s' w) = vm_file (vmas s v) \<and>
      offset (vmas s' w) + (a - startva (vmas s' w)) = offset (vmas s v) + (a - startva (vmas s v))"
    and "\<And>w. w \<in> set (head_vma mm') \<Longrightarrow> vma_covers (vmas s' w) a \<Longrightarrow> \<exists>v\<in>set (head_vma mm). vma_covers (vmas s v) a"
  shows "area_view s' mm' a = map_option (\<lambda>(ty, p, r). (ty, g p, r)) (area_view s mm a)"
proof (cases "find_vma_for_va s mm a")
  case None
  have "find_vma_for_va s' mm' a = None"
  proof (rule ccontr)
    assume "find_vma_for_va s' mm' a \<noteq> None"
    then obtain w where "w \<in> set (head_vma mm')" "vma_covers (vmas s' w) a" using find_vma_iff [OF assms(2)] by blast
    then obtain v where "v \<in> set (head_vma mm)" "vma_covers (vmas s v) a" using assms(4) by blast
    then show False using None find_vma_iff [OF assms(1), of a v] by simp
  qed
  then show ?thesis using None by (simp add: area_view_def)
next
  case (Some v)
  then have v: "v \<in> set (head_vma mm)" "vma_covers (vmas s v) a" using find_vma_iff [OF assms(1)] by blast+
  then obtain w where w: "w \<in> set (head_vma mm')" "vma_covers (vmas s' w) a"
    "vtype (vmas s' w) = vtype (vmas s v)" "perm (vmas s' w) = g (perm (vmas s v))" "vm_file (vmas s' w) = vm_file (vmas s v)"
    "offset (vmas s' w) + (a - startva (vmas s' w)) = offset (vmas s v) + (a - startva (vmas s v))"
    using assms(3) by blast
  then have "find_vma_for_va s' mm' a = Some w" using find_vma_iff [OF assms(2)] by blast
  then show ?thesis using Some w by (simp add: area_view_def)
qed

text \<open>Both halves of a split area.\<close>

lemma vma_covers_halves:
  assumes "unat (startva x) + unat (vsize x) < 2 ^ 64" "startva x < addr" "addr < startva x + vsize x"
  shows "startva x \<le> a \<and> a < startva x + (addr - startva x) \<longleftrightarrow> vma_covers x a \<and> a < addr"
    "addr \<le> a \<and> a < addr + (startva x + vsize x - addr) \<longleftrightarrow> vma_covers x a \<and> addr \<le> a"
    "unat (startva x) + unat (addr - startva x) < 2 ^ 64" "unat addr + unat (startva x + vsize x - addr) < 2 ^ 64"
    "vma_covers x addr" "vma_covers x (startva x)" "vma_covers x (startva x + vsize x - 1)"
    "addr \<le> startva x + vsize x - 1" "addr - 1 < addr" "startva x \<le> addr - 1" "vma_covers x (addr - 1)"
proof -
  have e: "unat (startva x + vsize x) = unat (startva x) + unat (vsize x)" using assms(1) by (simp add: unat_add_lem [THEN iffD1])
  have l: "unat (startva x) < unat addr" "unat addr < unat (startva x) + unat (vsize x)"
    using assms(2,3) e by (simp_all add: word_less_nat_alt)
  have d: "unat (addr - startva x) = unat addr - unat (startva x)" using l by (simp add: unat_sub word_le_nat_alt)
  have d2: "unat (startva x + vsize x - addr) = unat (startva x) + unat (vsize x) - unat addr"
    using l e by (simp add: unat_sub word_le_nat_alt)
  show "startva x \<le> a \<and> a < startva x + (addr - startva x) \<longleftrightarrow> vma_covers x a \<and> a < addr"
    using l e by (auto simp: vma_covers_def word_less_nat_alt word_le_nat_alt)
  show "addr \<le> a \<and> a < addr + (startva x + vsize x - addr) \<longleftrightarrow> vma_covers x a \<and> addr \<le> a"
    using l e by (auto simp: vma_covers_def word_less_nat_alt word_le_nat_alt)
  show "unat (startva x) + unat (addr - startva x) < 2 ^ 64" "unat addr + unat (startva x + vsize x - addr) < 2 ^ 64"
    using d d2 l assms(1) by linarith+
  have "startva x + vsize x \<noteq> 0" using e l by auto
  then have m: "unat (startva x + vsize x - 1) = unat (startva x) + unat (vsize x) - 1" using e by (simp add: unat_minus_one)
  have "addr \<noteq> 0" using l by auto
  then have m2: "unat (addr - 1) = unat addr - 1" by (simp add: unat_minus_one)
  show "vma_covers x addr" "vma_covers x (startva x)" "vma_covers x (startva x + vsize x - 1)"
    "addr \<le> startva x + vsize x - 1" "addr - 1 < addr" "startva x \<le> addr - 1" "vma_covers x (addr - 1)"
    using l e m m2 by (auto simp: vma_covers_def word_less_nat_alt word_le_nat_alt)
qed

definition lower_half :: "vma \<Rightarrow> u64 \<Rightarrow> vma" where
  "lower_half x addr = x\<lparr>vsize := addr - startva x\<rparr>"

definition upper_half :: "vma \<Rightarrow> u64 \<Rightarrow> vma" where
  "upper_half x addr = x\<lparr>vsize := startva x + vsize x - addr, startva := addr, offset := offset x + (addr - startva x)\<rparr>"

lemma halves_cover:
  assumes "unat (startva x) + unat (vsize x) < 2 ^ 64" "startva x < addr" "addr < startva x + vsize x"
  shows "vma_covers (lower_half x addr) a \<longleftrightarrow> vma_covers x a \<and> a < addr"
    "vma_covers (upper_half x addr) a \<longleftrightarrow> vma_covers x a \<and> addr \<le> a"
proof -
  have "vma_covers (lower_half x addr) a \<longleftrightarrow> startva x \<le> a \<and> a < startva x + (addr - startva x)"
    by (simp add: vma_covers_def lower_half_def)
  then show "vma_covers (lower_half x addr) a \<longleftrightarrow> vma_covers x a \<and> a < addr" using vma_covers_halves(1) [OF assms] by blast
  have "vma_covers (upper_half x addr) a \<longleftrightarrow> addr \<le> a \<and> a < addr + (startva x + vsize x - addr)"
    by (simp add: vma_covers_def upper_half_def)
  then show "vma_covers (upper_half x addr) a \<longleftrightarrow> vma_covers x a \<and> addr \<le> a" using vma_covers_halves(2) [OF assms] by blast
qed

text \<open>The list after a split: \<open>n\<close> is the new area, \<open>v\<close> the old one.\<close>

lemma split_areas:
  assumes ok: "areas_ok s mm" and v: "v \<in> set (head_vma mm)" and x: "x = vmas s v" "startva x < addr" "addr < startva x + vsize x"
    and n: "n \<notin> set (head_vma mm)" "n < NVMA"
    and s': "vmas s' = (vmas s)(n := if below then lower_half x addr else upper_half x addr,
        v := if below then upper_half x addr else lower_half x addr)" "head_vma mm' = n # head_vma mm"
  shows "areas_ok s' mm'" "area_view s' mm' a = area_view s mm a"
proof -
  have b: "unat (startva x) + unat (vsize x) < 2 ^ 64" "used x \<noteq> 0" "v < NVMA" using ok v x(1) by (auto simp: areas_ok_def)
  note H = halves_cover [OF b(1) x(2,3)] and U = vma_covers_halves(3,4) [OF b(1) x(2,3)]
  have nv: "n \<noteq> v" using n(1) v by auto
  have at: "vmas s' n = (if below then lower_half x addr else upper_half x addr)"
    "vmas s' v = (if below then upper_half x addr else lower_half x addr)"
    "\<And>w. w \<noteq> n \<Longrightarrow> w \<noteq> v \<Longrightarrow> vmas s' w = vmas s w" using nv by (auto simp: s'(1))
  have cv: "vma_covers (vmas s' n) a \<longleftrightarrow> vma_covers x a \<and> (a < addr \<longleftrightarrow> below)"
    "vma_covers (vmas s' v) a \<longleftrightarrow> vma_covers x a \<and> (a < addr \<longleftrightarrow> \<not> below)" for a
    using H by (auto simp: at(1,2))
  have one: "w = w'" if "w \<in> set (head_vma mm)" "w' \<in> set (head_vma mm)" "vma_covers (vmas s w) a" "vma_covers (vmas s w') a" for w w' a
    using ok that unfolding areas_ok_def by blast
  define old where "old w = (if w = n then v else w)" for w
  have orig: "old w \<in> set (head_vma mm) \<and> vma_covers (vmas s (old w)) a" if "w \<in> set (head_vma mm')" "vma_covers (vmas s' w) a" for w a
    using that cv [of a] at(3) [of w] v x(1) s'(2) by (cases "w = n"; cases "w = v") (auto simp: old_def)
  have dj: "w = w'" if w: "w \<in> set (head_vma mm')" "w' \<in> set (head_vma mm')" "vma_covers (vmas s' w) a" "vma_covers (vmas s' w') a" for w w' a
  proof -
    have "old w = old w'" using orig [OF w(1,3)] orig [OF w(2,4)] one by blast
    then show ?thesis using w(3,4) cv [of a] by (auto simp: old_def split: if_splits)
  qed
  have "w < NVMA \<and> used (vmas s' w) \<noteq> 0 \<and> unat (startva (vmas s' w)) + unat (vsize (vmas s' w)) < 2 ^ 64" if "w \<in> set (head_vma mm')" for w
    using that at b U n(2) ok s'(2) by (cases "w = n"; cases "w = v") (auto simp: lower_half_def upper_half_def areas_ok_def)
  moreover have "distinct (head_vma mm')" using ok n(1) s'(2) by (simp add: areas_ok_def)
  ultimately show ok': "areas_ok s' mm'" using dj unfolding areas_ok_def by blast
  have "area_view s' mm' a = map_option (\<lambda>(ty, p, r). (ty, id p, r)) (area_view s mm a)"
  proof (rule area_view_eqI [OF ok ok'])
    fix w assume w: "w \<in> set (head_vma mm)" "vma_covers (vmas s w) a"
    show "\<exists>y\<in>set (head_vma mm'). vma_covers (vmas s' y) a \<and> vtype (vmas s' y) = vtype (vmas s w) \<and>
      perm (vmas s' y) = id (perm (vmas s w)) \<and> vm_file (vmas s' y) = vm_file (vmas s w) \<and>
      offset (vmas s' y) + (a - startva (vmas s' y)) = offset (vmas s w) + (a - startva (vmas s w))"
    proof (cases "w = v")
      case True
      define y where "y = (if a < addr \<longleftrightarrow> below then n else v)"
      have "vma_covers (vmas s' y) a" using cv [of a] w(2) True x(1) by (auto simp: y_def)
      moreover have "vmas s' y = lower_half x addr \<or> vmas s' y = upper_half x addr" using at(1,2) by (auto simp: y_def)
      ultimately show ?thesis using True v x(1) s'(2)
        by (intro bexI [of _ y]) (auto simp: lower_half_def upper_half_def y_def algebra_simps)
    next
      case False
      have "w \<noteq> n" using w(1) n(1) by blast
      then have "vmas s' w = vmas s w" using at(3) False by blast
      then show ?thesis using w s'(2) by (intro bexI [of _ w]) auto
    qed
  next
    fix w assume "w \<in> set (head_vma mm')" "vma_covers (vmas s' w) a"
    then show "\<exists>y\<in>set (head_vma mm). vma_covers (vmas s y) a" using orig by blast
  qed
  also have "(\<lambda>(ty, p, r). (ty, id p, r)) = id" by (auto simp: fun_eq_iff)
  finally show "area_view s' mm' a = area_view s mm a" by (simp add: id_def option.map_ident)
qed

lemma covers_ends:
  assumes "unat (startva x) + unat (vsize x) < 2 ^ 64" "vsize x \<noteq> 0"
  shows "vma_covers x (startva x)" "vma_covers x (startva x + vsize x - 1)"
proof -
  have e: "unat (startva x + vsize x) = unat (startva x) + unat (vsize x)" using assms(1) by (simp add: unat_add_lem [THEN iffD1])
  have z: "0 < unat (vsize x)" using assms(2) by (simp add: unat_gt_0)
  then have "startva x + vsize x \<noteq> 0" using e by auto
  then have "unat (startva x + vsize x - 1) = unat (startva x) + unat (vsize x) - 1" using e by (simp add: unat_minus_one)
  then show "vma_covers x (startva x)" "vma_covers x (startva x + vsize x - 1)"
    using e z by (auto simp: vma_covers_def word_less_nat_alt word_le_nat_alt)
qed

text \<open>An area that is disjoint from those of the list can be added.\<close>

lemma add_vma_ok:
  assumes "areas_ok s (mm\<lparr>head_vma := n # head_vma mm\<rparr>)" "vsize (vmas s n) \<noteq> 0"
  shows "add_vma_to_vmspace s mm n = Some (mm\<lparr>head_vma := n # head_vma mm\<rparr>)"
proof -
  have "unat (startva (vmas s n)) + unat (vsize (vmas s n)) < 2 ^ 64" using assms(1) by (simp add: areas_ok_def)
  note E = covers_ends [OF this assms(2)]
  have "\<not> vma_covers (vmas s p) a" if "p \<in> set (head_vma mm)" "vma_covers (vmas s n) a" for p a
    using assms(1) that unfolding areas_ok_def by auto
  then have "\<not> check_vma_intersect s (head_vma mm) n" using E by (auto simp: check_vma_intersect_def Let_def list_ex_iff)
  then show ?thesis by (simp add: add_vma_to_vmspace_def)
qed

lemma alloc_vma_cases:
  obtains (none) "alloc_vma s = (s, None)" "\<forall>j<NVMA. used (vmas s j) \<noteq> 0"
  | (some) n where "alloc_vma s = (upd_vma n (\<lambda>v. v\<lparr>used := 1\<rparr>) s, Some n)" "n < NVMA" "used (vmas s n) = 0"
proof (cases "find (\<lambda>j. used (vmas s j) = 0) [0..<NVMA]")
  case None
  then have "alloc_vma s = (s, None)" by (simp add: alloc_vma_def)
  moreover have "\<forall>j<NVMA. used (vmas s j) \<noteq> 0" using None by (simp add: find_None_iff)
  ultimately show ?thesis by (rule none)
next
  case (Some n)
  then obtain j where "j < NVMA" "used (vmas s ([0..<NVMA] ! j)) = 0" "n = [0..<NVMA] ! j" by (auto simp: find_Some_iff)
  then have "n < NVMA" "used (vmas s n) = 0" by auto
  then show ?thesis using some Some by (simp add: alloc_vma_def)
qed

lemma filedup_ok:
  assumes "case fo of None \<Rightarrow> True | Some f \<Rightarrow> 0 < unat (f_count (files s f))"
  shows "\<exists>fs. (case fo of None \<Rightarrow> Some s | Some f \<Rightarrow> fat32_filedup f s) = Some (s\<lparr>files := fs\<rparr>) \<and>
    (\<forall>f. unat (f_count (files s f)) + 1 < 2 ^ 16 \<longrightarrow>
      unat (f_count (files s f)) \<le> unat (f_count (fs f)) \<and> unat (f_count (fs f)) \<le> unat (f_count (files s f)) + 1)"
proof (cases fo)
  case None
  then show ?thesis by (intro exI [of _ "files s"]) simp
next
  case (Some f)
  have "\<not> f_count (files s f) < 1" using assms Some by (simp add: word_less_nat_alt)
  moreover have "unat (f_count (files s f) + 1) = unat (f_count (files s f)) + 1" if "unat (f_count (files s f)) + 1 < 2 ^ 16"
    using that by (simp add: unat_add_lem [THEN iffD1])
  ultimately show ?thesis using Some
    by (intro exI [of _ "(files s)(f := (files s f)\<lparr>f_count := f_count (files s f) + 1\<rparr>)"]) (simp add: fat32_filedup_def)
qed

lemma split_vma_ok:
  assumes ok: "areas_ok s mm" "files_ok (Suc k) s mm" and v: "v \<in> set (head_vma mm)"
    and x: "x = vmas s v" "startva x < addr" "addr < startva x + vsize x"
  shows "\<exists>s' mm' r. split_vma s mm v addr below = Some (s', mm', r) \<and> areas_ok s' mm' \<and> files_ok k s' mm' \<and>
    v \<in> set (head_vma mm') \<and> (\<forall>a. area_view s' mm' a = area_view s mm a) \<and>
    (if r = 0 then vmas s' v = (if below then upper_half x addr else lower_half x addr)
     else r = - 1 \<and> (\<forall>j<NVMA. used (vmas s' j) \<noteq> 0))"
proof (cases rule: alloc_vma_cases [of s])
  case none
  then have "split_vma s mm v addr below = Some (s, mm, - 1)" by (simp add: split_vma_def)
  moreover have "files_ok k s mm" using ok(2) unfolding files_ok_def by fastforce
  ultimately show ?thesis using ok(1) v none(2) by auto
next
  case (some n)
  have nh: "n \<notin> set (head_vma mm)" using ok(1) some(3) by (auto simp: areas_ok_def)
  then have nv: "n \<noteq> v" using v by auto
  define V where "V = (vmas s)(n := if below then lower_half x addr else upper_half x addr,
    v := if below then upper_half x addr else lower_half x addr)"
  let ?mm = "mm\<lparr>head_vma := n # head_vma mm\<rparr>"
  have vn: "vmas s v = x" using x(1) by simp
  have fx: "case vm_file (V n) of None \<Rightarrow> True | Some f \<Rightarrow> 0 < unat (f_count (files s f)) \<and> unat (f_count (files s f)) + 1 < 2 ^ 16"
    using ok(2) v vn nv by (auto simp: files_ok_def V_def lower_half_def upper_half_def split: option.splits)
  then obtain fs where fs: "(case vm_file (V n) of None \<Rightarrow> Some (s\<lparr>vmas := V\<rparr>) | Some f \<Rightarrow> fat32_filedup f (s\<lparr>vmas := V\<rparr>)) =
      Some (s\<lparr>vmas := V, files := fs\<rparr>)"
    "\<And>f. unat (f_count (files s f)) + 1 < 2 ^ 16 \<Longrightarrow>
      unat (f_count (files s f)) \<le> unat (f_count (fs f)) \<and> unat (f_count (fs f)) \<le> unat (f_count (files s f)) + 1"
    using filedup_ok [where fo = "vm_file (V n)" and s = "s\<lparr>vmas := V\<rparr>"] by (fastforce split: option.splits)
  let ?s = "s\<lparr>vmas := V, files := fs\<rparr>"
  note S = split_areas [OF ok(1) v x nh some(2), of ?s below ?mm]
  have ok': "areas_ok ?s ?mm" "\<And>a. area_view ?s ?mm a = area_view s mm a" using S by (simp_all add: V_def)
  have b: "unat (startva x) + unat (vsize x) < 2 ^ 64" using ok(1) v vn by (auto simp: areas_ok_def)
  have "addr - startva x \<noteq> 0" "startva x + vsize x - addr \<noteq> 0" using x(2,3) by auto
  then have "vsize (vmas ?s n) \<noteq> 0" using nv by (simp add: V_def lower_half_def upper_half_def)
  note A = add_vma_ok [OF ok'(1) this]
  have up: "s\<lparr>vmas := V\<rparr> = (if below then
           upd_vma n (\<lambda>y. y\<lparr>vsize := addr - startva x\<rparr>)
             (upd_vma v (\<lambda>y. y\<lparr>vsize := startva x + vsize x - addr, startva := addr, offset := offset x + (addr - startva x)\<rparr>)
               (upd_vma n (\<lambda>_. x) (upd_vma n (\<lambda>v. v\<lparr>used := 1\<rparr>) s)))
         else
           upd_vma v (\<lambda>y. y\<lparr>vsize := addr - startva x\<rparr>)
             (upd_vma n (\<lambda>y. y\<lparr>startva := addr, vsize := startva x + vsize x - addr, offset := offset x + (addr - startva x)\<rparr>)
               (upd_vma n (\<lambda>_. x) (upd_vma n (\<lambda>v. v\<lparr>used := 1\<rparr>) s))))"
    using nv vn by (auto simp: V_def upd_vma_def lower_half_def upper_half_def fun_eq_iff)
  have old: "vmas (upd_vma n (\<lambda>v. v\<lparr>used := 1\<rparr>) s) v = x" using nv vn by (simp add: upd_vma_def)
  have run: "split_vma s mm v addr below = Some (?s, ?mm, 0)"
    unfolding split_vma_def some(1) prod.case option.case Let_def old up [symmetric] using fs(1) A by simp
  have "files_ok k ?s ?mm" unfolding files_ok_def
  proof (intro ballI allI impI)
    fix w f assume w: "w \<in> set (head_vma ?mm)" "vm_file (vmas ?s w) = Some f"
    have "\<exists>y\<in>set (head_vma mm). vm_file (vmas s y) = Some f"
      using w v vn nv by (cases "w = n"; cases "w = v") (auto simp: V_def lower_half_def upper_half_def split: if_splits)
    then have "0 < unat (f_count (files s f)) \<and> unat (f_count (files s f)) + Suc k < 2 ^ 16" using ok(2) by (auto simp: files_ok_def)
    then show "0 < unat (f_count (files ?s f)) \<and> unat (f_count (files ?s f)) + k < 2 ^ 16" using fs(2) [of f] by simp
  qed
  then show ?thesis using run ok' v by (intro exI [of _ ?s] exI [of _ ?mm] exI [of _ 0]) (simp add: V_def)
qed

lemma cut_vma_ok:
  assumes ok: "areas_ok s mm" "files_ok 2 s mm" and v: "v \<in> set (head_vma mm)"
    and x: "x = vmas s v" "startva x \<le> start" "start < fin" "fin \<le> startva x + vsize x"
  shows "\<exists>s' mm' r. cut_vma s mm v start fin = Some (s', mm', r) \<and> areas_ok s' mm' \<and>
    v \<in> set (head_vma mm') \<and> (\<forall>a. area_view s' mm' a = area_view s mm a) \<and>
    (if r = 0 then \<forall>a. vma_covers (vmas s' v) a \<longleftrightarrow> start \<le> a \<and> a < fin
     else r = - 1 \<and> (\<forall>j<NVMA. used (vmas s' j) \<noteq> 0))"
proof -
  have f2: "files_ok (Suc (Suc 0)) s mm" using ok(2) by (simp add: numeral_2_eq_2)
  have lt: "start < startva x + vsize x" using x(3,4) by (rule less_le_trans)
  obtain s1 mm1 r1 where c1: "(if start \<noteq> startva (vmas s v) then split_vma s mm v start True else Some (s, mm, 0)) = Some (s1, mm1, r1)"
    "areas_ok s1 mm1" "files_ok (Suc 0) s1 mm1" "v \<in> set (head_vma mm1)" "\<forall>a. area_view s1 mm1 a = area_view s mm a"
    "if r1 = 0 then startva (vmas s1 v) = start \<and> start + vsize (vmas s1 v) = startva x + vsize x
     else r1 = - 1 \<and> (\<forall>j<NVMA. used (vmas s1 j) \<noteq> 0)"
  proof (cases "start = startva x")
    case True
    have "files_ok (Suc 0) s mm" using f2 unfolding files_ok_def by fastforce
    moreover have "(if start \<noteq> startva (vmas s v) then split_vma s mm v start True else Some (s, mm, 0)) = Some (s, mm, 0)"
      using True x(1) by simp
    moreover have "startva (vmas s v) = start \<and> start + vsize (vmas s v) = startva x + vsize x" using True x(1) by simp
    ultimately show ?thesis using ok(1) v by (intro that [of s mm 0]) simp_all
  next
    case False
    then have "startva x < start" using x(2) by simp
    from split_vma_ok [OF ok(1) f2 v x(1) this lt, of True] obtain s1 mm1 r1 where
      "split_vma s mm v start True = Some (s1, mm1, r1)" "areas_ok s1 mm1" "files_ok (Suc 0) s1 mm1" "v \<in> set (head_vma mm1)"
      "\<forall>a. area_view s1 mm1 a = area_view s mm a"
      "if r1 = 0 then vmas s1 v = upper_half x start else r1 = - 1 \<and> (\<forall>j<NVMA. used (vmas s1 j) \<noteq> 0)" by auto
    moreover have "(if start \<noteq> startva (vmas s v) then split_vma s mm v start True else Some (s, mm, 0)) = split_vma s mm v start True"
      using False x(1) by simp
    ultimately show ?thesis by (intro that [of s1 mm1 r1]) (simp_all add: upper_half_def split: if_splits)
  qed
  show ?thesis
  proof (cases "r1 = 0")
    case False
    then show ?thesis using c1 by (intro exI [of _ s1] exI [of _ mm1] exI [of _ "- 1"]) (simp add: cut_vma_def)
  next
    case True
    let ?y = "vmas s1 v"
    have y: "startva ?y = start" "startva ?y + vsize ?y = startva x + vsize x" using c1(6) True by auto
    have by1: "unat (startva ?y) + unat (vsize ?y) < 2 ^ 64" using c1(2,4) by (auto simp: areas_ok_def)
    show ?thesis
    proof (cases "fin = startva x + vsize x")
      case e: True
      then have "cut_vma s mm v start fin = Some (s1, mm1, 0)" using c1(1) True y by (simp add: cut_vma_def)
      moreover have "\<forall>a. vma_covers ?y a \<longleftrightarrow> start \<le> a \<and> a < fin" unfolding vma_covers_def y(2) using y(1) e by simp
      ultimately show ?thesis using c1(2,4,5) by (intro exI [of _ s1] exI [of _ mm1] exI [of _ 0]) simp
    next
      case e: False
      then have l: "startva ?y < fin" "fin < startva ?y + vsize ?y" using x(3,4) y by auto
      obtain s2 mm2 r2 where c2: "split_vma s1 mm1 v fin False = Some (s2, mm2, r2)" "areas_ok s2 mm2" "v \<in> set (head_vma mm2)"
        "\<forall>a. area_view s2 mm2 a = area_view s1 mm1 a"
        "if r2 = 0 then vmas s2 v = lower_half ?y fin else r2 = - 1 \<and> (\<forall>j<NVMA. used (vmas s2 j) \<noteq> 0)"
        using split_vma_ok [OF c1(2,3,4) refl l, of False] by auto
      have "cut_vma s mm v start fin = Some (s2, mm2, if r2 < 0 then - 1 else 0)"
        using c1(1) c2(1) True e y(2) by (simp add: cut_vma_def)
      moreover have "vma_covers (vmas s2 v) a \<longleftrightarrow> start \<le> a \<and> a < fin" if "r2 = 0" for a
      proof -
        have "a < fin \<Longrightarrow> a < startva ?y + vsize ?y" using l(2) less_trans by blast
        then show ?thesis using that c2(5) halves_cover(1) [OF by1 l, of a] y(1) by (auto simp: vma_covers_def)
      qed
      ultimately show ?thesis using c1(5) c2(2-5)
        by (intro exI [of _ s2] exI [of _ mm2] exI [of _ "if r2 < 0 then - 1 else 0"]) (auto split: if_splits)
    qed
  qed
qed

lemma set_perm:
  assumes ok: "areas_ok s mm" and v: "v \<in> set (head_vma mm)" and c: "\<And>a. vma_covers (vmas s v) a \<longleftrightarrow> start \<le> a \<and> a < fin"
  shows "areas_ok (upd_vma v (\<lambda>x. x\<lparr>perm := prot\<rparr>) s) mm"
    "area_view (upd_vma v (\<lambda>x. x\<lparr>perm := prot\<rparr>) s) mm a =
      map_option (\<lambda>(ty, p, r). (ty, if start \<le> a \<and> a < fin then prot else p, r)) (area_view s mm a)"
proof -
  let ?s = "upd_vma v (\<lambda>x. x\<lparr>perm := prot\<rparr>) s"
  have cv: "vma_covers (vmas ?s w) b = vma_covers (vmas s w) b" for w b by (simp add: upd_vma_def vma_covers_def)
  have same: "used (vmas ?s w) = used (vmas s w)" "startva (vmas ?s w) = startva (vmas s w)" "vsize (vmas ?s w) = vsize (vmas s w)"
    "vtype (vmas ?s w) = vtype (vmas s w)" "vm_file (vmas ?s w) = vm_file (vmas s w)" "offset (vmas ?s w) = offset (vmas s w)"
    "perm (vmas ?s w) = (if w = v then prot else perm (vmas s w))" for w by (simp_all add: upd_vma_def)
  show ok': "areas_ok ?s mm" using ok unfolding areas_ok_def cv same .
  show "area_view ?s mm a = map_option (\<lambda>(ty, p, r). (ty, if start \<le> a \<and> a < fin then prot else p, r)) (area_view s mm a)"
  proof (rule area_view_eqI [OF ok ok', where g = "\<lambda>p. if start \<le> a \<and> a < fin then prot else p"])
    fix w assume w: "w \<in> set (head_vma mm)" "vma_covers (vmas s w) a"
    have "w = v \<longleftrightarrow> start \<le> a \<and> a < fin"
    proof
      assume "start \<le> a \<and> a < fin"
      then show "w = v" using c w v ok unfolding areas_ok_def by blast
    next
      assume "w = v"
      then show "start \<le> a \<and> a < fin" using w c by blast
    qed
    then show "\<exists>y\<in>set (head_vma mm). vma_covers (vmas ?s y) a \<and> vtype (vmas ?s y) = vtype (vmas s w) \<and>
      perm (vmas ?s y) = (if start \<le> a \<and> a < fin then prot else perm (vmas s w)) \<and> vm_file (vmas ?s y) = vm_file (vmas s w) \<and>
      offset (vmas ?s y) + (a - startva (vmas ?s y)) = offset (vmas s w) + (a - startva (vmas s w))"
      using w unfolding cv same by (intro bexI [of _ w]) simp_all
  next
    fix w assume "w \<in> set (head_vma mm)" "vma_covers (vmas ?s w) a"
    then show "\<exists>y\<in>set (head_vma mm). vma_covers (vmas s y) a" unfolding cv by blast
  qed
qed

lemma mprotect_ok:
  assumes ok: "areas_ok s mm" "files_ok 2 s mm" and len: "len \<noteq> 0" and fin: "fin = start + PGROUNDUP len" "start < fin"
    and prot: "prot AND NOT 7 = 0" and v: "find_vma_for_va s mm start = Some v" "fin \<le> startva (vmas s v) + vsize (vmas s v)"
  shows "\<exists>s' mm' r. sys_mprotect s mm start len prot = Some (s', mm', r) \<and> areas_ok s' mm' \<and>
    (if r = 0 then \<forall>a. area_view s' mm' a =
        map_option (\<lambda>(ty, p, f). (ty, if start \<le> a \<and> a < fin then prot else p, f)) (area_view s mm a)
     else r = - 1 \<and> (\<forall>a. area_view s' mm' a = area_view s mm a) \<and> (\<forall>j<NVMA. used (vmas s' j) \<noteq> 0))"
proof -
  have h: "v \<in> set (head_vma mm)" "startva (vmas s v) \<le> start" using v(1) find_vma_iff [OF ok(1)] by (auto simp: vma_covers_def)
  obtain s1 mm1 r where c: "cut_vma s mm v start fin = Some (s1, mm1, r)" "areas_ok s1 mm1" "v \<in> set (head_vma mm1)"
    "\<forall>a. area_view s1 mm1 a = area_view s mm a"
    "if r = 0 then \<forall>a. vma_covers (vmas s1 v) a \<longleftrightarrow> start \<le> a \<and> a < fin else r = - 1 \<and> (\<forall>j<NVMA. used (vmas s1 j) \<noteq> 0)"
    using cut_vma_ok [OF ok h(1) refl h(2) fin(2) v(2)] by blast
  have run: "sys_mprotect s mm start len prot =
    (if r < 0 then Some (s1, mm1, - 1) else Some (upd_vma v (\<lambda>x. x\<lparr>perm := prot\<rparr>) s1, mm1, 0))"
    using len less_not_sym [OF fin(2)] prot v(1) c(1) unfolding sys_mprotect_def Let_def fin(1) [symmetric] by simp
  show ?thesis
  proof (cases "r = 0")
    case True
    then show ?thesis using run set_perm [OF c(2,3), of start fin prot] c(4,5) by simp
  next
    case False
    then show ?thesis using run c(2,4,5) by simp
  qed
qed

end
