(* ===== verification/Vma_Props.thy ===== *)
theory Vma_Props
  imports Vma_Correct
begin

text \<open>
  What the memory areas of a process guarantee, and a case their overlap check misses.
\<close>

section \<open>Changing permissions\<close>

text \<open>C9.  \<open>mprotect\<close> of a range inside one area, on a list of disjoint areas, returns 0 and gives
  exactly the addresses of the range the new permissions: kind, file and file position of every
  address stay, and so do the permissions of all others.  It returns -1 only when the table of areas
  is full, and then a lookup finds everywhere what it found before.  The areas stay disjoint.\<close>

theorem sys_mprotect_correct:
  assumes "areas_ok s mm" "files_ok 2 s mm" "len \<noteq> 0" "fin = start + PGROUNDUP len" "start < fin"
    and "prot AND NOT 7 = 0" "find_vma_for_va s mm start = Some v" "fin \<le> startva (vmas s v) + vsize (vmas s v)"
  shows "\<exists>s' mm' r. sys_mprotect s mm start len prot = Some (s', mm', r) \<and> areas_ok s' mm' \<and>
    (if r = 0 then \<forall>a. area_view s' mm' a =
        map_option (\<lambda>(ty, p, f). (ty, if start \<le> a \<and> a < fin then prot else p, f)) (area_view s mm a)
     else r = - 1 \<and> (\<forall>a. area_view s' mm' a = area_view s mm a) \<and> (\<forall>j<NVMA. used (vmas s' j) \<noteq> 0))"
  by (rule mprotect_ok [OF assms])

text \<open>One area of three pages on an otherwise empty table.\<close>

definition three_pages :: "mach \<Rightarrow> vmsys" where
  "three_pages m = \<lparr>mc = m,
     vmas = (\<lambda>j. \<lparr>vtype = VMA_ANON, startva = 0x1000, vsize = 0x3000, perm = 3, used = if j = 0 then 1 else 0, offset = 0, vm_file = None\<rparr>),
     files = (\<lambda>_. \<lparr>f_count = 0, f_flags = 0\<rparr>)\<rparr>"

definition first_area :: mm_struct where
  "first_area = \<lparr>head_vma = [0], pagetable = 0, start_brk = 0, brk = 0, heapvma = None\<rparr>"

lemma three_pages_ok:
  "areas_ok (three_pages m) first_area" "files_ok 2 (three_pages m) first_area"
  "find_vma_for_va (three_pages m) first_area 0x2000 = Some 0"
  by (simp_all add: areas_ok_def files_ok_def three_pages_def first_area_def NVMA_def find_vma_for_va_def vma_covers_def)

lemma three_pages_split: "\<exists>s' mm'. sys_mprotect (three_pages m) first_area 0x2000 0x2000 1 = Some (s', mm', 0)"
proof -
  have two: "[0..<n] = 0 # 1 # [2..<n]" if "1 < n" for n :: nat
    using that upt_conv_Cons [of 0 n] upt_conv_Cons [of "Suc 0" n] by (simp add: numeral_2_eq_2)
  have "1 < NVMA" by (simp add: NVMA_def)
  note L = two [OF this]
  have "alloc_vma (three_pages m) = (upd_vma 1 (\<lambda>v. v\<lparr>used := 1\<rparr>) (three_pages m), Some 1)"
    unfolding alloc_vma_def L by (simp add: three_pages_def)
  moreover have "PGROUNDUP 0x2000 = 0x2000" by (simp add: PGROUNDUP_def ROUND_UP_def PGSIZE_def)
  ultimately show ?thesis using three_pages_ok(3) [of m]
    by (simp add: sys_mprotect_def cut_vma_def split_vma_def three_pages_def first_area_def Let_def upd_vma_def
      add_vma_to_vmspace_def check_vma_intersect_def vma_covers_def)
qed

theorem sys_mprotect_correct_witness:
  "\<exists>m s' mm'. sys_mprotect (three_pages m) first_area 0x2000 0x2000 1 = Some (s', mm', 0) \<and>
    map_option (\<lambda>(ty, p, f). p) (area_view s' mm' 0x1FFF) = Some 3 \<and>
    map_option (\<lambda>(ty, p, f). p) (area_view s' mm' 0x2000) = Some 1"
proof -
  fix m
  have p: "(0x2000 :: u64) \<noteq> 0" "(0x4000 :: u64) = 0x2000 + PGROUNDUP 0x2000" "(0x2000 :: u64) < 0x4000" "(1 :: u32) AND NOT 7 = 0"
    "(0x4000 :: u64) \<le> startva (vmas (three_pages m) 0) + vsize (vmas (three_pages m) 0)"
    by (simp_all add: PGROUNDUP_def ROUND_UP_def PGSIZE_def three_pages_def)
  obtain s' mm' where r: "sys_mprotect (three_pages m) first_area 0x2000 0x2000 1 = Some (s', mm', 0)" using three_pages_split by blast
  have v: "\<forall>a. area_view s' mm' a = map_option (\<lambda>(ty, p, f). (ty, if 0x2000 \<le> a \<and> a < 0x4000 then 1 else p, f))
      (area_view (three_pages m) first_area a)"
    using sys_mprotect_correct [OF three_pages_ok(1,2) p(1-4) three_pages_ok(3) p(5)] r by simp
  have "area_view (three_pages m) first_area 0x1FFF = Some (VMA_ANON, 3, None, 0xFFF)"
    "area_view (three_pages m) first_area 0x2000 = Some (VMA_ANON, 3, None, 0x1000)"
    by (simp_all add: area_view_def find_vma_for_va_def three_pages_def first_area_def vma_covers_def)
  then show ?thesis using r v by (intro exI [of _ m] exI [of _ s'] exI [of _ mm']) simp
qed

section \<open>The overlap check\<close>

text \<open>C40.  A new area around all areas of the list, with room at both ends, passes the overlap check
  and is added: the areas of the process are then not disjoint.\<close>

theorem add_vma_overlap_missed:
  assumes "p \<in> set (head_vma mm)" "vsize (vmas s p) \<noteq> 0"
    and "\<forall>w\<in>set (head_vma mm). unat (startva (vmas s n)) < unat (startva (vmas s w)) \<and>
      unat (startva (vmas s w)) + unat (vsize (vmas s w)) < unat (startva (vmas s n)) + unat (vsize (vmas s n))"
    and "unat (startva (vmas s n)) + unat (vsize (vmas s n)) < 2 ^ 64"
  shows "\<exists>mm'. add_vma_to_vmspace s mm n = Some mm' \<and> head_vma mm' = n # head_vma mm \<and> \<not> areas_ok s mm'"
proof -
  let ?n = "vmas s n" let ?mm = "mm\<lparr>head_vma := n # head_vma mm\<rparr>"
  have e: "unat (startva ?n + vsize ?n) = unat (startva ?n) + unat (vsize ?n)" using assms(4) by (simp add: unat_add_lem [THEN iffD1])
  have b: "unat (startva (vmas s w) + vsize (vmas s w)) = unat (startva (vmas s w)) + unat (vsize (vmas s w))"
    "unat (startva ?n) < unat (startva (vmas s w))"
    "unat (startva (vmas s w)) + unat (vsize (vmas s w)) < unat (startva ?n) + unat (vsize ?n)"
    if "w \<in> set (head_vma mm)" for w
  proof -
    show i: "unat (startva ?n) < unat (startva (vmas s w))"
      "unat (startva (vmas s w)) + unat (vsize (vmas s w)) < unat (startva ?n) + unat (vsize ?n)" using assms(3) that by blast+
    then have "unat (startva (vmas s w)) + unat (vsize (vmas s w)) < 2 ^ 64" using assms(4) by linarith
    then show "unat (startva (vmas s w) + vsize (vmas s w)) = unat (startva (vmas s w)) + unat (vsize (vmas s w))"
      by (simp add: unat_add_lem [THEN iffD1])
  qed
  have "startva ?n + vsize ?n \<noteq> 0" using e b(3) [OF assms(1)] by auto
  then have l: "unat (startva ?n + vsize ?n - 1) = unat (startva ?n) + unat (vsize ?n) - 1" using e by (simp add: unat_minus_one)
  have "\<not> vma_covers (vmas s w) (startva ?n) \<and> \<not> vma_covers (vmas s w) (startva ?n + vsize ?n - 1)" if "w \<in> set (head_vma mm)" for w
    unfolding vma_covers_def word_less_nat_alt word_le_nat_alt l b(1) [OF that] using b(2,3) [OF that] by linarith
  then have add: "add_vma_to_vmspace s mm n = Some ?mm"
    by (auto simp: add_vma_to_vmspace_def check_vma_intersect_def Let_def list_ex_iff)
  have "0 < unat (vsize (vmas s p))" using assms(2) by (simp add: unat_gt_0)
  then have "vma_covers (vmas s p) (startva (vmas s p))" "vma_covers ?n (startva (vmas s p))" "p \<noteq> n"
    using b [OF assms(1)] e by (auto simp: vma_covers_def word_less_nat_alt word_le_nat_alt)
  then have "\<not> areas_ok s ?mm" using assms(1) unfolding areas_ok_def by auto
  then show ?thesis using add by simp
qed

definition around :: "mach \<Rightarrow> vmsys" where
  "around m = upd_vma 1 (\<lambda>v. v\<lparr>startva := 0, vsize := 0x5000, used := 1\<rparr>) (three_pages m)"

theorem add_vma_overlap_missed_witness:
  "\<exists>m mm'. add_vma_to_vmspace (around m) first_area 1 = Some mm' \<and> head_vma mm' = [1, 0] \<and> \<not> areas_ok (around m) mm'"
proof -
  fix m
  have "0 \<in> set (head_vma first_area)" "vsize (vmas (around m) 0) \<noteq> 0"
    "\<forall>w\<in>set (head_vma first_area). unat (startva (vmas (around m) 1)) < unat (startva (vmas (around m) w)) \<and>
      unat (startva (vmas (around m) w)) + unat (vsize (vmas (around m) w)) < unat (startva (vmas (around m) 1)) + unat (vsize (vmas (around m) 1))"
    "unat (startva (vmas (around m) 1)) + unat (vsize (vmas (around m) 1)) < 2 ^ 64"
    by (simp_all add: around_def first_area_def upd_vma_def three_pages_def)
  from add_vma_overlap_missed [OF this] show ?thesis by (auto simp: first_area_def)
qed

end
