(* ===== verification/Spec2Isabelle.thy ===== *)
theory Spec2Isabelle
  imports Cstring Buddy_Props Kalloc_Props RadixTree_Props Sprintf_Props Sched_Props Pipe Hash_Props Vm_Props Vm_Free Fault_Props Vma_Props
begin

text \<open>
  A verification library for a RISC-V kernel.  File names below are relative to \<^verbatim>\<open>src/\<close>, the
  root of the repository.

  \<^bold>\<open>The program.\<close>  The kernel runs on several harts that share memory and protect it with spin locks.
  Physical pages come from buddy pools, one per hart, behind \<^verbatim>\<open>kmalloc\<close> and \<^verbatim>\<open>kfree\<close>.  Page tables
  are built from those pages; an address space is a page table and a list of memory areas, filled
  on demand by the page-fault handler.  Threads move between queues, wait on condition variables
  and semaphores, and talk through pipes.  Radix trees, hash tables, strings and formatted output
  serve all of them.

  \<^bold>\<open>Conventions\<close> (\<open>Prelude\<close>).  C integers are words of their width.  A function that may panic, fail an
  \<^verbatim>\<open>ASSERT\<close> or run into undefined behaviour returns an option and \<open>None\<close> is that outcome; error codes
  of the source are ordinary results.  State is a record passed along.  A few \<^verbatim>\<open>int\<close> counters are
  integers without bound, because what they count cannot come near \<open>2 ^ 31\<close>: the nesting \<open>noff\<close>, the
  lengths of free lists and their sums (\<open>sum_freelists\<close>), \<open>pages_cnt\<close> and \<open>recycling\<close>.  Reference counts
  wrap where they are counted up (\<open>share_page\<close>), and the counters of a semaphore overflow into \<open>None\<close>.  A function that the code
  brackets with a lock is one atomic step; where interleaving is the point there is a step relation.

  \<^bold>\<open>Locks.\<close>  \<open>Spinlock\<close> models \<^verbatim>\<open>src/atomic/spinlock.c\<close>: \<open>push_off\<close>, \<open>pop_off\<close>, \<open>acquire\<close> and \<open>release\<close>, and
  the relation \<open>lock_step\<close> in which any number of harts contend at the granularity of the memory
  accesses.  Mutual exclusion is proved by rule induction over the reachable states.

  \<^bold>\<open>Pages.\<close>  \<open>Buddy\<close> models \<^verbatim>\<open>src/mm/buddy.c\<close> and \<open>Kalloc\<close> models \<^verbatim>\<open>src/mm/kalloc.c\<close>: pools, splitting
  and merging, stealing between harts, reference counts.  \<open>Buddy_Correct\<close> has the invariant of a pool,
  \<open>Kalloc_Correct\<close> that of all pools (\<open>kmem_ok\<close>).  \<open>Alloc_Spec\<close> is the contract of a page allocator as
  the locale \<open>page_allocator\<close>; the pool is its interpretation \<open>buddy\<close>.  \<open>Buddy_Props\<close> and \<open>Kalloc_Props\<close>
  state what each operation does, on every branch, and that the blocks which any sequence of requests
  has returned never overlap and with the free pages are the whole pool.  \<^verbatim>\<open>alloc_fail\<close>, which reclaims pages of the page cache, is the
  parameter \<open>af\<close>; the hypothesis \<open>reclaims\<close> says that it only gives back such pages.

  \<^bold>\<open>Page tables and user memory.\<close>  \<open>Vm\<close> models \<^verbatim>\<open>src/mm/vm.c\<close> on byte memory: \<open>walk\<close>, \<open>mappages\<close>,
  \<open>uvmalloc\<close>, \<open>uvmunmap\<close>, \<open>freewalk\<close>, \<open>copyin\<close>, \<open>copyinstr\<close> and the others.  \<open>Vma\<close> models \<^verbatim>\<open>src/mm/vma.c\<close>
  and \<^verbatim>\<open>src/mm/mmap.c\<close>, \<open>Pagefault\<close> models \<^verbatim>\<open>src/mm/pagefault.c\<close> with \<open>copyout\<close> and \<open>uvmcopy\<close>, and \<open>Pcb_Mm\<close>
  models \<^verbatim>\<open>src/proc/pcb_mm.c\<close>, \<^verbatim>\<open>src/mm/mm.c\<close> and \<open>kvmmake\<close>.
  \<^item> \<open>Vm_Tree\<close> and \<open>Vm_Walk\<close>: a page table as a tree of pages (\<open>pt_wf\<close>, \<open>tabs\<close>), the translation it stands
    for (\<open>xl\<close>), and what \<open>walk\<close> finds and adds.
  \<^item> \<open>Vm_Map\<close>, \<open>Vm_Copy\<close>, \<open>Copyout\<close>, \<open>Vm_Props\<close>: \<open>mappages\<close> maps exactly what it is asked for; \<open>copyin\<close> and
    \<open>copyout\<close> move exactly the bytes of the user range, and one reads back what the other wrote.
  \<^item> \<open>Vm_Unmap\<close>, \<open>Fault_Correct\<close>, \<open>Fault_Props\<close>: \<open>uvmunmap\<close> removes exactly the range and its references;
    a write to a shared page gives a private copy; a first access gives a zeroed page.
  \<^item> \<open>Vm_Free\<close>: \<open>freewalk\<close> gives back exactly the pages of the tables.
  \<^item> \<open>Vma_Correct\<close>, \<open>Vma_Props\<close>: areas as a partition of addresses, and \<open>mprotect\<close> on it.
  The models of \<open>uvmcopy\<close>, \<open>copyinstr\<close>, \<open>do_mmap\<close>, \<open>vmspace_unmap\<close>, \<open>growheap\<close> and the set-up of address
  spaces are definitions without theorems of their own.  Theorems on user memory are about small
  pages and address spaces with \<open>vm_ok\<close>, with a reclaimer that finds nothing to reclaim from the
  pages in use (\<open>reclaims {}\<close>); superpages are modelled and the theorems exclude them where they say.

  \<^bold>\<open>Threads.\<close>  \<open>Klist\<close> models the circular lists of \<^verbatim>\<open>include/lib/list.h\<close> on a heap of pointers.  \<open>Sched\<close>
  models \<^verbatim>\<open>src/lib/queue.c\<close>, \<^verbatim>\<open>src/proc/sched.c\<close>, \<^verbatim>\<open>src/atomic/cond.c\<close>, \<^verbatim>\<open>src/atomic/semaphore.c\<close> and the
  thread table of \<^verbatim>\<open>src/proc/tcb_life.c\<close> on them.  \<open>Sched_Correct\<close> has the invariant that every thread is
  in the queue of its state; \<open>Sema\<close> is the interleaved system \<open>sem_reach\<close>, in which a signal takes
  three steps under \<^verbatim>\<open>sem_lock\<close> (\<open>Signal\<close>, \<open>Take\<close>, \<open>Wake\<close>), a wait resumes in two (\<open>Return\<close>, where a killed
  thread exits, and \<open>Resume\<close>), and threads are killed and woken out of turn; \<open>signal_steps\<close> ties the steps
  to \<^verbatim>\<open>sema_signal\<close>.  Since \<^verbatim>\<open>thread_wakeup\<close> does not take \<^verbatim>\<open>sem_lock\<close>, the relation lets it happen only while
  no one signals the semaphore, and \<open>cond_signal_race\<close> shows the panic otherwise.  \<open>Sched_Props\<close> shows that
  semaphores do not panic within the range of their counters, account exactly for what they grant
  and lose no wakeup but to killed threads, and that the scheduler is fair.

  \<^bold>\<open>Pipes.\<close>  \<open>Pipe\<close> models \<^verbatim>\<open>src/ipc/pipe.c\<close> and shows that a pipe is a stream, across wrap-around of its
  counters, and what a write returns.

  \<^bold>\<open>Containers and text.\<close>  \<open>RadixTree\<close> models \<^verbatim>\<open>src/lib/radix-tree.c\<close>; it is the interpretation \<open>radix\<close> of
  the contract \<open>kv_map\<close> of \<open>Kv_Spec\<close> (\<open>RadixTree_Correct\<close>, \<open>RadixTree_Props\<close>).  \<open>Hash\<close> models
  \<^verbatim>\<open>src/lib/hash.c\<close>; it is the interpretation \<open>hasht\<close> of the contract \<open>dict\<close> of \<open>Dict_Spec\<close>
  (\<open>Hash_Props\<close>), where the memory of a new node is an argument of \<open>hash_insert\<close>.  \<open>Cstring\<close> models \<^verbatim>\<open>src/lib/string.c\<close>, and \<open>Sprintf\<close> models \<^verbatim>\<open>src/lib/sprintf.c\<close>
  (\<open>Sprintf_Props\<close>).

  \<^bold>\<open>Defects.\<close>  Some theorems state what the code does where that is not what it means to do:
  \<open>safestrcpy_writes_past\<close>, \<open>snprintf_d_overruns\<close>, \<open>radix_tree_insert_range\<close>, \<open>kmalloc_rounding\<close>,
  \<open>inode_map_collision\<close>, \<open>inode_map_empty_name\<close>, \<open>hash_insert_no_memory\<close>, \<open>cond_signal_race\<close>,
  \<open>killed_waiter_loses_wakeup\<close>, \<open>copyout_missing_table\<close>, \<open>pagefault_first_touch\<close> (its branch without
  memory) and \<open>add_vma_overlap_missed\<close>.

  \<^bold>\<open>Bounds.\<close>  Loops recurse on a counter computed from their arguments, and a loop that would go on when
  the counter is used up has the result \<open>None\<close>; the theorems show a result, so the counters are
  enough there.  The loop of \<open>uvmunmap\<close> has one round per page of the range, those of \<open>uvmalloc\<close> the
  number \<open>rounds\<close>.  \<open>uvmunmap\<close>, \<open>uvmalloc\<close> and \<open>uvmdealloc\<close> call each other; the nesting is bounded by
  \<open>unmap_depth 1\<close>, and \<open>unmap_depth_enough\<close> shows that a larger bound changes nothing.  \<open>freewalk\<close> takes the
  three levels of Sv39.  Functions of \<open>Cstring\<close> that search for a terminator are partial functions.

  \<^bold>\<open>Not modelled.\<close>  The file system (\<^verbatim>\<open>src/fs\<close>), block and page cache, and write-back: contents of
  mapped files are the parameters \<open>fread\<close> and \<open>fwrite\<close>.  Creation, exit and waiting of processes,
  program loading, signals, futexes, timers, sockets and shared memory.  Traps, system call
  dispatch, context switches, assembly, drivers and the console, which work on processor and device
  state.  Debug output.  Of the parts above: the batch lookup and the release of a whole radix tree,
  \<^verbatim>\<open>thread_sched\<close>, allocation and joining of threads, the \<^verbatim>\<open>do_exit\<close> of a thread killed in \<^verbatim>\<open>cond_wait\<close>, and the
  file objects of pipes.
\<close>

end
